(* ===== verification/C_Prelude.thy ===== *)
theory C_Prelude
  imports Main "HOL-Library.Word"
begin

text \<open>
  Shared vocabulary of the libcr development: faults and results of C code,
  nullable pointers, the integer conversions the sources perform, and the generic list
  lemmas the components use.
\<close>

section \<open>Results of C code\<close>

text \<open>
  A C function that has defined behaviour returns \<open>Inr\<close> of its value and the new state.
  \<open>Inl\<close> names the way in which it leaves the defined behaviour of C: a null pointer is
  dereferenced, a pointer does not point to a live object, an array is indexed out of its
  bounds, a division by zero is performed, a variable is read before it is written, or a
  loop does not end.
\<close>

datatype c_fault = NullDeref | DeadPointer | OutOfBounds | DivByZero | Uninitialised | Diverges

type_synonym 'a c_result = "c_fault + 'a"

fun bindR :: "'a c_result \<Rightarrow> ('a \<Rightarrow> 'b c_result) \<Rightarrow> 'b c_result" where
  "bindR (Inl e) f = Inl e"
| "bindR (Inr x) f = f x"

lemma bindR_eq_Inr: "bindR m f = Inr y \<longleftrightarrow> (\<exists>x. m = Inr x \<and> f x = Inr y)"
  by (cases m) auto

lemma bindR_assoc: "bindR (bindR m f) g = bindR m (\<lambda>x. bindR (f x) g)"
  by (cases m) auto

lemma bindR_cong [fundef_cong]:
  "m = m' \<Longrightarrow> (\<And>x. m' = Inr x \<Longrightarrow> f x = g x) \<Longrightarrow> bindR m f = bindR m' g"
  by (cases m') auto

text \<open>A counted loop whose body may fault.\<close>

fun foldR :: "('s \<Rightarrow> 'a \<Rightarrow> 's c_result) \<Rightarrow> 's \<Rightarrow> 'a list \<Rightarrow> 's c_result" where
  "foldR f s [] = Inr s"
| "foldR f s (x # xs) = bindR (f s x) (\<lambda>s'. foldR f s' xs)"

lemma foldR_append: "foldR f s (xs @ ys) = bindR (foldR f s xs) (\<lambda>s'. foldR f s' ys)"
  by (induction xs arbitrary: s) (auto simp: bindR_assoc)

lemma foldR_map: "foldR f s (map g xs) = foldR (\<lambda>s x. f s (g x)) s xs"
  by (induction xs arbitrary: s) (simp_all cong: bindR_cong)

lemma foldR_cong [fundef_cong]:
  "s = s' \<Longrightarrow> xs = ys \<Longrightarrow> (\<And>s x. x \<in> set ys \<Longrightarrow> f s x = g s x) \<Longrightarrow> foldR f s xs = foldR g s' ys"
  by (induction ys arbitrary: s s' xs) (auto intro!: bindR_cong)

text \<open>Reading through a nullable pointer into a heap of objects of one struct type.\<close>

definition deref :: "(nat \<rightharpoonup> 'a) \<Rightarrow> nat option \<Rightarrow> 'a c_result" where
  "deref h p = (case p of None \<Rightarrow> Inl NullDeref
     | Some a \<Rightarrow> (case h a of None \<Rightarrow> Inl DeadPointer | Some x \<Rightarrow> Inr x))"

lemma deref_simps [simp]:
  "deref h None = Inl NullDeref"
  "h a = None \<Longrightarrow> deref h (Some a) = Inl DeadPointer"
  "h a = Some x \<Longrightarrow> deref h (Some a) = Inr x"
  by (simp_all add: deref_def)

section \<open>Integers\<close>

text \<open>
  \<open>unsigned long long\<close> is \<^typ>\<open>64 word\<close>. An \<open>int\<close> is an \<^typ>\<open>int\<close> in the range of 32 bits;
  \<open>int_of_u64\<close> is the conversion C performs when an \<open>unsigned long long\<close> is stored in an
  \<open>int\<close>, \<open>u64_of_int\<close> the one it performs when an \<open>int\<close> meets an \<open>unsigned long long\<close>.
  \<open>wrap32\<close> is 32-bit two's complement arithmetic and \<open>c_rem\<close> is the \<open>%\<close> of C, which
  takes the sign of the dividend.
\<close>

type_synonym u64 = "64 word"
type_synonym u32 = "32 word"

definition int_of_u64 :: "u64 \<Rightarrow> int" where
  "int_of_u64 w = sint (ucast w :: u32)"

definition u64_of_int :: "int \<Rightarrow> u64" where
  "u64_of_int i = word_of_int i"

definition wrap32 :: "int \<Rightarrow> int" where
  "wrap32 i = sint (word_of_int i :: u32)"

definition c_rem :: "int \<Rightarrow> int \<Rightarrow> int" where
  "c_rem a b = sgn a * (\<bar>a\<bar> mod \<bar>b\<bar>)"

definition int32_range :: "int \<Rightarrow> bool" where
  "int32_range i \<longleftrightarrow> - (2 ^ 31) \<le> i \<and> i < 2 ^ 31"

lemma wrap32_id [simp]: "int32_range i \<Longrightarrow> wrap32 i = i"
  by (simp add: int32_range_def wrap32_def sint_sbintrunc' signed_take_bit_int_eq_self_iff)

lemma int_of_u64_small: "uint w < 2 ^ 31 \<Longrightarrow> int_of_u64 w = uint w"
  by (simp add: int_of_u64_def sint_uint unsigned_ucast_eq take_bit_int_eq_self
      signed_take_bit_int_eq_self_iff order_trans [of _ 0])

lemma c_rem_nonneg [simp]: "0 \<le> a \<Longrightarrow> 0 < b \<Longrightarrow> c_rem a b = a mod b"
  by (cases "a = 0") (simp_all add: c_rem_def)

lemma uint_diff_le: "(a :: 'a::len word) \<le> b \<Longrightarrow> uint (b - a) = uint b - uint a"
  by (simp add: uint_sub_if' word_le_def)

section \<open>Lists and their end points\<close>

fun hd_or :: "'a list \<Rightarrow> 'a option \<Rightarrow> 'a option" where
  "hd_or [] q = q"
| "hd_or (x # xs) q = Some x"

fun last_or :: "'a option \<Rightarrow> 'a list \<Rightarrow> 'a option" where
  "last_or p [] = p"
| "last_or p (x # xs) = last_or (Some x) xs"

lemma hd_or_append [simp]: "hd_or (xs @ ys) q = hd_or xs (hd_or ys q)"
  by (cases xs) auto

lemma last_or_append [simp]: "last_or p (xs @ ys) = last_or (last_or p xs) ys"
  by (induction xs arbitrary: p) auto

lemma hd_or_None [simp]: "hd_or xs None = None \<longleftrightarrow> xs = []"
  by (cases xs) auto

lemma last_or_Some [simp]: "last_or (Some a) xs \<noteq> None"
  by (induction xs arbitrary: a) auto

lemma last_or_None [simp]: "last_or None xs = None \<longleftrightarrow> xs = []"
  by (cases xs) auto

lemma last_or_snoc_cases: "last_or None xs = Some a \<Longrightarrow> \<exists>ys. xs = ys @ [a]"
  by (cases xs rule: rev_cases) auto

lemma hd_or_cons_cases: "hd_or xs None = Some a \<Longrightarrow> \<exists>ys. xs = a # ys"
  by (cases xs) auto

lemma last_or_mem: "Some a = last_or (Some b) xs \<Longrightarrow> a \<in> set (b # xs) \<and> (xs \<noteq> [] \<longrightarrow> a \<in> set xs)"
  by (induction xs arbitrary: b) auto

lemma hd_or_eq_last_or: "distinct xs \<Longrightarrow> xs \<noteq> [] \<Longrightarrow> hd_or xs None = last_or None xs \<longleftrightarrow> length xs = 1"
  by (cases xs) (auto dest: last_or_mem)

end
