(* ===== verification/Timer_List.thy ===== *)
theory Timer_List
  imports C_Prelude
begin

text \<open>
  The intrusive doubly linked lists of \<^verbatim>\<open>src/src/epoll.c\<close>: \<open>timer_item_t\<close> nodes that carry
  their own links and a pointer to the list they are in, and \<open>timer_list_t\<close> heads.
  The store maps item addresses to items and list references to list heads; the operations
  \<open>popHead\<close>, \<open>join\<close>, \<open>add_tail\<close> and \<open>remove_from_link\<close> are the pointer programs of the
  source. They are proved to implement the corresponding operations on HOL lists.
\<close>

section \<open>Data\<close>

text \<open>
  A thread has one \<open>epoll_context_t\<close>, so the \<open>timer_list_t\<close> objects are its two named
  lists and the slots of the timer wheel (\<open>timer->items + i\<close>).
\<close>

datatype list_ref = WheelSlot nat | ActiveList | TimeoutList

text \<open>The functions the source stores in \<open>prepare\<close> and \<open>process\<close>.\<close>

datatype prepare_fun_t = Prepare_poll_event
datatype process_fun_t = Process_poll_event

text \<open>
  \<open>ti_arg\<close> points to the element \<open>i\<close> of the \<open>items\<close> array of a \<open>poll_context_t\<close>, the
  only kind of object the source stores there.
\<close>

record timer_item_t =
  ti_prev :: "nat option"
  ti_next :: "nat option"
  ti_parent :: "list_ref option"
  ti_expire :: u64
  ti_prepare :: "prepare_fun_t option"
  ti_process :: "process_fun_t option"
  ti_coroutine :: "nat option"
  ti_arg :: "(nat \<times> nat) option"
  ti_timeout :: bool

record timer_list_t =
  tl_head :: "nat option"
  tl_tail :: "nat option"

record timer_store =
  items :: "nat \<rightharpoonup> timer_item_t"
  lists :: "list_ref \<rightharpoonup> timer_list_t"

definition zero_item :: timer_item_t where
  "zero_item = \<lparr>ti_prev = None, ti_next = None, ti_parent = None, ti_expire = 0, ti_prepare = None,
     ti_process = None, ti_coroutine = None, ti_arg = None, ti_timeout = False\<rparr>"

definition empty_list :: timer_list_t where
  "empty_list = \<lparr>tl_head = None, tl_tail = None\<rparr>"

section \<open>Memory accesses\<close>

definition get_item :: "timer_store \<Rightarrow> nat option \<Rightarrow> timer_item_t c_result" where
  "get_item s p = deref (items s) p"

definition set_item ::
  "timer_store \<Rightarrow> nat option \<Rightarrow> (timer_item_t \<Rightarrow> timer_item_t) \<Rightarrow> timer_store c_result" where
  "set_item s p f = bindR (get_item s p) (\<lambda>it. Inr (s\<lparr>items := (items s)(the p \<mapsto> f it)\<rparr>))"

definition get_list :: "timer_store \<Rightarrow> list_ref \<Rightarrow> timer_list_t c_result" where
  "get_list s l = (case lists s l of None \<Rightarrow> Inl OutOfBounds | Some L \<Rightarrow> Inr L)"

definition set_list ::
  "timer_store \<Rightarrow> list_ref \<Rightarrow> (timer_list_t \<Rightarrow> timer_list_t) \<Rightarrow> timer_store c_result" where
  "set_list s l f = bindR (get_list s l) (\<lambda>L. Inr (s\<lparr>lists := (lists s)(l \<mapsto> f L)\<rparr>))"

lemmas access_defs = get_item_def set_item_def get_list_def set_list_def

section \<open>Operations\<close>

definition popHead :: "timer_store \<Rightarrow> list_ref \<Rightarrow> timer_store c_result" where
  "popHead s l =
     bindR (get_list s l) (\<lambda>L.
     if tl_head L = None then Inr s
     else
       let item = tl_head L in
       bindR (if tl_head L = tl_tail L
              then set_list s l (\<lambda>L. L\<lparr>tl_head := None, tl_tail := None\<rparr>)
              else bindR (get_item s (tl_head L)) (\<lambda>h. set_list s l (\<lambda>L. L\<lparr>tl_head := ti_next h\<rparr>)))
       (\<lambda>s. bindR (set_item s item (\<lambda>it. it\<lparr>ti_prev := None, ti_next := None, ti_parent := None\<rparr>))
       (\<lambda>s. bindR (get_list s l)
       (\<lambda>L. if tl_head L \<noteq> None then set_item s (tl_head L) (\<lambda>it. it\<lparr>ti_prev := None\<rparr>) else Inr s))))"

text \<open>
  The first loop of \<open>join\<close> walks the \<open>next\<close> pointers until it meets \<open>NULL\<close>. On a cyclic
  chain it does not end, which the option result makes visible.
\<close>

partial_function (option) set_parents ::
  "timer_store \<Rightarrow> list_ref \<Rightarrow> nat option \<Rightarrow> timer_store c_result option" where
  "set_parents s l item =
     (if item = None then Some (Inr s)
      else case set_item s item (\<lambda>it. it\<lparr>ti_parent := Some l\<rparr>) of
        Inl e \<Rightarrow> Some (Inl e)
      | Inr s' \<Rightarrow>
          (case get_item s' item of Inl e \<Rightarrow> Some (Inl e) | Inr it \<Rightarrow> set_parents s' l (ti_next it)))"

definition join :: "timer_store \<Rightarrow> list_ref \<Rightarrow> list_ref \<Rightarrow> timer_store c_result" where
  "join s l other =
     bindR (get_list s other) (\<lambda>oth.
     if tl_head oth = None then Inr s
     else
       bindR (case set_parents s l (tl_head oth) of None \<Rightarrow> Inl Diverges | Some r \<Rightarrow> r) (\<lambda>s.
       bindR (get_list s other) (\<lambda>oth.
       let item = tl_head oth in
       bindR (get_list s l) (\<lambda>L.
       bindR (if tl_tail L \<noteq> None
              then bindR (set_item s (tl_tail L) (\<lambda>it. it\<lparr>ti_next := item\<rparr>)) (\<lambda>s.
                   bindR (set_item s item (\<lambda>it. it\<lparr>ti_prev := tl_tail L\<rparr>)) (\<lambda>s.
                   set_list s l (\<lambda>L. L\<lparr>tl_tail := tl_tail oth\<rparr>)))
              else set_list s l (\<lambda>L. L\<lparr>tl_head := tl_head oth, tl_tail := tl_tail oth\<rparr>)) (\<lambda>s.
       set_list s other (\<lambda>L. L\<lparr>tl_head := None, tl_tail := None\<rparr>))))))"

definition add_tail :: "timer_store \<Rightarrow> list_ref \<Rightarrow> nat option \<Rightarrow> timer_store c_result" where
  "add_tail s l item =
     bindR (get_item s item) (\<lambda>it.
     if ti_parent it \<noteq> None then Inr s
     else
       bindR (get_list s l) (\<lambda>L.
       bindR (if tl_tail L \<noteq> None
              then bindR (set_item s (tl_tail L) (\<lambda>t. t\<lparr>ti_next := item\<rparr>)) (\<lambda>s.
                   bindR (set_item s item (\<lambda>it. it\<lparr>ti_next := None, ti_prev := tl_tail L\<rparr>)) (\<lambda>s.
                   set_list s l (\<lambda>L. L\<lparr>tl_tail := item\<rparr>)))
              else bindR (set_list s l (\<lambda>L. L\<lparr>tl_head := item, tl_tail := item\<rparr>)) (\<lambda>s.
                   set_item s item (\<lambda>it. it\<lparr>ti_next := None, ti_prev := None\<rparr>))) (\<lambda>s.
       set_item s item (\<lambda>it. it\<lparr>ti_parent := Some l\<rparr>))))"

definition remove_from_link :: "timer_store \<Rightarrow> nat option \<Rightarrow> timer_store c_result" where
  "remove_from_link s item =
     bindR (get_item s item) (\<lambda>it.
     case ti_parent it of
       None \<Rightarrow> Inr s
     | Some l \<Rightarrow>
       bindR (get_list s l) (\<lambda>L.
       bindR (if item = tl_head L
              then bindR (set_list s l (\<lambda>L. L\<lparr>tl_head := ti_next it\<rparr>)) (\<lambda>s.
                   if ti_next it \<noteq> None then set_item s (ti_next it) (\<lambda>n. n\<lparr>ti_prev := None\<rparr>) else Inr s)
              else if ti_prev it \<noteq> None
                   then set_item s (ti_prev it) (\<lambda>p. p\<lparr>ti_next := ti_next it\<rparr>) else Inr s) (\<lambda>s.
       bindR (get_item s item) (\<lambda>it.
       bindR (get_list s l) (\<lambda>L.
       bindR (if item = tl_tail L
              then bindR (set_list s l (\<lambda>L. L\<lparr>tl_tail := ti_prev it\<rparr>)) (\<lambda>s.
                   if ti_prev it \<noteq> None then set_item s (ti_prev it) (\<lambda>p. p\<lparr>ti_next := None\<rparr>) else Inr s)
              else set_item s (ti_next it) (\<lambda>n. n\<lparr>ti_prev := ti_prev it\<rparr>)) (\<lambda>s.
       set_item s item (\<lambda>it. it\<lparr>ti_prev := None, ti_next := None, ti_parent := None\<rparr>)))))))"

section \<open>Representation of HOL lists\<close>

text \<open>
  \<open>dseg h l p xs q\<close>: the items \<open>xs\<close> are linked in this order, the first one's \<open>prev\<close> is
  \<open>p\<close>, the last one's \<open>next\<close> is \<open>q\<close>, and all of them name \<open>l\<close> as their list.
\<close>

definition node_ok :: "(nat \<rightharpoonup> timer_item_t) \<Rightarrow> list_ref \<Rightarrow> nat option \<Rightarrow> nat \<Rightarrow> nat option \<Rightarrow> bool" where
  "node_ok h l p x q = (case h x of None \<Rightarrow> False
     | Some it \<Rightarrow> ti_prev it = p \<and> ti_next it = q \<and> ti_parent it = Some l)"

fun dseg :: "(nat \<rightharpoonup> timer_item_t) \<Rightarrow> list_ref \<Rightarrow> nat option \<Rightarrow> nat list \<Rightarrow> nat option \<Rightarrow> bool" where
  "dseg h l p [] q = True"
| "dseg h l p (x # xs) q = (node_ok h l p x (hd_or xs q) \<and> dseg h l (Some x) xs q)"

definition dlist :: "timer_store \<Rightarrow> list_ref \<Rightarrow> nat list \<Rightarrow> bool" where
  "dlist s l xs \<longleftrightarrow> lists s l = Some \<lparr>tl_head = hd_or xs None, tl_tail = last_or None xs\<rparr>
     \<and> distinct xs \<and> dseg (items s) l None xs None"

text \<open>
  \<open>wf_store s A\<close>: every list of the store represents the HOL list \<open>A\<close> assigns to it, and an
  item that names a list as its parent is in that list.
\<close>

definition wf_store :: "timer_store \<Rightarrow> (list_ref \<Rightarrow> nat list) \<Rightarrow> bool" where
  "wf_store s A \<longleftrightarrow>
     (\<forall>l. if lists s l = None then A l = [] else dlist s l (A l)) \<and>
     (\<forall>x it l. items s x = Some it \<longrightarrow> ti_parent it = Some l \<longrightarrow> x \<in> set (A l))"

text \<open>What an item carries besides its links.\<close>

definition payload :: "timer_store \<Rightarrow> nat \<rightharpoonup> timer_item_t" where
  "payload s x = map_option (\<lambda>it. it\<lparr>ti_prev := None, ti_next := None, ti_parent := None\<rparr>) (items s x)"

definition has_list :: "timer_store \<Rightarrow> list_ref \<Rightarrow> bool" where
  "has_list s l \<longleftrightarrow> lists s l \<noteq> None"

lemma node_ok_Some: "node_ok h l p x q \<longleftrightarrow>
    (\<exists>it. h x = Some it \<and> ti_prev it = p \<and> ti_next it = q \<and> ti_parent it = Some l)"
  by (auto simp: node_ok_def split: option.splits)

lemma dseg_append [simp]:
  "dseg h l p (xs @ ys) q \<longleftrightarrow> dseg h l p xs (hd_or ys q) \<and> dseg h l (last_or p xs) ys q"
  by (induction xs arbitrary: p) auto

lemma node_ok_upd [simp]: "node_ok (h(x := v)) l p y q =
    (if x = y then (case v of None \<Rightarrow> False
       | Some it \<Rightarrow> ti_prev it = p \<and> ti_next it = q \<and> ti_parent it = Some l)
     else node_ok h l p y q)"
  by (simp add: node_ok_def)

lemma dseg_upd [simp]: "x \<notin> set xs \<Longrightarrow> dseg (h(x := v)) l p xs q = dseg h l p xs q"
  by (induction xs arbitrary: p) auto

lemma dseg_cong: "(\<And>x. x \<in> set xs \<Longrightarrow> h x = h' x) \<Longrightarrow> dseg h l p xs q = dseg h' l p xs q"
  by (induction xs arbitrary: p) (auto simp: node_ok_def)

lemma dseg_mem: "dseg h l p xs q \<Longrightarrow> x \<in> set xs \<Longrightarrow> \<exists>it. h x = Some it \<and> ti_parent it = Some l"
  by (induction xs arbitrary: p) (auto simp: node_ok_Some)

lemma wf_dlist: "wf_store s A \<Longrightarrow> has_list s l \<Longrightarrow> dlist s l (A l)"
  by (auto simp: wf_store_def has_list_def split: if_splits)

lemma wf_no_list: "wf_store s A \<Longrightarrow> \<not> has_list s l \<Longrightarrow> A l = []"
  by (auto simp: wf_store_def has_list_def split: if_splits)

lemma wf_parent: "wf_store s A \<Longrightarrow> items s x = Some it \<Longrightarrow> ti_parent it = Some l \<Longrightarrow> x \<in> set (A l)"
  by (auto simp: wf_store_def)

lemma wf_mem:
  assumes "wf_store s A" and "x \<in> set (A l)"
  shows "\<exists>it. items s x = Some it \<and> ti_parent it = Some l"
proof -
  have "has_list s l" using assms wf_no_list by fastforce
  with assms(1) have "dlist s l (A l)" by (rule wf_dlist)
  then have "dseg (items s) l None (A l) None" by (simp add: dlist_def)
  then show ?thesis using assms(2) by (rule dseg_mem)
qed

lemma wf_disjoint: "wf_store s A \<Longrightarrow> x \<in> set (A l) \<Longrightarrow> x \<in> set (A l') \<Longrightarrow> l = l'"
  using wf_mem by (metis option.inject)

lemma wf_distinct: "wf_store s A \<Longrightarrow> distinct (A l)"
  using wf_dlist [of s A l] wf_no_list [of s A l] by (cases "has_list s l") (auto simp: dlist_def)

lemma wf_unlinked:
  "wf_store s A \<Longrightarrow> items s x = Some it \<Longrightarrow> (\<forall>l. x \<notin> set (A l)) \<longleftrightarrow> ti_parent it = None"
  by (cases "ti_parent it") (auto dest: wf_mem wf_parent)

text \<open>
  The frame rule of the proofs below: the operation rewrites the lists \<open>Ls\<close> and the items
  \<open>X\<close>; every other list and its items are as before.
\<close>

lemma wf_frame:
  assumes wf: "wf_store s A"
    and it: "\<And>x. x \<notin> X \<Longrightarrow> items s' x = items s x"
    and li: "\<And>l. l \<notin> Ls \<Longrightarrow> lists s' l = lists s l \<and> A' l = A l \<and> set (A l) \<inter> X = {}"
    and new: "\<And>l. l \<in> Ls \<Longrightarrow> dlist s' l (A' l)"
    and par: "\<And>x it l. x \<in> X \<Longrightarrow> items s' x = Some it \<Longrightarrow> ti_parent it = Some l \<Longrightarrow> x \<in> set (A' l)"
    and keep: "\<And>l. l \<in> Ls \<Longrightarrow> set (A l) - X \<subseteq> set (A' l)"
  shows "wf_store s' A'"
proof -
  have "dlist s' l (A' l)" if "lists s' l \<noteq> None" for l
  proof (cases "l \<in> Ls")
    case True then show ?thesis by (rule new)
  next
    case False
    with that li have "has_list s l" by (simp add: has_list_def)
    with wf have "dlist s l (A l)" by (rule wf_dlist)
    moreover have "dseg (items s') l None (A l) None = dseg (items s) l None (A l) None"
      by (rule dseg_cong) (use False li it in blast)
    ultimately show ?thesis using False li by (simp add: dlist_def)
  qed
  moreover have "A' l = []" if "lists s' l = None" for l
  proof (cases "l \<in> Ls")
    case True with new that show ?thesis by (fastforce simp: dlist_def)
  next
    case False with li that wf_no_list [OF wf] show ?thesis by (simp add: has_list_def)
  qed
  moreover have "x \<in> set (A' l)" if "items s' x = Some it" "ti_parent it = Some l" for x it l
  proof (cases "x \<in> X")
    case True then show ?thesis using that by (rule par)
  next
    case False
    with that it have "x \<in> set (A l)" by (auto intro: wf_parent [OF wf])
    then show ?thesis using False li keep by (cases "l \<in> Ls") auto
  qed
  ultimately show ?thesis by (auto simp: wf_store_def)
qed

section \<open>Every operation implements its list operation\<close>

lemma add_tail_ok:
  assumes wf: "wf_store s A" and l: "has_list s l" and x: "items s x = Some it"
    and un: "\<forall>l. x \<notin> set (A l)"
  shows "\<exists>s'. add_tail s l (Some x) = Inr s' \<and> wf_store s' (A(l := A l @ [x])) \<and>
     payload s' = payload s \<and> has_list s' = has_list s"
proof -
  have dl: "dlist s l (A l)" using wf l by (rule wf_dlist)
  have par: "ti_parent it = None" using wf_unlinked [OF wf x] un by simp
  have oth: "set (A l') \<inter> set (x # A l) = {}" if "l' \<noteq> l" for l'
    using that un wf_disjoint [OF wf] by auto
  show ?thesis
  proof (cases "A l" rule: rev_cases)
    case Nil
    with dl have L: "lists s l = Some \<lparr>tl_head = None, tl_tail = None\<rparr>" by (simp add: dlist_def)
    let ?s = "s\<lparr>lists := (lists s)(l \<mapsto> \<lparr>tl_head = Some x, tl_tail = Some x\<rparr>),
      items := (items s)(x \<mapsto> it\<lparr>ti_next := None, ti_prev := None, ti_parent := Some l\<rparr>)\<rparr>"
    have "add_tail s l (Some x) = Inr ?s"
      using L x par by (simp add: add_tail_def access_defs)
    moreover have "wf_store ?s (A(l := A l @ [x]))"
      by (rule wf_frame [OF wf, where X = "set (x # A l)" and Ls = "{l}"])
        (use oth Nil in \<open>auto simp: dlist_def split: if_splits\<close>)
    moreover have "payload ?s = payload s" using x by (auto simp: payload_def fun_eq_iff)
    moreover have "has_list ?s = has_list s" using L by (auto simp: has_list_def fun_eq_iff)
    ultimately show ?thesis by blast
  next
    case (snoc ys t)
    with dl obtain tit where t: "items s t = Some tit" "ti_parent tit = Some l"
        "ti_prev tit = last_or None ys" "ti_next tit = None"
      and L: "lists s l = Some \<lparr>tl_head = hd_or (ys @ [t]) None, tl_tail = Some t\<rparr>"
      and ys: "dseg (items s) l None ys (Some t)" "distinct (ys @ [t])"
      by (auto simp: dlist_def node_ok_Some)
    have "x \<noteq> t" "x \<notin> set ys" using un snoc by (metis in_set_conv_decomp, metis Un_iff set_append)
    note ne = this
    let ?s = "s\<lparr>lists := (lists s)(l \<mapsto> \<lparr>tl_head = hd_or (ys @ [t]) None, tl_tail = Some x\<rparr>),
      items := (items s)(t \<mapsto> tit\<lparr>ti_next := Some x\<rparr>,
        x \<mapsto> it\<lparr>ti_next := None, ti_prev := Some t, ti_parent := Some l\<rparr>)\<rparr>"
    have "add_tail s l (Some x) = Inr ?s"
      using L x par t ne by (simp add: add_tail_def access_defs)
    moreover have "wf_store ?s (A(l := A l @ [x]))"
      by (rule wf_frame [OF wf, where X = "set (x # A l)" and Ls = "{l}"])
        (use oth snoc t ne ys in \<open>auto simp: dlist_def dest: dseg_mem split: if_splits\<close>)
    moreover have "payload ?s = payload s" using x t ne by (auto simp: payload_def fun_eq_iff)
    moreover have "has_list ?s = has_list s" using L by (auto simp: has_list_def fun_eq_iff)
    ultimately show ?thesis by blast
  qed
qed

text \<open>\<open>add_tail\<close> ignores an item that is already in a list.\<close>

lemma add_tail_linked:
  assumes "wf_store s A" and "x \<in> set (A l')"
  shows "add_tail s l (Some x) = Inr s"
  using wf_mem [OF assms] by (auto simp: add_tail_def access_defs)

lemma popHead_ok:
  assumes wf: "wf_store s A" and l: "has_list s l"
  shows "\<exists>s'. popHead s l = Inr s' \<and> wf_store s' (A(l := tl (A l))) \<and>
     payload s' = payload s \<and> has_list s' = has_list s"
proof -
  have dl: "dlist s l (A l)" using wf l by (rule wf_dlist)
  have oth: "set (A l') \<inter> set (A l) = {}" if "l' \<noteq> l" for l'
    using that wf_disjoint [OF wf] by auto
  consider (nil) "A l = []" | (one) x where "A l = [x]" | (more) x y ys where "A l = x # y # ys"
    by (cases "A l"; cases "tl (A l)") auto
  then show ?thesis
  proof cases
    case nil
    with dl have "popHead s l = Inr s" by (simp add: popHead_def dlist_def access_defs)
    then show ?thesis using wf nil by (auto simp: fun_upd_idem)
  next
    case (one x)
    with dl obtain it where L: "lists s l = Some \<lparr>tl_head = Some x, tl_tail = Some x\<rparr>"
      and x: "items s x = Some it" by (auto simp: dlist_def node_ok_Some)
    let ?s = "s\<lparr>lists := (lists s)(l \<mapsto> \<lparr>tl_head = None, tl_tail = None\<rparr>),
      items := (items s)(x \<mapsto> it\<lparr>ti_prev := None, ti_next := None, ti_parent := None\<rparr>)\<rparr>"
    have "popHead s l = Inr ?s" using L x by (simp add: popHead_def access_defs)
    moreover have "wf_store ?s (A(l := tl (A l)))"
      by (rule wf_frame [OF wf, where X = "set (A l)" and Ls = "{l}"])
        (use oth one in \<open>auto simp: dlist_def\<close>)
    moreover have "payload ?s = payload s" using x by (auto simp: payload_def fun_eq_iff)
    moreover have "has_list ?s = has_list s" using L by (auto simp: has_list_def fun_eq_iff)
    ultimately show ?thesis by blast
  next
    case (more x y ys)
    with dl obtain it iy where
      L: "lists s l = Some \<lparr>tl_head = Some x, tl_tail = last_or (Some y) ys\<rparr>"
      and x: "items s x = Some it" "ti_next it = Some y"
      and y: "items s y = Some iy" "ti_next iy = hd_or ys None" "ti_parent iy = Some l"
      and ys: "dseg (items s) l (Some y) ys None" "distinct (x # y # ys)"
      by (auto simp: dlist_def node_ok_Some)
    have ne: "Some x \<noteq> last_or (Some y) ys" using ys(2) by (auto dest: last_or_mem)
    let ?s = "s\<lparr>lists := (lists s)(l \<mapsto> \<lparr>tl_head = Some y, tl_tail = last_or (Some y) ys\<rparr>),
      items := (items s)(x \<mapsto> it\<lparr>ti_prev := None, ti_next := None, ti_parent := None\<rparr>,
        y \<mapsto> iy\<lparr>ti_prev := None\<rparr>)\<rparr>"
    have "popHead s l = Inr ?s" using L x y ys(2) ne by (simp add: popHead_def access_defs)
    moreover have "wf_store ?s (A(l := tl (A l)))"
      by (rule wf_frame [OF wf, where X = "set (A l)" and Ls = "{l}"])
        (use oth more y ys in \<open>auto simp: dlist_def dest: dseg_mem split: if_splits\<close>)
    moreover have "payload ?s = payload s" using x y ys(2) by (auto simp: payload_def fun_eq_iff)
    moreover have "has_list ?s = has_list s" using L by (auto simp: has_list_def fun_eq_iff)
    ultimately show ?thesis by blast
  qed
qed

lemma remove_from_link_unlinked:
  assumes "wf_store s A" and "items s x = Some it" and "\<forall>l. x \<notin> set (A l)"
  shows "remove_from_link s (Some x) = Inr s"
  using wf_unlinked [OF assms(1,2)] assms by (simp add: remove_from_link_def access_defs)

text \<open>The store after unlinking \<open>x\<close> from between \<open>ys\<close> and \<open>zs\<close>.\<close>

definition unlink :: "timer_store \<Rightarrow> list_ref \<Rightarrow> nat list \<Rightarrow> nat \<Rightarrow> nat list \<Rightarrow> timer_store" where
  "unlink s l ys x zs =
    (let p = last_or None ys; n = hd_or zs None;
         h1 = (case p of None \<Rightarrow> items s | Some a \<Rightarrow> (items s)(a := map_option (\<lambda>t. t\<lparr>ti_next := n\<rparr>) (items s a)));
         h2 = (case n of None \<Rightarrow> h1 | Some a \<Rightarrow> h1(a := map_option (\<lambda>t. t\<lparr>ti_prev := p\<rparr>) (h1 a)))
     in s\<lparr>lists := (lists s)(l \<mapsto> \<lparr>tl_head = hd_or (ys @ zs) None, tl_tail = last_or None (ys @ zs)\<rparr>),
       items := h2(x := map_option (\<lambda>t. t\<lparr>ti_prev := None, ti_next := None, ti_parent := None\<rparr>) (items s x))\<rparr>)"

lemma remove_from_link_unlink:
  assumes dl: "dlist s l (ys @ x # zs)"
  shows "remove_from_link s (Some x) = Inr (unlink s l ys x zs)"
proof -
  from dl obtain it where
      L: "lists s l = Some \<lparr>tl_head = hd_or (ys @ x # zs) None, tl_tail = last_or None (ys @ x # zs)\<rparr>"
    and x: "items s x = Some it" "ti_prev it = last_or None ys" "ti_next it = hd_or zs None"
        "ti_parent it = Some l"
    and d: "distinct (ys @ x # zs)"
    by (auto simp: dlist_def node_ok_Some)
  show ?thesis
  proof (cases ys rule: rev_cases; cases zs)
    assume "ys = []" "zs = []"
    with L x show ?thesis by (simp add: remove_from_link_def access_defs unlink_def Let_def)
  next
    fix z zs' assume yz: "ys = []" "zs = z # zs'"
    with dl obtain iz where z: "items s z = Some iz" by (auto simp: dlist_def node_ok_Some)
    have "Some x \<noteq> last_or (Some z) zs'" using d yz by (auto dest: last_or_mem)
    with L x d z yz show ?thesis by (auto simp: remove_from_link_def access_defs unlink_def Let_def)
  next
    fix ys' y assume yz: "ys = ys' @ [y]" "zs = []"
    with dl obtain iy where y: "items s y = Some iy" by (auto simp: dlist_def node_ok_Some)
    have "Some x \<noteq> hd_or ys' (Some y)" using d yz by (cases ys') auto
    with L x d y yz show ?thesis by (auto simp: remove_from_link_def access_defs unlink_def Let_def)
  next
    fix ys' y z zs' assume yz: "ys = ys' @ [y]" "zs = z # zs'"
    with dl obtain iy iz where yi: "items s y = Some iy" "items s z = Some iz"
      by (auto simp: dlist_def node_ok_Some)
    have "Some x \<noteq> hd_or ys' (Some y)" using d yz by (cases ys') auto
    moreover have "Some x \<noteq> last_or (Some z) zs'" using d yz by (auto dest: last_or_mem)
    moreover have "s\<lparr>lists := (lists s)(l \<mapsto> \<lparr>tl_head = hd_or ys' (Some y), tl_tail = last_or (Some z) zs'\<rparr>)\<rparr> = s"
      using L yz by (simp add: fun_upd_idem)
    ultimately show ?thesis using L x d yi yz
      by (auto simp: remove_from_link_def access_defs unlink_def Let_def)
  qed
qed

lemma unlink_dlist:
  assumes "dlist s l (ys @ x # zs)"
  shows "dlist (unlink s l ys x zs) l (ys @ zs)"
  using assms
  by (cases ys rule: rev_cases; cases zs)
    (auto simp: dlist_def unlink_def Let_def node_ok_Some split: option.splits)

lemma unlink_payload: "payload (unlink s l ys x zs) = payload s"
  by (auto simp: payload_def unlink_def Let_def fun_eq_iff option.map_comp o_def split: option.splits)

lemma remove_from_link_ok:
  assumes wf: "wf_store s A" and x: "x \<in> set (A l)"
  shows "\<exists>s'. remove_from_link s (Some x) = Inr s' \<and> wf_store s' (A(l := remove1 x (A l))) \<and>
     payload s' = payload s \<and> has_list s' = has_list s"
proof -
  have l: "has_list s l" using wf x wf_no_list by fastforce
  obtain ys zs where A: "A l = ys @ x # zs" "x \<notin> set ys" using split_list_first [OF x] by blast
  have dl: "dlist s l (ys @ x # zs)" using wf_dlist [OF wf l] A by simp
  let ?s = "unlink s l ys x zs"
  have oth: "set (A l') \<inter> set (A l) = {}" if "l' \<noteq> l" for l'
    using that wf_disjoint [OF wf] by auto
  have ends: "last_or None ys = Some a \<Longrightarrow> a \<in> set ys" "hd_or zs None = Some a \<Longrightarrow> a \<in> set zs" for a
    by (auto dest: last_or_snoc_cases hd_or_cons_cases)
  have "wf_store ?s (A(l := ys @ zs))"
  proof (rule wf_frame [OF wf, where X = "set (A l)" and Ls = "{l}"])
    show "items ?s y = items s y" if "y \<notin> set (A l)" for y
      using that A ends by (auto simp: unlink_def Let_def split: option.splits)
    show "y \<in> set ((A(l := ys @ zs)) l')"
      if "y \<in> set (A l)" "items ?s y = Some it" "ti_parent it = Some l'" for y it l'
    proof -
      have "y \<noteq> x" using that by (auto simp: unlink_def Let_def)
      moreover have "dseg (items ?s) l None (ys @ zs) None"
        using unlink_dlist [OF dl] by (simp only: dlist_def)
      ultimately have "\<exists>it. items ?s y = Some it \<and> ti_parent it = Some l"
        using dseg_mem [of "items ?s" l None "ys @ zs" None y] that A by auto
      then show ?thesis using that \<open>y \<noteq> x\<close> A by auto
    qed
  qed (use oth A unlink_dlist [OF dl] in \<open>auto simp: unlink_def Let_def\<close>)
  moreover have "remove1 x (A l) = ys @ zs" using A by (simp add: remove1_append)
  moreover have "has_list ?s = has_list s"
    using dl by (auto simp: has_list_def fun_eq_iff unlink_def Let_def dlist_def)
  ultimately show ?thesis
    using remove_from_link_unlink [OF dl] unlink_payload by auto
qed

lemma set_parents_dseg:
  "dseg (items s) l0 p xs None \<Longrightarrow> distinct xs \<Longrightarrow>
   set_parents s l (hd_or xs None) = Some (Inr (s\<lparr>items := (\<lambda>x. if x \<in> set xs
     then map_option (\<lambda>it. it\<lparr>ti_parent := Some l\<rparr>) (items s x) else items s x)\<rparr>))"
proof (induction xs arbitrary: s p)
  case Nil
  then show ?case by (simp add: set_parents.simps)
next
  case (Cons x xs)
  then obtain it where x: "items s x = Some it" "ti_next it = hd_or xs None" by (auto simp: node_ok_Some)
  let ?s = "s\<lparr>items := (items s)(x \<mapsto> it\<lparr>ti_parent := Some l\<rparr>)\<rparr>"
  have "dseg (items ?s) l0 (Some x) xs None" using Cons.prems by simp
  from Cons.IH [OF this] Cons.prems
  have "set_parents ?s l (hd_or xs None) = Some (Inr (?s\<lparr>items := (\<lambda>x. if x \<in> set xs
     then map_option (\<lambda>it. it\<lparr>ti_parent := Some l\<rparr>) (items ?s x) else items ?s x)\<rparr>))" by simp
  moreover have "(\<lambda>y. if y \<in> set xs
     then map_option (\<lambda>it. it\<lparr>ti_parent := Some l\<rparr>) (items ?s y) else items ?s y) =
     (\<lambda>y. if y \<in> set (x # xs) then map_option (\<lambda>it. it\<lparr>ti_parent := Some l\<rparr>) (items s y) else items s y)"
    using x Cons.prems by auto
  ultimately show ?case using x by (subst set_parents.simps) (simp add: access_defs)
qed

definition moved :: "(nat \<rightharpoonup> timer_item_t) \<Rightarrow> list_ref \<Rightarrow> nat list \<Rightarrow> nat \<rightharpoonup> timer_item_t" where
  "moved h l xs = (\<lambda>x. if x \<in> set xs then map_option (\<lambda>it. it\<lparr>ti_parent := Some l\<rparr>) (h x) else h x)"

lemma dseg_moved: "dseg h l0 p ys q \<Longrightarrow> set ys \<subseteq> set xs \<Longrightarrow> dseg (moved h l xs) l p ys q"
  by (induction ys arbitrary: p) (auto simp: node_ok_Some moved_def)

lemma dseg_moved_other: "set ys \<inter> set xs = {} \<Longrightarrow> dseg (moved h l xs) l' p ys q = dseg h l' p ys q"
  by (rule dseg_cong) (auto simp: moved_def)

lemma payload_moved: "map_option (\<lambda>it. it\<lparr>ti_prev := None, ti_next := None, ti_parent := None\<rparr>) (moved h l xs x) =
    map_option (\<lambda>it. it\<lparr>ti_prev := None, ti_next := None, ti_parent := None\<rparr>) (h x)"
  by (cases "h x") (auto simp: moved_def)

lemma join_empty:
  assumes "wf_store s A" and "has_list s m" and "A m = []"
  shows "join s l m = Inr s"
  using wf_dlist [OF assms(1,2)] assms(3) by (simp add: join_def dlist_def access_defs)

text \<open>Running \<open>join\<close> on a non-empty list: the heads it leaves and the chain it builds.\<close>

lemma join_run:
  assumes dm: "dlist s m (b # bs)" and dl: "dlist s l as" and ne: "l \<noteq> m"
    and lm: "set as \<inter> set (b # bs) = {}"
  shows "\<exists>h'. join s l m = Inr (s\<lparr>items := h', lists := (lists s)
       (l \<mapsto> \<lparr>tl_head = hd_or (as @ b # bs) None, tl_tail = last_or None (as @ b # bs)\<rparr>,
        m \<mapsto> \<lparr>tl_head = None, tl_tail = None\<rparr>)\<rparr>) \<and>
     dseg h' l None (as @ b # bs) None \<and>
     (\<forall>x. x \<notin> set (as @ b # bs) \<longrightarrow> h' x = items s x) \<and> payload (s\<lparr>items := h'\<rparr>) = payload s"
proof -
  let ?xs = "b # bs" and ?h = "moved (items s) l (b # bs)"
  obtain ib where b: "items s b = Some ib" "ti_next ib = hd_or bs None" using dm
    by (auto simp: dlist_def node_ok_Some)
  have par: "set_parents s l (Some b) = Some (Inr (s\<lparr>items := ?h\<rparr>))"
    using set_parents_dseg [of s m None ?xs l] dm by (simp add: dlist_def moved_def)
  have hb: "?h b = Some (ib\<lparr>ti_parent := Some l\<rparr>)" using b by (simp add: moved_def)
  have seg: "dseg ?h l None ?xs None" "dseg ?h l (Some b) bs None" "dseg ?h l None as None"
    using dm dl lm dseg_moved [of "items s" m "Some b" bs None ?xs l]
      dseg_moved [of "items s" m None ?xs None ?xs l]
      dseg_moved_other [of as ?xs "items s" l l] by (auto simp: dlist_def)
  show ?thesis
  proof (cases as rule: rev_cases)
    case Nil
    have "payload (s\<lparr>items := ?h\<rparr>) = payload s" by (simp add: payload_def fun_eq_iff payload_moved)
    moreover have "\<forall>x. x \<notin> set ?xs \<longrightarrow> ?h x = items s x" by (simp add: moved_def)
    ultimately show ?thesis using Nil dm dl ne par seg(1)
      by (intro exI [of _ ?h]) (simp add: join_def dlist_def access_defs Let_def)
  next
    case (snoc ys t)
    with dl obtain it where t: "items s t = Some it" "ti_next it = None" "ti_parent it = Some l"
       "ti_prev it = last_or None ys" by (auto simp: dlist_def node_ok_Some)
    have tb: "t \<noteq> b" "t \<notin> set bs" "t \<notin> set ys" "b \<notin> set ys" "b \<notin> set bs"
      using lm snoc dm dl by (auto simp: dlist_def)
    then have ht: "?h t = Some it" using t by (simp add: moved_def)
    let ?g = "?h(t \<mapsto> it\<lparr>ti_next := Some b\<rparr>, b \<mapsto> ib\<lparr>ti_parent := Some l, ti_prev := Some t\<rparr>)"
    have "join s l m = Inr (s\<lparr>items := ?g, lists := (lists s)
       (l \<mapsto> \<lparr>tl_head = hd_or (as @ b # bs) None, tl_tail = last_or None (as @ b # bs)\<rparr>,
        m \<mapsto> \<lparr>tl_head = None, tl_tail = None\<rparr>)\<rparr>)"
      using dm dl snoc ne par hb ht tb by (simp add: join_def dlist_def access_defs Let_def)
    moreover have "dseg ?g l None (as @ ?xs) None" using seg snoc tb t b by (auto simp: node_ok_Some)
    ultimately show ?thesis using snoc payload_moved t b tb lm
      by (intro exI [of _ ?g]) (auto simp: moved_def payload_def fun_eq_iff)
  qed
qed

lemma join_ok:
  assumes wf: "wf_store s A" and l: "has_list s l" and m: "has_list s m" and ne: "l \<noteq> m"
  shows "\<exists>s'. join s l m = Inr s' \<and> wf_store s' (A(l := A l @ A m, m := [])) \<and>
     payload s' = payload s \<and> has_list s' = has_list s"
proof (cases "A m")
  case Nil
  then have "A(l := A l @ A m, m := []) = A" by auto
  then show ?thesis using join_empty [OF wf m Nil] wf by auto
next
  case (Cons b bs)
  have dm: "dlist s m (b # bs)" using wf_dlist [OF wf m] Cons by simp
  have dl: "dlist s l (A l)" using wf l by (rule wf_dlist)
  have oth: "set (A l') \<inter> (set (A l) \<union> set (A m)) = {}" if "l' \<notin> {l, m}" for l'
    using that wf_disjoint [OF wf] by auto
  have lm: "set (A l) \<inter> set (b # bs) = {}" using ne wf_disjoint [OF wf, of _ l m] Cons by auto
  from join_run [OF dm dl ne lm] obtain h' where
    j: "join s l m = Inr (s\<lparr>items := h', lists := (lists s)
       (l \<mapsto> \<lparr>tl_head = hd_or (A l @ b # bs) None, tl_tail = last_or None (A l @ b # bs)\<rparr>,
        m \<mapsto> \<lparr>tl_head = None, tl_tail = None\<rparr>)\<rparr>)" (is "_ = Inr ?s")
    and d: "dseg h' l None (A l @ b # bs) None"
    and out: "\<And>x. x \<notin> set (A l @ b # bs) \<Longrightarrow> h' x = items s x"
    and pay: "payload (s\<lparr>items := h'\<rparr>) = payload s" by auto
  have "wf_store ?s (A(l := A l @ A m, m := []))"
  proof (rule wf_frame [OF wf, where X = "set (A l) \<union> set (b # bs)" and Ls = "{l, m}"])
    show "x \<in> set ((A(l := A l @ A m, m := [])) l')"
      if "x \<in> set (A l) \<union> set (b # bs)" "items ?s x = Some it" "ti_parent it = Some l'" for x it l'
      using dseg_mem [OF d, of x] that ne Cons by auto
  qed (use oth Cons ne d out dm lm wf_distinct [OF wf, of l] in \<open>auto simp: dlist_def\<close>)
  moreover have "has_list ?s = has_list s" using l m by (auto simp: has_list_def fun_eq_iff)
  moreover have "payload ?s = payload s" using pay by (simp add: payload_def fun_eq_iff)
  ultimately show ?thesis using j by blast
qed

section \<open>The interface to clients\<close>

text \<open>
  What the timer wheel and the event loop rely on. \<open>repr s A\<close> says that the store represents
  the lists \<open>A\<close>, \<open>data\<close> is what the items carry, \<open>has\<close> tells which lists exist.
\<close>

locale intrusive_lists =
  fixes repr :: "'s \<Rightarrow> ('l \<Rightarrow> nat list) \<Rightarrow> bool"
    and data :: "'s \<Rightarrow> nat \<rightharpoonup> 'd"
    and has :: "'s \<Rightarrow> 'l \<Rightarrow> bool"
    and push :: "'s \<Rightarrow> 'l \<Rightarrow> nat option \<Rightarrow> 's c_result"
    and unlink_item :: "'s \<Rightarrow> nat option \<Rightarrow> 's c_result"
    and pop :: "'s \<Rightarrow> 'l \<Rightarrow> 's c_result"
    and move_all :: "'s \<Rightarrow> 'l \<Rightarrow> 'l \<Rightarrow> 's c_result"
  assumes push_law: "repr s A \<Longrightarrow> has s l \<Longrightarrow> data s x \<noteq> None \<Longrightarrow> \<forall>l. x \<notin> set (A l) \<Longrightarrow>
      \<exists>s'. push s l (Some x) = Inr s' \<and> repr s' (A(l := A l @ [x])) \<and> data s' = data s \<and> has s' = has s"
    and push_linked_law: "repr s A \<Longrightarrow> x \<in> set (A l') \<Longrightarrow> push s l (Some x) = Inr s"
    and unlink_law: "repr s A \<Longrightarrow> x \<in> set (A l) \<Longrightarrow>
      \<exists>s'. unlink_item s (Some x) = Inr s' \<and> repr s' (A(l := remove1 x (A l))) \<and> data s' = data s \<and> has s' = has s"
    and unlink_free_law: "repr s A \<Longrightarrow> data s x \<noteq> None \<Longrightarrow> \<forall>l. x \<notin> set (A l) \<Longrightarrow> unlink_item s (Some x) = Inr s"
    and pop_law: "repr s A \<Longrightarrow> has s l \<Longrightarrow>
      \<exists>s'. pop s l = Inr s' \<and> repr s' (A(l := tl (A l))) \<and> data s' = data s \<and> has s' = has s"
    and move_law: "repr s A \<Longrightarrow> has s l \<Longrightarrow> has s m \<Longrightarrow> l \<noteq> m \<Longrightarrow>
      \<exists>s'. move_all s l m = Inr s' \<and> repr s' (A(l := A l @ A m, m := [])) \<and> data s' = data s \<and> has s' = has s"
    and in_list: "repr s A \<Longrightarrow> x \<in> set (A l) \<Longrightarrow> data s x \<noteq> None \<and> has s l"
    and one_list: "repr s A \<Longrightarrow> x \<in> set (A l) \<Longrightarrow> x \<in> set (A l') \<Longrightarrow> l = l'"
    and no_repeat: "repr s A \<Longrightarrow> distinct (A l)"
begin

text \<open>Moving several lists, one after the other, to the end of one.\<close>

lemma move_many:
  "repr s A \<Longrightarrow> has s l \<Longrightarrow> \<forall>m \<in> set ms. has s m \<and> m \<noteq> l \<Longrightarrow> distinct ms \<Longrightarrow>
   \<exists>s'. foldR (\<lambda>s m. move_all s l m) s ms = Inr s' \<and>
     repr s' (\<lambda>k. if k = l then A l @ concat (map A ms) else if k \<in> set ms then [] else A k) \<and>
     data s' = data s \<and> has s' = has s"
proof (induction ms arbitrary: s A)
  case Nil
  then have "(\<lambda>k. if k = l then A l @ concat (map A []) else if k \<in> set [] then [] else A k) = A" by auto
  with Nil show ?case by auto
next
  case (Cons m ms)
  let ?A = "A(l := A l @ A m, m := [])"
  from Cons.prems have "m \<noteq> l" by simp
  with move_law [of s A l m] Cons.prems obtain s1 where s1: "move_all s l m = Inr s1"
    "repr s1 ?A" "data s1 = data s" "has s1 = has s" by auto
  with Cons.IH [OF s1(2)] Cons.prems obtain s2 where s2: "foldR (\<lambda>s m. move_all s l m) s1 ms = Inr s2"
    "repr s2 (\<lambda>k. if k = l then ?A l @ concat (map ?A ms) else if k \<in> set ms then [] else ?A k)"
    "data s2 = data s" "has s2 = has s" by auto
  have "concat (map ?A ms) = concat (map A ms)"
    by (rule arg_cong [where f = concat]) (use Cons.prems in auto)
  then have "(\<lambda>k. if k = l then ?A l @ concat (map ?A ms) else if k \<in> set ms then [] else ?A k) =
    (\<lambda>k. if k = l then A l @ concat (map A (m # ms)) else if k \<in> set (m # ms) then [] else A k)"
    using \<open>m \<noteq> l\<close> by (auto simp: fun_eq_iff)
  with s1 s2 show ?case by auto
qed

end

interpretation tl: intrusive_lists wf_store payload has_list add_tail remove_from_link popHead join
proof unfold_locales
  show "wf_store s A \<Longrightarrow> has_list s l \<Longrightarrow> payload s x \<noteq> None \<Longrightarrow> \<forall>l. x \<notin> set (A l) \<Longrightarrow>
    \<exists>s'. add_tail s l (Some x) = Inr s' \<and> wf_store s' (A(l := A l @ [x])) \<and> payload s' = payload s \<and>
      has_list s' = has_list s" for s A l x
    using add_tail_ok [of s A l x] by (auto simp: payload_def)
qed (auto simp: payload_def dest: add_tail_linked remove_from_link_ok remove_from_link_unlinked
    popHead_ok join_ok wf_mem wf_disjoint wf_distinct wf_no_list)

section \<open>Sequences of list operations\<close>

datatype list_op = AddTail list_ref nat | RemoveFromLink nat | PopHead list_ref | Join list_ref list_ref

fun exec_op :: "timer_store \<Rightarrow> list_op \<Rightarrow> timer_store c_result" where
  "exec_op s (AddTail l x) = add_tail s l (Some x)"
| "exec_op s (RemoveFromLink x) = remove_from_link s (Some x)"
| "exec_op s (PopHead l) = popHead s l"
| "exec_op s (Join l m) = join s l m"

text \<open>The same operations on HOL lists; an item is in at most one list.\<close>

fun spec_op :: "(list_ref \<Rightarrow> nat list) \<Rightarrow> list_op \<Rightarrow> list_ref \<Rightarrow> nat list" where
  "spec_op A (AddTail l x) = (if \<exists>k. x \<in> set (A k) then A else A(l := A l @ [x]))"
| "spec_op A (RemoveFromLink x) = (\<lambda>k. remove1 x (A k))"
| "spec_op A (PopHead l) = A(l := tl (A l))"
| "spec_op A (Join l m) = A(l := A l @ A m, m := [])"

text \<open>The operands exist, and a list is not joined to itself.\<close>

fun op_ok :: "timer_store \<Rightarrow> list_op \<Rightarrow> bool" where
  "op_ok s (AddTail l x) \<longleftrightarrow> has_list s l \<and> payload s x \<noteq> None"
| "op_ok s (RemoveFromLink x) \<longleftrightarrow> payload s x \<noteq> None"
| "op_ok s (PopHead l) \<longleftrightarrow> has_list s l"
| "op_ok s (Join l m) \<longleftrightarrow> has_list s l \<and> has_list s m \<and> l \<noteq> m"

lemma exec_op_refines:
  assumes wf: "wf_store s A" and ok: "op_ok s x"
  shows "\<exists>s'. exec_op s x = Inr s' \<and> wf_store s' (spec_op A x) \<and> payload s' = payload s \<and> has_list s' = has_list s"
proof (cases x)
  case (AddTail l y)
  with ok tl.push_law [OF wf, of l y] tl.push_linked_law [OF wf, of y _ l] wf show ?thesis
    by (cases "\<exists>k. y \<in> set (A k)") auto
next
  case (RemoveFromLink y)
  show ?thesis
  proof (cases "\<exists>k. y \<in> set (A k)")
    case True
    then obtain k where k: "y \<in> set (A k)" by blast
    have "y \<notin> set (A j)" if "j \<noteq> k" for j using that tl.one_list [OF wf k] by auto
    then have "(\<lambda>k. remove1 y (A k)) = A(k := remove1 y (A k))" by (auto simp: fun_eq_iff remove1_idem)
    with tl.unlink_law [OF wf k] RemoveFromLink show ?thesis by auto
  next
    case False
    then have "(\<lambda>k. remove1 y (A k)) = A" by (auto simp: remove1_idem)
    with tl.unlink_free_law [OF wf, of y] False RemoveFromLink ok wf show ?thesis by auto
  qed
qed (use ok tl.pop_law [OF wf] tl.move_law [OF wf] in auto)

text \<open>
  C1. The linked lists are lists: any sequence of \<open>add_tail\<close>, \<open>remove_from_link\<close>, \<open>popHead\<close>
  and \<open>join\<close> on existing lists and items runs without a null or dangling dereference and
  without an endless loop, leaves well-formed doubly linked lists, and these represent exactly
  what the corresponding operations on sequences give: append unless already linked, removal,
  tail, concatenation. Nothing but the links of the items changes.
\<close>

theorem list_ops_refine_sequences:
  assumes "wf_store s A" and "\<forall>x \<in> set ops. op_ok s x"
  shows "\<exists>s'. foldR exec_op s ops = Inr s' \<and> wf_store s' (foldl spec_op A ops) \<and>
    payload s' = payload s \<and> has_list s' = has_list s"
  using assms
proof (induction ops arbitrary: s A)
  case Nil
  then show ?case by simp
next
  case (Cons x ops)
  then obtain s1 where s1: "exec_op s x = Inr s1" "wf_store s1 (spec_op A x)" "payload s1 = payload s"
      "has_list s1 = has_list s" using exec_op_refines [of s A x] by auto
  have "op_ok s1 y = op_ok s y" for y using s1 by (cases y) auto
  then show ?case using Cons.IH [OF s1(2)] Cons.prems s1 by auto
qed

definition two_lists :: timer_store where
  "two_lists = \<lparr>items = [1 \<mapsto> zero_item, 2 \<mapsto> zero_item\<lparr>ti_expire := 5\<rparr>],
     lists = [ActiveList \<mapsto> empty_list, TimeoutList \<mapsto> empty_list]\<rparr>"

lemma two_lists_wf: "wf_store two_lists (\<lambda>_. [])"
  by (auto simp: wf_store_def two_lists_def dlist_def empty_list_def zero_item_def split: if_splits)

theorem list_ops_refine_sequences_witness:
  "\<exists>s'. foldR exec_op two_lists [AddTail TimeoutList 1, AddTail ActiveList 2, Join ActiveList TimeoutList,
       PopHead ActiveList] = Inr s' \<and> dlist s' ActiveList [1] \<and> dlist s' TimeoutList []"
proof -
  let ?ops = "[AddTail TimeoutList 1, AddTail ActiveList 2, Join ActiveList TimeoutList, PopHead ActiveList]"
  have "\<forall>x \<in> set ?ops. op_ok two_lists x"
    by (simp add: two_lists_def has_list_def payload_def)
  from list_ops_refine_sequences [OF two_lists_wf this] obtain s' where
    s': "foldR exec_op two_lists ?ops = Inr s'" "wf_store s' (foldl spec_op (\<lambda>_. []) ?ops)"
      "has_list s' = has_list two_lists" by auto
  have "foldl spec_op (\<lambda>_. []) ?ops = (\<lambda>_. [])(ActiveList := [1])" by (auto simp: fun_eq_iff)
  moreover have "has_list s' ActiveList \<and> has_list s' TimeoutList"
    using s'(3) by (simp add: two_lists_def has_list_def)
  ultimately show ?thesis using s' wf_dlist [OF s'(2), of ActiveList] wf_dlist [OF s'(2), of TimeoutList] by auto
qed

end
