(* ===== verification/Timer_Wheel.thy ===== *)
theory Timer_Wheel
  imports Timer_List
begin

text \<open>
  The timer wheel of \<^verbatim>\<open>src/src/epoll.c\<close> (\<open>epoll_timer_t\<close>): an array of \<open>size\<close> lists, one per
  millisecond, read circularly from \<open>start_idx\<close>, the slot of the time \<open>start\<close>. The source's
  \<open>alloc_timer\<close>, \<open>add_timeout\<close>, \<open>takeAllTimeout\<close> and \<open>free_timer\<close> are modelled on the store
  of theory \<open>Timer_List\<close>; they are proved to keep a set of pending items with their deadlines
  and to hand out exactly the items whose deadline has come.
\<close>

section \<open>Data and operations\<close>

text \<open>
  \<open>start_idx\<close> is a \<open>long long\<close> that grows by at most one for each millisecond; it is an unbounded number here,
  to which it is equal for the first 2^63 milliseconds of the wheel.
\<close>

record epoll_timer_t =
  et_size :: int
  et_start :: u64
  et_start_idx :: int

text \<open>The address \<open>timer->items + k % timer->size\<close>.\<close>

definition wheel_slot :: "epoll_timer_t \<Rightarrow> int \<Rightarrow> list_ref c_result" where
  "wheel_slot timer k =
     (if et_size timer = 0 then Inl DivByZero
      else let idx = c_rem k (et_size timer)
           in if idx < 0 then Inl OutOfBounds else Inr (WheelSlot (nat idx)))"

definition alloc_timer :: "timer_store \<Rightarrow> int \<Rightarrow> u64 \<Rightarrow> timer_store \<times> epoll_timer_t" where
  "alloc_timer s n now =
     (s\<lparr>lists := fold (\<lambda>i L. L(WheelSlot i \<mapsto> empty_list)) [0..<nat n] (lists s)\<rparr>,
      \<lparr>et_size = n, et_start = now, et_start_idx = 0\<rparr>)"

definition free_timer :: "timer_store \<Rightarrow> epoll_timer_t \<Rightarrow> timer_store" where
  "free_timer s timer =
     s\<lparr>lists := fold (\<lambda>i L. L(WheelSlot i := None)) [0..<nat (et_size timer)] (lists s)\<rparr>"

definition takeAllTimeout ::
  "timer_store \<Rightarrow> epoll_timer_t \<Rightarrow> u64 \<Rightarrow> list_ref \<Rightarrow> (timer_store \<times> epoll_timer_t) c_result" where
  "takeAllTimeout s timer now result =
     (let timer = (if et_start timer = 0 then timer\<lparr>et_start := now, et_start_idx := 0\<rparr> else timer) in
      if now < et_start timer then Inr (s, timer)
      else
        let cnt = int_of_u64 (now - et_start timer + 1);
            cnt = (if cnt > et_size timer then et_size timer else cnt)
        in if cnt < 0 then Inr (s, timer)
        else
          bindR (foldR (\<lambda>s i. bindR (wheel_slot timer (et_start_idx timer + int i)) (join s result))
                   s [0..<nat cnt])
          (\<lambda>s. Inr (s, timer\<lparr>et_start := now, et_start_idx := et_start_idx timer + (cnt - 1)\<rparr>)))"

definition add_timeout ::
  "timer_store \<Rightarrow> epoll_timer_t \<Rightarrow> nat option \<Rightarrow> u64 \<Rightarrow> (int \<times> timer_store \<times> epoll_timer_t) c_result" where
  "add_timeout s timer item now =
     (let timer = (if et_start timer = 0 then timer\<lparr>et_start := now, et_start_idx := 0\<rparr> else timer) in
      if now < et_start timer then Inr (-1, s, timer)
      else
        bindR (get_item s item) (\<lambda>it.
        if ti_expire it < now then Inr (-1, s, timer)
        else
          let diff = int_of_u64 (ti_expire it - et_start timer)
          in if diff \<ge> et_size timer then Inr (-1, s, timer)
          else
            bindR (wheel_slot timer (et_start_idx timer + diff)) (\<lambda>l.
            bindR (add_tail s l item) (\<lambda>s. Inr (0, s, timer)))))"

section \<open>Invariant and abstraction\<close>

text \<open>When the timer of an item is due, as the item records it.\<close>

definition deadline :: "timer_store \<Rightarrow> nat \<Rightarrow> int" where
  "deadline s x = (case payload s x of None \<Rightarrow> 0 | Some it \<Rightarrow> uint (ti_expire it))"

text \<open>
  The wheel's invariant: there is a slot for every index below \<open>size\<close>, and an item in slot
  \<open>i\<close> has a deadline in the window of \<open>size\<close> milliseconds from \<open>start\<close>, at the position
  the index stands for.
\<close>

definition in_slot :: "epoll_timer_t \<Rightarrow> int \<Rightarrow> nat \<Rightarrow> bool" where
  "in_slot timer d i \<longleftrightarrow> uint (et_start timer) \<le> d \<and> d < uint (et_start timer) + et_size timer \<and>
     int i = (et_start_idx timer + (d - uint (et_start timer))) mod et_size timer"

definition wheel_inv :: "timer_store \<Rightarrow> (list_ref \<Rightarrow> nat list) \<Rightarrow> epoll_timer_t \<Rightarrow> bool" where
  "wheel_inv s A timer \<longleftrightarrow> wf_store s A \<and> 0 < et_size timer \<and> et_size timer < 2 ^ 31 \<and>
     (\<forall>i. has_list s (WheelSlot i) \<longleftrightarrow> int i < et_size timer) \<and>
     has_list s ActiveList \<and> has_list s TimeoutList \<and>
     0 \<le> et_start_idx timer \<and> et_start timer \<noteq> 0 \<and>
     (\<forall>i. \<forall>x \<in> set (A (WheelSlot i)). in_slot timer (deadline s x) i)"

definition pending :: "(list_ref \<Rightarrow> nat list) \<Rightarrow> nat set" where
  "pending A = (\<Union>i. set (A (WheelSlot i)))"

lemma wheel_slot_ok: "0 < et_size timer \<Longrightarrow> 0 \<le> k \<Longrightarrow>
    wheel_slot timer k = Inr (WheelSlot (nat (k mod et_size timer)))"
  by (simp add: wheel_slot_def Let_def not_less)

lemma in_slot_determined:
  assumes "in_slot timer d i" and "0 \<le> k" and "k < et_size timer"
    and "int i = (et_start_idx timer + k) mod et_size timer"
  shows "d = uint (et_start timer) + k"
proof -
  let ?j = "d - uint (et_start timer)" and ?n = "et_size timer"
  from assms have "(et_start_idx timer + ?j) mod ?n = (et_start_idx timer + k) mod ?n"
    by (simp add: in_slot_def)
  then have "?j mod ?n = k mod ?n" by (simp add: mod_eq_dvd_iff)
  with assms show ?thesis by (simp add: in_slot_def)
qed

section \<open>Allocation\<close>

lemma fold_slots:
  "fold (\<lambda>i L. L(WheelSlot i := v)) [0..<n] L l =
     (case l of WheelSlot i \<Rightarrow> if i < n then v else L l | _ \<Rightarrow> L l)"
  by (induction n) (auto split: list_ref.splits)

lemma alloc_timer_inv:
  assumes "0 < n" "n < 2 ^ 31" "now \<noteq> 0"
    and s: "s = \<lparr>items = h, lists = [ActiveList \<mapsto> empty_list, TimeoutList \<mapsto> empty_list]\<rparr>"
    and h: "\<forall>x it. h x = Some it \<longrightarrow> ti_parent it = None"
    and t: "alloc_timer s n now = (s', timer)"
  shows "wheel_inv s' (\<lambda>_. []) timer"
  using assms
  by (auto simp: alloc_timer_def wheel_inv_def wf_store_def dlist_def fold_slots has_list_def empty_list_def
      split: list_ref.splits if_splits)

text \<open>Items that are in no list may come, change and go.\<close>

lemma wheel_inv_items:
  assumes inv: "wheel_inv s A timer" and s': "lists s' = lists s"
    and linked: "\<And>x l. x \<in> set (A l) \<Longrightarrow> items s' x = items s x"
    and free: "\<And>x it. items s' x = Some it \<Longrightarrow> \<forall>l. x \<notin> set (A l) \<Longrightarrow> ti_parent it = None"
  shows "wheel_inv s' A timer"
proof -
  have "dseg (items s') l p (A l) q = dseg (items s) l p (A l) q" for l p q
    by (rule dseg_cong) (use linked in auto)
  moreover have "x \<in> set (A l)" if "items s' x = Some it" "ti_parent it = Some l" for x it l
  proof (rule ccontr)
    assume "x \<notin> set (A l)"
    with that free obtain l' where l': "x \<in> set (A l')" by fastforce
    with linked that have "items s x = Some it" by simp
    moreover from inv have "wf_store s A" by (simp add: wheel_inv_def)
    ultimately show False using \<open>x \<notin> set (A l)\<close> that(2) by (auto dest: wf_parent)
  qed
  moreover have "deadline s' x = deadline s x" if "x \<in> set (A l)" for x l
    using linked [OF that] by (simp add: deadline_def payload_def)
  ultimately show ?thesis using inv s'
    unfolding wheel_inv_def wf_store_def dlist_def has_list_def by auto
qed

text \<open>Lists other than the slots may change, and items may leave the slots.\<close>

lemma wheel_inv_shrink:
  assumes inv: "wheel_inv s A timer" and wf: "wf_store s' A'" and pl: "payload s' = payload s"
    and ls: "has_list s' = has_list s" and sub: "\<And>i. set (A' (WheelSlot i)) \<subseteq> set (A (WheelSlot i))"
  shows "wheel_inv s' A' timer"
  using inv wf ls sub pl unfolding wheel_inv_def deadline_def by (auto simp: subset_iff)

section \<open>Adding a timer\<close>

lemma in_slot_mod: "0 < et_size timer \<Longrightarrow> uint (et_start timer) \<le> d \<Longrightarrow>
    d < uint (et_start timer) + et_size timer \<Longrightarrow>
    in_slot timer d (nat ((et_start_idx timer + (d - uint (et_start timer))) mod et_size timer))"
  by (simp add: in_slot_def)

text \<open>What \<open>add_timeout\<close> answers, and the slot it chooses.\<close>

lemma add_timeout_cases:
  assumes inv: "wheel_inv s A timer" and x: "items s x = Some it"
    and near: "et_start timer \<le> ti_expire it \<Longrightarrow> uint (ti_expire it) - uint (et_start timer) < 2 ^ 31"
  shows "add_timeout s timer (Some x) now =
    (if now < et_start timer \<or> ti_expire it < now \<or>
        uint (ti_expire it) \<ge> uint (et_start timer) + et_size timer then Inr (-1, s, timer)
     else bindR (add_tail s (WheelSlot (nat ((et_start_idx timer +
            (uint (ti_expire it) - uint (et_start timer))) mod et_size timer))) (Some x))
          (\<lambda>s. Inr (0, s, timer)))"
proof (cases "now < et_start timer \<or> ti_expire it < now")
  case True
  with inv x show ?thesis by (auto simp: add_timeout_def wheel_inv_def get_item_def Let_def)
next
  case False
  then have le: "et_start timer \<le> ti_expire it" by auto
  then have d: "int_of_u64 (ti_expire it - et_start timer) = uint (ti_expire it) - uint (et_start timer)"
    using near by (simp add: int_of_u64_small uint_diff_le)
  have "0 \<le> uint (ti_expire it) - uint (et_start timer)" using le by (simp add: word_le_def)
  with False inv x d show ?thesis
    by (auto simp: add_timeout_def wheel_inv_def get_item_def Let_def wheel_slot_ok)
qed

lemma deadline_item: "items s x = Some it \<Longrightarrow> deadline s x = uint (ti_expire it)"
  by (simp add: deadline_def payload_def)

lemma deadline_payload: "payload s' = payload s \<Longrightarrow> deadline s' = deadline s"
  by (simp add: deadline_def fun_eq_iff)

lemma pending_upd: "pending (A(WheelSlot i := A (WheelSlot i) @ [x])) = insert x (pending A)"
  by (auto simp: pending_def split: if_splits)

lemma add_timeout_ok:
  assumes inv: "wheel_inv s A timer" and x: "items s x = Some it" "\<forall>l. x \<notin> set (A l)"
    and ok: "et_start timer \<le> now" "now \<le> ti_expire it"
      "uint (ti_expire it) < uint (et_start timer) + et_size timer"
  shows "\<exists>s' i. add_timeout s timer (Some x) now = Inr (0, s', timer) \<and>
    wheel_inv s' (A(WheelSlot i := A (WheelSlot i) @ [x])) timer \<and> in_slot timer (uint (ti_expire it)) i \<and>
    payload s' = payload s"
proof -
  let ?i = "nat ((et_start_idx timer + (uint (ti_expire it) - uint (et_start timer))) mod et_size timer)"
  have n: "0 < et_size timer" and wf: "wf_store s A" using inv by (auto simp: wheel_inv_def)
  have le: "uint (et_start timer) \<le> uint (ti_expire it)" using ok by (simp add: word_le_def)
  have "has_list s (WheelSlot ?i)" using inv by (simp add: wheel_inv_def)
  then obtain s' where s': "add_tail s (WheelSlot ?i) (Some x) = Inr s'"
      "wf_store s' (A(WheelSlot ?i := A (WheelSlot ?i) @ [x]))" "payload s' = payload s" "has_list s' = has_list s"
    using add_tail_ok [OF wf _ x] by blast
  have i: "in_slot timer (uint (ti_expire it)) ?i" using n le ok(3) by (rule in_slot_mod)
  have "add_timeout s timer (Some x) now = Inr (0, s', timer)"
    using add_timeout_cases [OF inv x(1), of now] ok s'(1) inv by (auto simp: wheel_inv_def)
  moreover have "wheel_inv s' (A(WheelSlot ?i := A (WheelSlot ?i) @ [x])) timer"
    using inv s' i deadline_item [OF x(1)] deadline_payload [OF s'(3)] by (auto simp: wheel_inv_def)
  ultimately show ?thesis using i s'(3) by blast
qed

section \<open>Taking the timers that are due\<close>

text \<open>The slots visited for \<open>n\<close> milliseconds from \<open>start\<close>.\<close>

definition visited :: "epoll_timer_t \<Rightarrow> nat \<Rightarrow> list_ref list" where
  "visited timer n = map (\<lambda>i. WheelSlot (nat ((et_start_idx timer + int i) mod et_size timer))) [0..<n]"

lemma visited_distinct:
  assumes "0 < et_size timer" and "int n \<le> et_size timer"
  shows "distinct (visited timer n)"
proof -
  have "i = j" if "i < n" "j < n" and
    e: "nat ((et_start_idx timer + int i) mod et_size timer) = nat ((et_start_idx timer + int j) mod et_size timer)"
    for i j
  proof -
    from e assms(1) have "(et_start_idx timer + int i) mod et_size timer = (et_start_idx timer + int j) mod et_size timer"
      by (simp add: nat_eq_iff)
    then have "int i mod et_size timer = int j mod et_size timer" by (simp add: mod_eq_dvd_iff)
    then show ?thesis using that assms by simp
  qed
  then show ?thesis by (auto simp: visited_def distinct_map inj_on_def)
qed

text \<open>The abstract lists after the slots of \<open>n\<close> milliseconds were moved to \<open>result\<close>.\<close>

definition after_take :: "(list_ref \<Rightarrow> nat list) \<Rightarrow> epoll_timer_t \<Rightarrow> nat \<Rightarrow> list_ref \<Rightarrow> list_ref \<Rightarrow> nat list" where
  "after_take A timer n result =
     (\<lambda>k. if k = result then A result @ concat (map A (visited timer n))
          else if k \<in> set (visited timer n) then [] else A k)"

lemma take_loop:
  assumes inv: "wheel_inv s A timer" and res: "has_list s result" "\<forall>i. result \<noteq> WheelSlot i"
    and n: "int n \<le> et_size timer"
  shows "\<exists>s'. foldR (\<lambda>s i. bindR (wheel_slot timer (et_start_idx timer + int i)) (join s result)) s [0..<n] = Inr s' \<and>
     wf_store s' (after_take A timer n result) \<and> payload s' = payload s \<and> has_list s' = has_list s"
proof -
  have sz: "0 < et_size timer" "0 \<le> et_start_idx timer" and wf: "wf_store s A"
    and slots: "\<And>i. has_list s (WheelSlot i) \<longleftrightarrow> int i < et_size timer"
    using inv by (auto simp: wheel_inv_def)
  have "foldR (\<lambda>s i. bindR (wheel_slot timer (et_start_idx timer + int i)) (join s result)) s [0..<n] =
    foldR (\<lambda>s m. join s result m) s (visited timer n)"
    using sz by (simp add: visited_def foldR_map wheel_slot_ok)
  moreover have "\<forall>m \<in> set (visited timer n). has_list s m \<and> m \<noteq> result"
    using res(2) slots sz by (auto simp: visited_def)
  ultimately show ?thesis
    using tl.move_many [OF wf res(1) _ visited_distinct [OF sz(1) n]] by (auto simp: after_take_def)
qed

text \<open>
  The number of slots visited: the milliseconds from \<open>start\<close> to \<open>now\<close>, both included, or all
  of them. The difference is computed in 64 bits and stored in an \<open>int\<close>.
\<close>

definition due_slots :: "epoll_timer_t \<Rightarrow> u64 \<Rightarrow> nat" where
  "due_slots timer now = nat (min (uint now - uint (et_start timer) + 1) (et_size timer))"

lemma take_count:
  assumes "et_start timer \<le> now" and "uint now - uint (et_start timer) < 2 ^ 31 - 1"
  shows "int_of_u64 (now - et_start timer + 1) = uint now - uint (et_start timer) + 1"
proof -
  have "uint (now - et_start timer) = uint now - uint (et_start timer)"
    using assms(1) by (rule uint_diff_le)
  then have "uint (now - et_start timer + 1) = uint now - uint (et_start timer) + 1"
    using assms(2) by (simp add: uint_word_ariths)
  then show ?thesis using assms(2) by (simp add: int_of_u64_small)
qed

lemma takeAllTimeout_run:
  assumes inv: "wheel_inv s A timer" and res: "has_list s result" "\<forall>i. result \<noteq> WheelSlot i"
    and now: "et_start timer \<le> now" "uint now - uint (et_start timer) < 2 ^ 31 - 1"
  shows "\<exists>s'. takeAllTimeout s timer now result = Inr (s', timer\<lparr>et_start := now,
       et_start_idx := et_start_idx timer + int (due_slots timer now) - 1\<rparr>) \<and>
     wf_store s' (after_take A timer (due_slots timer now) result) \<and> payload s' = payload s \<and>
     has_list s' = has_list s"
proof -
  have sz: "0 < et_size timer" "et_start timer \<noteq> 0" using inv by (auto simp: wheel_inv_def)
  have pos: "0 \<le> uint now - uint (et_start timer)" using now(1) by (simp add: word_le_def)
  have n: "int (due_slots timer now) = (if uint now - uint (et_start timer) + 1 > et_size timer
      then et_size timer else uint now - uint (et_start timer) + 1)"
    using sz pos by (auto simp: due_slots_def)
  from take_loop [OF inv res, of "due_slots timer now"] n obtain s' where
    s': "foldR (\<lambda>s i. bindR (wheel_slot timer (et_start_idx timer + int i)) (join s result)) s
        [0..<due_slots timer now] = Inr s'"
      "wf_store s' (after_take A timer (due_slots timer now) result)" "payload s' = payload s"
      "has_list s' = has_list s" by (auto split: if_splits)
  then show ?thesis using sz now(1) take_count [OF now] n [symmetric] pos
    by (auto simp: takeAllTimeout_def Let_def)
qed

lemma visited_deadline:
  assumes inv: "wheel_inv s A timer" and "i < n" "int n \<le> et_size timer"
    and x: "x \<in> set (A (WheelSlot (nat ((et_start_idx timer + int i) mod et_size timer))))"
  shows "deadline s x = uint (et_start timer) + int i"
proof (rule in_slot_determined)
  show "in_slot timer (deadline s x) (nat ((et_start_idx timer + int i) mod et_size timer))"
    using inv x by (auto simp: wheel_inv_def)
qed (use assms in \<open>auto simp: wheel_inv_def\<close>)

lemma due_slots_le:
  assumes "wheel_inv s A timer" "et_start timer \<le> now"
  shows "int (due_slots timer now) \<le> et_size timer"
    and "int i < int (due_slots timer now) \<longleftrightarrow> int i < et_size timer \<and> uint (et_start timer) + int i \<le> uint now"
  using assms by (auto simp: due_slots_def wheel_inv_def word_le_def)

lemma taken_iff:
  assumes inv: "wheel_inv s A timer" and now: "et_start timer \<le> now"
  shows "x \<in> set (concat (map A (visited timer (due_slots timer now)))) \<longleftrightarrow>
    x \<in> pending A \<and> deadline s x \<le> uint now" (is "?L \<longleftrightarrow> ?R")
proof
  assume ?L
  then obtain i where i: "i < due_slots timer now"
    "x \<in> set (A (WheelSlot (nat ((et_start_idx timer + int i) mod et_size timer))))"
    by (auto simp: visited_def)
  with visited_deadline [OF inv i(1) due_slots_le(1) [OF inv now] i(2)] due_slots_le(2) [OF inv now, of i]
  show ?R by (auto simp: pending_def)
next
  assume R: ?R
  then obtain j where j: "x \<in> set (A (WheelSlot j))" by (auto simp: pending_def)
  then have sl: "in_slot timer (deadline s x) j" using inv by (auto simp: wheel_inv_def)
  let ?k = "nat (deadline s x - uint (et_start timer))"
  have k: "int ?k = deadline s x - uint (et_start timer)" using sl by (simp add: in_slot_def)
  then have "int ?k < int (due_slots timer now)"
    unfolding due_slots_le(2) [OF inv now] using sl R by (simp only: in_slot_def) linarith
  then have "?k < due_slots timer now" by (simp only: of_nat_less_iff)
  moreover have "j = nat ((et_start_idx timer + int ?k) mod et_size timer)"
    using sl unfolding k in_slot_def by (metis nat_int)
  ultimately show ?L using j by (force simp: visited_def)
qed

lemma taken_sorted:
  assumes inv: "wheel_inv s A timer"
  shows "int n \<le> et_size timer \<Longrightarrow> sorted (map (deadline s) (concat (map A (visited timer n))))"
proof (induction n)
  case 0
  then show ?case by (simp add: visited_def)
next
  case (Suc n)
  let ?l = "WheelSlot (nat ((et_start_idx timer + int n) mod et_size timer))"
  have last: "deadline s x = uint (et_start timer) + int n" if "x \<in> set (A ?l)" for x
    using visited_deadline [OF inv, of n "Suc n" x] that Suc.prems by simp
  have early: "deadline s x \<le> uint (et_start timer) + int n" if "x \<in> set (concat (map A (visited timer n)))" for x
    using visited_deadline [OF inv, of _ n x] that Suc.prems by (force simp: visited_def)
  have "sorted (map (deadline s) (A ?l))"
    using last by (auto simp: sorted_iff_nth_mono)
  moreover have "visited timer (Suc n) = visited timer n @ [?l]" by (simp add: visited_def)
  ultimately show ?case using Suc last early by (auto simp: sorted_append)
qed

lemma after_take_inv:
  assumes inv: "wheel_inv s A timer" and now: "et_start timer \<le> now"
    and res: "\<forall>i. result \<noteq> WheelSlot i"
    and s': "wf_store s' (after_take A timer (due_slots timer now) result)" "payload s' = payload s"
      "has_list s' = has_list s"
  shows "wheel_inv s' (after_take A timer (due_slots timer now) result)
    (timer\<lparr>et_start := now, et_start_idx := et_start_idx timer + int (due_slots timer now) - 1\<rparr>)"
    (is "wheel_inv s' ?A ?t")
proof -
  have "in_slot ?t (deadline s x) i" if x: "x \<in> set (?A (WheelSlot i))" for x i
  proof -
    have nv: "WheelSlot i \<notin> set (visited timer (due_slots timer now))" and xi: "x \<in> set (A (WheelSlot i))"
      using x res by (auto simp: after_take_def split: if_splits)
    have "x \<notin> set (concat (map A (visited timer (due_slots timer now))))"
    proof
      assume "x \<in> set (concat (map A (visited timer (due_slots timer now))))"
      then obtain l where "l \<in> set (visited timer (due_slots timer now))" "x \<in> set (A l)" by auto
      with xi nv inv show False by (auto simp: wheel_inv_def dest: wf_disjoint)
    qed
    then have late: "uint now < deadline s x" using taken_iff [OF inv now, of x] xi
      by (auto simp: pending_def simp del: set_concat)
    have sl: "in_slot timer (deadline s x) i" using inv xi by (auto simp: wheel_inv_def)
    then have "int (due_slots timer now) = uint now - uint (et_start timer) + 1"
      using late now by (auto simp: due_slots_def in_slot_def word_le_def)
    then have idx: "et_start_idx timer + (deadline s x - uint (et_start timer)) =
      et_start_idx timer + int (due_slots timer now) - 1 + (deadline s x - uint now)" by linarith
    show ?thesis using sl [unfolded in_slot_def idx] late now by (simp add: in_slot_def word_le_def)
  qed
  moreover have "1 \<le> due_slots timer now" using inv now by (auto simp: due_slots_def wheel_inv_def word_le_def)
  moreover have "now \<noteq> 0" using inv now by (auto simp: wheel_inv_def)
  ultimately show ?thesis
    using inv s' deadline_payload [OF s'(2)] by (auto simp: wheel_inv_def)
qed

lemma pending_after_take:
  assumes inv: "wheel_inv s A timer" and now: "et_start timer \<le> now" and res: "\<forall>i. result \<noteq> WheelSlot i"
  shows "pending (after_take A timer (due_slots timer now) result) = {x \<in> pending A. uint now < deadline s x}"
proof -
  have "x \<in> pending (after_take A timer (due_slots timer now) result) \<longleftrightarrow>
    x \<in> pending A \<and> x \<notin> set (concat (map A (visited timer (due_slots timer now))))" for x
    using res inv by (fastforce simp: pending_def after_take_def wheel_inv_def dest: wf_disjoint split: if_splits)
  then have "x \<in> pending (after_take A timer (due_slots timer now) result) \<longleftrightarrow>
    x \<in> pending A \<and> uint now < deadline s x" for x using taken_iff [OF inv now, of x] by (simp only: not_le [symmetric]) blast
  then show ?thesis by blast
qed

section \<open>Properties\<close>

lemma takeAllTimeout_ok:
  assumes inv: "wheel_inv s A timer" and res: "result \<in> {ActiveList, TimeoutList}"
    and now: "et_start timer \<le> now" "uint now - uint (et_start timer) < 2 ^ 31 - 1"
  shows "\<exists>s' timer' due. takeAllTimeout s timer now result = Inr (s', timer') \<and>
     wheel_inv s' (after_take A timer (due_slots timer now) result) timer' \<and>
     et_start timer' = now \<and> et_size timer' = et_size timer \<and>
     after_take A timer (due_slots timer now) result result = A result @ due \<and>
     set due = {x \<in> pending A. deadline s x \<le> uint now} \<and> sorted (map (deadline s) due) \<and>
     payload s' = payload s"
proof -
  have r: "has_list s result" "\<forall>i. result \<noteq> WheelSlot i" using res inv by (auto simp: wheel_inv_def)
  from takeAllTimeout_run [OF inv r now] obtain s' where
    s': "takeAllTimeout s timer now result = Inr (s', timer\<lparr>et_start := now,
       et_start_idx := et_start_idx timer + int (due_slots timer now) - 1\<rparr>)"
      "wf_store s' (after_take A timer (due_slots timer now) result)" "payload s' = payload s"
      "has_list s' = has_list s" by auto
  let ?due = "concat (map A (visited timer (due_slots timer now)))"
  have "set ?due = {x \<in> pending A. deadline s x \<le> uint now}" using taken_iff [OF inv now(1)] by blast
  moreover have "sorted (map (deadline s) ?due)"
    using taken_sorted [OF inv due_slots_le(1) [OF inv now(1)]] .
  ultimately show ?thesis
    using s' after_take_inv [OF inv now(1) r(2) s'(2-)] by (fastforce simp: after_take_def)
qed

text \<open>
  C2. The timer wheel hands out exactly the timers that are due. At time \<open>now\<close>,
  \<open>takeAllTimeout\<close> appends to the result list the items whose deadline is at most \<open>now\<close>, each
  once and in the order of their deadlines; the items left in the wheel are the ones whose
  deadline lies in the future, and the wheel's invariant holds from the new start time on. No
  timer is lost, duplicated or fired early, whatever the start index and however far the
  clock jumped ahead (below the range of \<open>int\<close>, in which the source counts the slots).
\<close>

theorem takeAllTimeout_exact:
  assumes "wheel_inv s A timer" and "result \<in> {ActiveList, TimeoutList}"
    and "et_start timer \<le> now" and "uint now - uint (et_start timer) < 2 ^ 31 - 1"
  shows "\<exists>s' timer' A' due. takeAllTimeout s timer now result = Inr (s', timer') \<and>
     wheel_inv s' A' timer' \<and> et_start timer' = now \<and>
     A' result = A result @ due \<and> distinct due \<and> sorted (map (deadline s) due) \<and>
     set due = {x \<in> pending A. deadline s x \<le> uint now} \<and>
     pending A' = {x \<in> pending A. uint now < deadline s x} \<and> payload s' = payload s"
proof -
  let ?A = "after_take A timer (due_slots timer now) result"
  from takeAllTimeout_ok [OF assms] obtain s' timer' due where
    t: "takeAllTimeout s timer now result = Inr (s', timer')" "wheel_inv s' ?A timer'" "et_start timer' = now"
      "?A result = A result @ due" "set due = {x \<in> pending A. deadline s x \<le> uint now}"
      "sorted (map (deadline s) due)" "payload s' = payload s" by auto
  have "distinct (?A result)" using t(2) by (auto simp: wheel_inv_def intro: wf_distinct)
  then have "distinct due" using t(4) by simp
  moreover have "\<forall>i. result \<noteq> WheelSlot i" using assms(2) by auto
  ultimately show ?thesis using t pending_after_take [OF assms(1,3)]
    by (intro exI [of _ s'] exI [of _ timer'] exI [of _ ?A] exI [of _ due]) auto
qed

definition small_wheel :: "timer_store" where
  "small_wheel = \<lparr>items = [7 \<mapsto> zero_item\<lparr>ti_expire := 102, ti_parent := Some (WheelSlot 1)\<rparr>],
     lists = (\<lambda>l. case l of WheelSlot i \<Rightarrow> if i = 1 then Some \<lparr>tl_head = Some 7, tl_tail = Some 7\<rparr>
        else if i < 4 then Some empty_list else None | _ \<Rightarrow> Some empty_list)\<rparr>"

definition small_timer :: epoll_timer_t where
  "small_timer = \<lparr>et_size = 4, et_start = 100, et_start_idx = 3\<rparr>"

lemma small_wheel_inv: "wheel_inv small_wheel ((\<lambda>_. [])(WheelSlot 1 := [7])) small_timer"
  by (auto simp: wheel_inv_def wf_store_def dlist_def small_wheel_def small_timer_def empty_list_def
      has_list_def in_slot_def deadline_def payload_def zero_item_def node_ok_def
      split: list_ref.splits if_splits)

theorem takeAllTimeout_exact_witness:
  "\<exists>s' timer' A'. takeAllTimeout small_wheel small_timer 102 TimeoutList = Inr (s', timer') \<and>
     wheel_inv s' A' timer' \<and> set (A' TimeoutList) = {7} \<and> pending A' = {}"
proof -
  let ?A = "(\<lambda>_. [])(WheelSlot 1 := [7 :: nat])"
  have p: "pending ?A = {7}" by (auto simp: pending_def split: if_splits)
  have d: "deadline small_wheel 7 = 102" by (simp add: deadline_def payload_def small_wheel_def)
  have "et_start small_timer \<le> 102" "uint (102 :: u64) - uint (et_start small_timer) < 2 ^ 31 - 1"
    by (simp_all add: small_timer_def)
  from takeAllTimeout_exact [OF small_wheel_inv _ this, of TimeoutList] p d show ?thesis by fastforce
qed



end
