(* ===== verification/Context_Switch.thy ===== *)
theory Context_Switch
  imports C_Prelude
begin

unbundle bit_operations_syntax

text \<open>
  Machine contexts: \<open>context_init\<close> and \<open>context_make\<close> of \<^verbatim>\<open>src/src/context.c\<close> and the assembly
  routine \<open>context_swap\<close> of \<^verbatim>\<open>src/src/context_swap.S\<close>, in their x86-64 and i386 variants. The
  routine is a list of instructions, executed by a model of the few instructions it uses, over
  registers and a memory of machine words.
\<close>

section \<open>The machine\<close>

text \<open>
  The registers by their 16-bit names. \<open>'w\<close> is the width of a machine word. Memory is an array
  of word-sized cells; \<open>ws\<close>, the size of a word in bytes, is 8 or 4, and an access that is not
  aligned to a cell is outside the model and faults.
\<close>

datatype reg = AX | BX | CX | DX | SI | DI | BP | SP | R8 | R9 | R10 | R11 | R12 | R13 | R14 | R15

type_synonym 'v mem = "'v \<Rightarrow> 'v"

record 'v cpu =
  gpr :: "reg \<Rightarrow> 'v"
  memory :: "'v mem"
  ip :: 'v

definition aligned :: "nat \<Rightarrow> 'w::len word \<Rightarrow> bool" where
  "aligned ws a \<longleftrightarrow> unat a mod ws = 0"

definition load :: "nat \<Rightarrow> 'w::len word mem \<Rightarrow> 'w word \<Rightarrow> 'w word c_result" where
  "load ws m a = (if aligned ws a then Inr (m a) else Inl OutOfBounds)"

definition store :: "nat \<Rightarrow> 'w::len word mem \<Rightarrow> 'w word \<Rightarrow> 'w word \<Rightarrow> 'w word mem c_result" where
  "store ws m a v = (if aligned ws a then Inr (m(a := v)) else Inl OutOfBounds)"

text \<open>
  \<open>Lea d r r'\<close> is \<open>lea d(r), r'\<close>; \<open>MovMem d r r'\<close> is \<open>mov d(r), r'\<close>; \<open>PushMem d r\<close> is
  \<open>push d(r)\<close>; \<open>Mov r r'\<close> is \<open>mov r, r'\<close>; \<open>XorA\<close> is \<open>xorl %eax, %eax\<close>, which also clears the
  upper half of \<open>rax\<close>.
\<close>

datatype instr = Lea int reg reg | MovMem int reg reg | Mov reg reg | Push reg | PushMem int reg
  | Pop reg | XorA | Ret

definition push :: "nat \<Rightarrow> 'w::len word cpu \<Rightarrow> 'w word \<Rightarrow> 'w word cpu c_result" where
  "push ws c v = (let sp = gpr c SP - of_nat ws in
     bindR (store ws (memory c) sp v) (\<lambda>m. Inr (c\<lparr>gpr := (gpr c)(SP := sp), memory := m\<rparr>)))"

text \<open>\<open>pop\<close> increments the stack pointer before it writes its destination.\<close>

fun exec :: "nat \<Rightarrow> 'w::len word cpu \<Rightarrow> instr \<Rightarrow> 'w word cpu c_result" where
  "exec ws c (Lea d r r') = Inr (c\<lparr>gpr := (gpr c)(r' := gpr c r + of_int d)\<rparr>)"
| "exec ws c (MovMem d r r') =
     bindR (load ws (memory c) (gpr c r + of_int d)) (\<lambda>v. Inr (c\<lparr>gpr := (gpr c)(r' := v)\<rparr>))"
| "exec ws c (Mov r r') = Inr (c\<lparr>gpr := (gpr c)(r' := gpr c r)\<rparr>)"
| "exec ws c (Push r) = push ws c (gpr c r)"
| "exec ws c (PushMem d r) = bindR (load ws (memory c) (gpr c r + of_int d)) (push ws c)"
| "exec ws c (Pop r) = bindR (load ws (memory c) (gpr c SP)) (\<lambda>v.
     Inr (c\<lparr>gpr := (gpr c)(SP := gpr c SP + of_nat ws, r := v)\<rparr>))"
| "exec ws c XorA = Inr (c\<lparr>gpr := (gpr c)(AX := 0)\<rparr>)"
| "exec ws c Ret = bindR (load ws (memory c) (gpr c SP)) (\<lambda>v.
     Inr (c\<lparr>gpr := (gpr c)(SP := gpr c SP + of_nat ws), ip := v\<rparr>))"

section \<open>The assembly routine\<close>

definition context_swap_x86_64 :: "instr list" where
  "context_swap_x86_64 =
    [Lea 8 SP AX, Lea 112 DI SP,
     Push AX, Push BX, Push CX, Push DX,
     PushMem (-8) AX,
     Push SI, Push DI, Push BP, Push R8, Push R9, Push R12, Push R13, Push R14, Push R15,
     Mov SI SP,
     Pop R15, Pop R14, Pop R13, Pop R12, Pop R9, Pop R8, Pop BP, Pop DI, Pop SI,
     Pop AX, Pop DX, Pop CX, Pop BX, Pop SP,
     Push AX, XorA, Ret]"

definition context_swap_i386 :: "instr list" where
  "context_swap_i386 =
    [Lea 4 SP AX, MovMem 4 SP SP, Lea 32 SP SP,
     Push AX, Push BP, Push SI, Push DI, Push DX, Push CX, Push BX, PushMem (-4) AX,
     MovMem 4 AX SP,
     Pop AX, Pop BX, Pop CX, Pop DX, Pop DI, Pop SI, Pop BP, Pop SP,
     Push AX, XorA, Ret]"

section \<open>Preparing a context\<close>

text \<open>
  The layout of \<open>context_t\<close>: the \<open>regs\<close> array (14 words on x86-64, 8 on i386), then \<open>size\<close> and
  \<open>sp\<close>. \<open>zero_cells\<close> is \<open>memset(p, 0, n * ws)\<close> on whole cells.
\<close>

definition zero_cells :: "nat \<Rightarrow> 'w::len word \<Rightarrow> nat \<Rightarrow> 'w word mem \<Rightarrow> 'w word mem c_result" where
  "zero_cells ws p n m = foldR (\<lambda>m i. store ws m (p + of_nat (ws * i)) 0) m [0..<n]"

definition context_init :: "u64 \<Rightarrow> u64 mem \<Rightarrow> u64 mem c_result" where
  "context_init context m = zero_cells 8 context 16 m"

text \<open>
  \<open>context_make\<close> on x86-64: the new context starts in \<open>fun\<close> with the argument \<open>s\<close> in the first
  argument register and the stack pointer below the aligned end of the stack.
\<close>

definition context_make_x86_64 :: "u64 \<Rightarrow> u64 \<Rightarrow> u64 \<Rightarrow> u64 mem \<Rightarrow> u64 mem c_result" where
  "context_make_x86_64 ctx fun s m =
     bindR (load 8 m (ctx + 120)) (\<lambda>ctx_sp.
     bindR (load 8 m (ctx + 112)) (\<lambda>ctx_size.
     let sp = (ctx_sp + ctx_size) AND (- 16) in
     bindR (zero_cells 8 ctx 14 m) (\<lambda>m.
     bindR (store 8 m (ctx + 8 * 13) (sp - 8)) (\<lambda>m.
     bindR (store 8 m (ctx + 8 * 9) fun) (\<lambda>m.
     store 8 m (ctx + 8 * 7) s)))))"

text \<open>On i386 the argument is passed in memory, above the slot of the return address.\<close>

definition context_make_i386 :: "u32 \<Rightarrow> u32 \<Rightarrow> u32 \<Rightarrow> u32 mem \<Rightarrow> u32 mem c_result" where
  "context_make_i386 ctx fun s m =
     bindR (load 4 m (ctx + 36)) (\<lambda>ctx_sp.
     bindR (load 4 m (ctx + 32)) (\<lambda>ctx_size.
     let sp = (ctx_sp + ctx_size - 4) AND (- 16) in
     bindR (store 4 m sp s) (\<lambda>m.
     bindR (zero_cells 4 ctx 8 m) (\<lambda>m.
     bindR (store 4 m (ctx + 4 * 7) (sp - 4)) (\<lambda>m.
     store 4 m (ctx + 4 * 0) fun)))))"

section \<open>Running the routine\<close>

lemma aligned_add:
  assumes "ws dvd 2 ^ LENGTH('w)" and "aligned ws (k :: 'w::len word)"
  shows "aligned ws (a + k) \<longleftrightarrow> aligned ws a"
proof -
  have "unat (a + k) mod ws = (unat a + unat k) mod ws"
    using assms(1) by (simp add: unat_word_ariths mod_mod_cancel)
  then show ?thesis using assms(2) by (auto simp: aligned_def mod_eq_0_iff_dvd dvd_add_left_iff)
qed

lemma aligned8 [simp]: "aligned 8 (k :: u64) \<Longrightarrow> aligned 8 (a + k) \<longleftrightarrow> aligned 8 a"
  by (rule aligned_add) simp_all

lemma aligned8_left [simp]: "aligned 8 (k :: u64) \<Longrightarrow> aligned 8 (k + a) \<longleftrightarrow> aligned 8 a"
  by (simp add: add.commute [of k])

lemma aligned8_diff [simp]: "aligned 8 (k :: u64) \<Longrightarrow> aligned 8 (a - k) \<longleftrightarrow> aligned 8 a"
  using aligned8 [of k "a - k"] by simp

lemma aligned_numeral [simp]: "aligned ws (numeral k :: 'w::len word) \<longleftrightarrow> unat (numeral k :: 'w word) mod ws = 0"
  by (simp add: aligned_def)

lemma aligned_0 [simp]: "aligned ws 0"
  by (simp add: aligned_def)

text \<open>The memory after the first half of \<open>context_swap\<close> has stored the registers of \<open>c\<close>.\<close>

definition saved_x86_64 :: "u64 cpu \<Rightarrow> u64 mem" where
  "saved_x86_64 c = (let a = gpr c DI in (memory c)
    (104 + a := gpr c SP + 8, 96 + a := gpr c BX, 88 + a := gpr c CX, 80 + a := gpr c DX,
     72 + a := memory c (gpr c SP), 64 + a := gpr c SI, 56 + a := a, 48 + a := gpr c BP,
     40 + a := gpr c R8, 32 + a := gpr c R9, 24 + a := gpr c R12, 16 + a := gpr c R13,
     8 + a := gpr c R14, a := gpr c R15))"

text \<open>The register values held in a save area at \<open>b\<close>.\<close>

fun area_x86_64 :: "u64 mem \<Rightarrow> u64 \<Rightarrow> (reg \<Rightarrow> u64) \<Rightarrow> reg \<Rightarrow> u64" where
  "area_x86_64 m b old AX = 0"
| "area_x86_64 m b old BX = m (96 + b)"
| "area_x86_64 m b old CX = m (88 + b)"
| "area_x86_64 m b old DX = m (80 + b)"
| "area_x86_64 m b old SI = m (64 + b)"
| "area_x86_64 m b old DI = m (56 + b)"
| "area_x86_64 m b old BP = m (48 + b)"
| "area_x86_64 m b old SP = m (104 + b)"
| "area_x86_64 m b old R8 = m (40 + b)"
| "area_x86_64 m b old R9 = m (32 + b)"
| "area_x86_64 m b old R10 = old R10"
| "area_x86_64 m b old R11 = old R11"
| "area_x86_64 m b old R12 = m (24 + b)"
| "area_x86_64 m b old R13 = m (16 + b)"
| "area_x86_64 m b old R14 = m (8 + b)"
| "area_x86_64 m b old R15 = m b"


lemma exec_explicit:
  "exec ws \<lparr>gpr = g, memory = m, ip = i\<rparr> (Lea d r r') = Inr \<lparr>gpr = g(r' := g r + of_int d), memory = m, ip = i\<rparr>"
  "exec ws \<lparr>gpr = g, memory = m, ip = i\<rparr> (Mov r r') = Inr \<lparr>gpr = g(r' := g r), memory = m, ip = i\<rparr>"
  "exec ws \<lparr>gpr = g, memory = m, ip = i\<rparr> XorA = Inr \<lparr>gpr = g(AX := 0), memory = m, ip = i\<rparr>"
  "aligned ws (g r + of_int d) \<Longrightarrow>
    exec ws \<lparr>gpr = g, memory = m, ip = i\<rparr> (MovMem d r r') = Inr \<lparr>gpr = g(r' := m (g r + of_int d)), memory = m, ip = i\<rparr>"
  "aligned ws (g SP - of_nat ws) \<Longrightarrow>
    exec ws \<lparr>gpr = g, memory = m, ip = i\<rparr> (Push r) =
      Inr \<lparr>gpr = g(SP := g SP - of_nat ws), memory = m(g SP - of_nat ws := g r), ip = i\<rparr>"
  "aligned ws (g SP - of_nat ws) \<Longrightarrow> aligned ws (g r + of_int d) \<Longrightarrow>
    exec ws \<lparr>gpr = g, memory = m, ip = i\<rparr> (PushMem d r) =
      Inr \<lparr>gpr = g(SP := g SP - of_nat ws), memory = m(g SP - of_nat ws := m (g r + of_int d)), ip = i\<rparr>"
  "aligned ws (g SP) \<Longrightarrow>
    exec ws \<lparr>gpr = g, memory = m, ip = i\<rparr> (Pop r) =
      Inr \<lparr>gpr = g(SP := g SP + of_nat ws, r := m (g SP)), memory = m, ip = i\<rparr>"
  "aligned ws (g SP) \<Longrightarrow>
    exec ws \<lparr>gpr = g, memory = m, ip = i\<rparr> Ret =
      Inr \<lparr>gpr = g(SP := g SP + of_nat ws), memory = m, ip = m (g SP)\<rparr>"
  by (simp_all add: load_def store_def push_def Let_def)


lemma area_x86_64_upd: "area_x86_64 M b g = g(R15 := M b, R14 := M (8 + b), R13 := M (16 + b),
   R12 := M (24 + b), R9 := M (32 + b), R8 := M (40 + b), BP := M (48 + b), DI := M (56 + b), SI := M (64 + b),
   DX := M (80 + b), CX := M (88 + b), BX := M (96 + b), AX := 0, SP := M (104 + b))"
proof
  fix r show "area_x86_64 M b g r = (g(R15 := M b, R14 := M (8 + b), R13 := M (16 + b),
   R12 := M (24 + b), R9 := M (32 + b), R8 := M (40 + b), BP := M (48 + b), DI := M (56 + b), SI := M (64 + b),
   DX := M (80 + b), CX := M (88 + b), BX := M (96 + b), AX := 0, SP := M (104 + b))) r"
    by (cases r) simp_all
qed

lemma restore_x86_64:
  assumes "aligned 8 b" "aligned 8 (M (104 + b))" "g SI = b"
  shows "foldR (exec 8) \<lparr>gpr = g, memory = M, ip = i\<rparr> [Mov SI SP,
     Pop R15, Pop R14, Pop R13, Pop R12, Pop R9, Pop R8, Pop BP, Pop DI, Pop SI,
     Pop AX, Pop DX, Pop CX, Pop BX, Pop SP, Push AX, XorA, Ret] = Inr \<lparr>
     gpr = area_x86_64 M b g, memory = M(M (104 + b) - 8 := M (72 + b)), ip = M (72 + b)\<rparr>"
  using assms
  by (simp add: exec_explicit area_x86_64_upd add.commute [of b 8] del: exec.simps)

lemma save_x86_64:
  assumes "aligned 8 (g DI)" "aligned 8 (g SP)"
    and "g SP \<notin> {80 + g DI, 88 + g DI, 96 + g DI, 104 + g DI}"
  shows "foldR (exec 8) \<lparr>gpr = g, memory = m, ip = i\<rparr> [Lea 8 SP AX, Lea 112 DI SP,
     Push AX, Push BX, Push CX, Push DX, PushMem (-8) AX,
     Push SI, Push DI, Push BP, Push R8, Push R9, Push R12, Push R13, Push R14, Push R15] =
     Inr \<lparr>gpr = g(AX := g SP + 8, SP := g DI), memory = saved_x86_64 \<lparr>gpr = g, memory = m, ip = i\<rparr>, ip = i\<rparr>"
  using assms
  by (simp add: exec_explicit saved_x86_64_def Let_def add.commute [of "g DI" 112] del: exec.simps)


text \<open>The 14 cells of the \<open>regs\<close> array of the context at \<open>a\<close>.\<close>

definition ctx_cells :: "u64 \<Rightarrow> u64 set" where
  "ctx_cells a = {a, 8 + a, 16 + a, 24 + a, 32 + a, 40 + a, 48 + a, 56 + a, 64 + a, 72 + a, 80 + a,
     88 + a, 96 + a, 104 + a}"

lemma run_x86_64:
  assumes al: "aligned 8 (gpr c DI)" "aligned 8 (gpr c SI)" "aligned 8 (gpr c SP)"
      "aligned 8 (saved_x86_64 c (104 + gpr c SI))"
    and ra: "gpr c SP \<notin> ctx_cells (gpr c DI)"
  shows "foldR (exec 8) c context_swap_x86_64 = Inr \<lparr>
     gpr = area_x86_64 (saved_x86_64 c) (gpr c SI) (gpr c),
     memory = (saved_x86_64 c)(saved_x86_64 c (104 + gpr c SI) - 8 := saved_x86_64 c (72 + gpr c SI)),
     ip = saved_x86_64 c (72 + gpr c SI)\<rparr>"
proof -
  have split: "context_swap_x86_64 = [Lea 8 SP AX, Lea 112 DI SP,
     Push AX, Push BX, Push CX, Push DX, PushMem (-8) AX,
     Push SI, Push DI, Push BP, Push R8, Push R9, Push R12, Push R13, Push R14, Push R15] @ [Mov SI SP,
     Pop R15, Pop R14, Pop R13, Pop R12, Pop R9, Pop R8, Pop BP, Pop DI, Pop SI,
     Pop AX, Pop DX, Pop CX, Pop BX, Pop SP, Push AX, XorA, Ret]"
    by (simp add: context_swap_x86_64_def)
  obtain g m i where c: "c = \<lparr>gpr = g, memory = m, ip = i\<rparr>" by (cases c) auto
  let ?g = "g(AX := g SP + 8, SP := g DI)"
  have "g SP \<notin> {80 + g DI, 88 + g DI, 96 + g DI, 104 + g DI}" using ra c by (auto simp: ctx_cells_def)
  with al c have s: "foldR (exec 8) c context_swap_x86_64 = foldR (exec 8) \<lparr>gpr = ?g, memory = saved_x86_64 c, ip = i\<rparr> [Mov SI SP,
     Pop R15, Pop R14, Pop R13, Pop R12, Pop R9, Pop R8, Pop BP, Pop DI, Pop SI,
     Pop AX, Pop DX, Pop CX, Pop BX, Pop SP, Push AX, XorA, Ret]"
    unfolding split foldR_append c by (subst save_x86_64) auto
  also have "\<dots> = Inr \<lparr>gpr = area_x86_64 (saved_x86_64 c) (g SI) ?g,
     memory = (saved_x86_64 c)(saved_x86_64 c (104 + g SI) - 8 := saved_x86_64 c (72 + g SI)),
     ip = saved_x86_64 c (72 + g SI)\<rparr>"
    by (rule restore_x86_64) (use al c in auto)
  also have "area_x86_64 (saved_x86_64 c) (g SI) ?g = area_x86_64 (saved_x86_64 c) (g SI) g"
    by (simp add: area_x86_64_upd)
  finally show ?thesis by (simp add: c fun_upd_def)
qed

lemma saved_out: "x \<notin> ctx_cells (gpr c DI) \<Longrightarrow> saved_x86_64 c x = memory c x"
  by (simp add: saved_x86_64_def ctx_cells_def Let_def)

text \<open>What a context holds once its registers were saved.\<close>

definition holds_x86_64 :: "u64 mem \<Rightarrow> u64 \<Rightarrow> u64 cpu \<Rightarrow> bool" where
  "holds_x86_64 m a c \<longleftrightarrow> m (104 + a) = gpr c SP + 8 \<and> m (72 + a) = memory c (gpr c SP) \<and>
     (\<forall>r. r \<notin> {AX, SP, R10, R11} \<longrightarrow> area_x86_64 m a (gpr c) r = gpr c r)"

lemma saved_holds: "holds_x86_64 (saved_x86_64 c) (gpr c DI) c"
proof -
  have "area_x86_64 (saved_x86_64 c) (gpr c DI) (gpr c) r = gpr c r" if "r \<notin> {AX, SP, R10, R11}" for r
    using that by (cases r) (simp_all add: saved_x86_64_def Let_def)
  then show ?thesis by (simp add: holds_x86_64_def saved_x86_64_def Let_def)
qed

lemma holds_cong:
  assumes "\<forall>x \<in> ctx_cells a. m' x = m x"
  shows "holds_x86_64 m' a c \<longleftrightarrow> holds_x86_64 m a c"
proof -
  have "area_x86_64 m' a g r = area_x86_64 m a g r" for g r
    using assms by (cases r) (simp_all add: ctx_cells_def)
  with assms show ?thesis by (simp add: holds_x86_64_def ctx_cells_def)
qed



lemma and_minus_16:
  assumes "4 < LENGTH('w)"
  shows "unat (x AND - 16 :: 'w::len word) = unat x - unat x mod 16"
proof -
  have "(- 16 :: 'w word) = NOT 15" by (simp add: not_eq_complement)
  moreover have "(15 :: 'w word) = mask 4" by (simp add: mask_eq_exp_minus_1)
  ultimately have "x AND - 16 = push_bit 4 (drop_bit 4 x)"
    by (simp only:) (auto simp: bit_eq_iff bit_simps)
  moreover have "unat x div 16 * 16 < 2 ^ LENGTH('w)"
  proof -
    have "unat x < 2 ^ LENGTH('w)" by (rule unsigned_less)
    then show ?thesis using div_times_less_eq_dividend [of "unat x" 16] by linarith
  qed
  moreover have "unat (push_bit 4 (drop_bit 4 x)) = take_bit LENGTH('w) (push_bit 4 (drop_bit 4 (unat x)))"
    by (simp only: unsigned_push_bit_eq unat_drop_bit_eq)
  ultimately show ?thesis
    by (simp add: push_bit_eq_mult [of _ "_ :: nat"] drop_bit_eq_div [of _ "_ :: nat"]
        take_bit_nat_eq_self minus_mod_eq_div_mult)
qed

text \<open>
  The routine run by \<open>c2\<close> on a context that holds the registers of \<open>c\<close> continues after the
  call that saved them.
\<close>

lemma resume_x86_64:
  assumes h: "holds_x86_64 (memory c2) (gpr c2 SI) c"
    and al: "aligned 8 (gpr c2 SI)" "aligned 8 (gpr c SP)" "aligned 8 (gpr c2 DI)" "aligned 8 (gpr c2 SP)"
    and sep: "gpr c2 SP \<notin> ctx_cells (gpr c2 DI)" "ctx_cells (gpr c2 DI) \<inter> ctx_cells (gpr c2 SI) = {}"
  shows "\<exists>c3. foldR (exec 8) c2 context_swap_x86_64 = Inr c3 \<and> ip c3 = memory c (gpr c SP) \<and>
       gpr c3 SP = gpr c SP + 8 \<and> gpr c3 AX = 0 \<and>
       (\<forall>r. r \<notin> {AX, SP, R10, R11} \<longrightarrow> gpr c3 r = gpr c r) \<and>
       (\<forall>x. x \<notin> ctx_cells (gpr c2 DI) \<and> x \<noteq> gpr c SP \<longrightarrow> memory c3 x = memory c2 x)"
proof -
  let ?a = "gpr c2 SI" and ?s = "saved_x86_64 c2"
  have "\<forall>x \<in> ctx_cells ?a. ?s x = memory c2 x" using sep(2) by (auto intro!: saved_out)
  with h have h2: "holds_x86_64 ?s ?a c" using holds_cong by blast
  then have top: "?s (104 + ?a) = gpr c SP + 8" "?s (72 + ?a) = memory c (gpr c SP)"
    by (simp_all add: holds_x86_64_def)
  have "aligned 8 (gpr c SP + 8)" using al(2) by simp
  with top al sep have run2: "foldR (exec 8) c2 context_swap_x86_64 = Inr \<lparr>
       gpr = area_x86_64 ?s ?a (gpr c2), memory = ?s(gpr c SP := memory c (gpr c SP)), ip = memory c (gpr c SP)\<rparr>"
    (is "_ = Inr ?c3") using run_x86_64 [of c2] by simp
  have "area_x86_64 ?s ?a (gpr c2) r = gpr c r" if "r \<notin> {AX, SP, R10, R11}" for r
  proof -
    have "area_x86_64 ?s ?a (gpr c2) r = area_x86_64 ?s ?a (gpr c) r" using that by (cases r) auto
    then show ?thesis using h2 that by (simp add: holds_x86_64_def)
  qed
  then show ?thesis using run2 top saved_out [of _ c2] by (intro exI [of _ ?c3]) simp
qed

section \<open>Properties\<close>

text \<open>
  The call \<open>context_swap(curr, pending)\<close> is well-formed in \<open>c\<close>: the contexts in \<open>rdi\<close> and \<open>rsi\<close>
  and the stack are aligned and do not overlap.
\<close>

definition can_swap :: "u64 cpu \<Rightarrow> bool" where
  "can_swap c \<longleftrightarrow> aligned 8 (gpr c DI) \<and> aligned 8 (gpr c SI) \<and> aligned 8 (gpr c SP) \<and>
     gpr c SP \<notin> ctx_cells (gpr c DI) \<and> ctx_cells (gpr c DI) \<inter> ctx_cells (gpr c SI) = {}"

text \<open>
  \<open>c3\<close> is the state in which the call made in \<open>c\<close> has returned, when the swap back was made in
  \<open>c2\<close>.
\<close>

definition call_returned :: "u64 cpu \<Rightarrow> u64 cpu \<Rightarrow> u64 cpu \<Rightarrow> bool" where
  "call_returned c c2 c3 \<longleftrightarrow> ip c3 = memory c (gpr c SP) \<and> gpr c3 SP = gpr c SP + 8 \<and> gpr c3 AX = 0 \<and>
     (\<forall>r. r \<notin> {AX, SP, R10, R11} \<longrightarrow> gpr c3 r = gpr c r) \<and>
     (\<forall>x. x \<notin> ctx_cells (gpr c2 DI) \<and> x \<noteq> gpr c SP \<longrightarrow> memory c3 x = memory c2 x)"

text \<open>
  C12. \<open>context_swap\<close> is, to its caller, a call that returns. Running the assembly saves the
  registers of the caller in the context \<open>curr\<close> (in \<open>rdi\<close>) and continues at the address held
  by the context \<open>pending\<close> (in \<open>rsi\<close>). Whenever some context later swaps back to the saved one,
  with its save area intact, execution continues at the return address of the original call,
  with the stack pointer just above it, every register except \<open>rax\<close> (0) and the scratch
  registers \<open>r10\<close> and \<open>r11\<close> as it was at the call, and memory changed only in the save area of
  the context swapped out and in the slot of the return address.
\<close>

theorem context_swap_resumes:
  assumes "can_swap c" and "aligned 8 (memory c (104 + gpr c SI))"
    and "memory c (104 + gpr c SI) - 8 \<notin> ctx_cells (gpr c DI)"
  shows "\<exists>c1. foldR (exec 8) c context_swap_x86_64 = Inr c1 \<and> ip c1 = memory c (72 + gpr c SI) \<and>
    (\<forall>c2. can_swap c2 \<and> gpr c2 SI = gpr c DI \<and> (\<forall>x \<in> ctx_cells (gpr c DI). memory c2 x = memory c1 x) \<longrightarrow>
       (\<exists>c3. foldR (exec 8) c2 context_swap_x86_64 = Inr c3 \<and> call_returned c c2 c3))"
proof -
  let ?a = "gpr c DI" and ?b = "gpr c SI"
  have "saved_x86_64 c x = memory c x" if "x \<in> ctx_cells ?b" for x
    using that assms(1) by (intro saved_out) (auto simp: can_swap_def)
  then have b: "saved_x86_64 c (104 + ?b) = memory c (104 + ?b)" "saved_x86_64 c (72 + ?b) = memory c (72 + ?b)"
    by (simp_all add: ctx_cells_def)
  define m1 where "m1 = (saved_x86_64 c)(memory c (104 + ?b) - 8 := memory c (72 + ?b))"
  have run: "foldR (exec 8) c context_swap_x86_64 = Inr \<lparr>gpr = area_x86_64 (saved_x86_64 c) ?b (gpr c),
     memory = m1, ip = memory c (72 + ?b)\<rparr>" (is "_ = Inr ?c1")
    using run_x86_64 [of c] assms b by (simp add: m1_def can_swap_def)
  have "\<forall>x \<in> ctx_cells ?a. m1 x = saved_x86_64 c x" using assms(3) by (auto simp: m1_def)
  then have holds: "holds_x86_64 m1 ?a c" using saved_holds [of c] holds_cong by blast
  have "\<exists>c3. foldR (exec 8) c2 context_swap_x86_64 = Inr c3 \<and> call_returned c c2 c3"
    if c2: "can_swap c2" "gpr c2 SI = ?a" "\<forall>x \<in> ctx_cells ?a. memory c2 x = m1 x" for c2
  proof -
    have "holds_x86_64 (memory c2) (gpr c2 SI) c" using c2 holds holds_cong by metis
    from resume_x86_64 [OF this] c2 assms(1) show ?thesis by (simp add: can_swap_def call_returned_def)
  qed
  with run show ?thesis by (intro exI [of _ ?c1]) simp
qed

definition demo_cpu :: "u64 cpu" where
  "demo_cpu = \<lparr>gpr = (\<lambda>_. 5)(DI := 0x1000, SI := 0x2000, SP := 0x8000),
     memory = (\<lambda>_. 0)(0x2068 := 0x9000, 0x2048 := 0x400000, 0x8000 := 0x400100), ip = 0\<rparr>"

theorem context_swap_resumes_witness:
  "\<exists>c1 c3. foldR (exec 8) demo_cpu context_swap_x86_64 = Inr c1 \<and> ip c1 = 0x400000 \<and>
     foldR (exec 8) (c1\<lparr>gpr := (\<lambda>_. 9)(DI := 0x2000, SI := 0x1000, SP := 0x8ff0)\<rparr>) context_swap_x86_64 = Inr c3 \<and>
     ip c3 = 0x400100 \<and> gpr c3 SP = 0x8008 \<and> gpr c3 BX = 5"
proof -
  have h: "can_swap demo_cpu" "aligned 8 (memory demo_cpu (104 + gpr demo_cpu SI))"
    "memory demo_cpu (104 + gpr demo_cpu SI) - 8 \<notin> ctx_cells (gpr demo_cpu DI)"
    by (simp_all add: demo_cpu_def ctx_cells_def can_swap_def)
  from context_swap_resumes [OF h] obtain c1 where c1: "foldR (exec 8) demo_cpu context_swap_x86_64 = Inr c1"
      "ip c1 = memory demo_cpu (72 + gpr demo_cpu SI)"
    and ret: "\<And>c2. can_swap c2 \<and> gpr c2 SI = gpr demo_cpu DI \<and>
       (\<forall>x \<in> ctx_cells (gpr demo_cpu DI). memory c2 x = memory c1 x) \<Longrightarrow>
       \<exists>c3. foldR (exec 8) c2 context_swap_x86_64 = Inr c3 \<and> call_returned demo_cpu c2 c3" by blast
  let ?c2 = "c1\<lparr>gpr := (\<lambda>_. 9)(DI := 0x2000, SI := 0x1000, SP := 0x8ff0)\<rparr>"
  have "can_swap ?c2" by (simp add: can_swap_def ctx_cells_def)
  then obtain c3 where "foldR (exec 8) ?c2 context_swap_x86_64 = Inr c3" "call_returned demo_cpu ?c2 c3"
    using ret [of ?c2] by (auto simp: demo_cpu_def)
  with c1 show ?thesis by (intro exI [of _ c1] exI [of _ c3]) (simp add: demo_cpu_def call_returned_def)
qed

lemma make_x86_64:
  assumes "aligned 8 ctx"
  shows "\<exists>m'. context_make_x86_64 ctx f s m = Inr m' \<and>
    m' (104 + ctx) = ((m (120 + ctx) + m (112 + ctx)) AND - 16) - 8 \<and> m' (72 + ctx) = f \<and> m' (56 + ctx) = s \<and>
    (\<forall>k \<in> {0, 8, 16, 24, 32, 40, 48, 64, 80, 88, 96}. m' (k + ctx) = 0) \<and>
    (\<forall>x. x \<notin> ctx_cells ctx \<longrightarrow> m' x = m x)"
  using assms
  by (simp add: context_make_x86_64_def load_def store_def zero_cells_def upt_rec ctx_cells_def Let_def
      add.commute [of ctx])


lemma stack_top:
  fixes sp n :: u64
  assumes "unat sp + unat n < 2 ^ 64" and "24 \<le> unat n"
  defines "t \<equiv> ((sp + n) AND - 16) - 8"
  shows "aligned 8 t" "16 dvd unat t + 8" "unat sp \<le> unat t" "unat t + 8 \<le> unat sp + unat n"
proof -
  have sum: "unat (sp + n) = unat sp + unat n" using assms(1) by (simp add: unat_word_ariths)
  let ?u = "unat ((sp + n) AND - 16)"
  have u: "?u = unat sp + unat n - (unat sp + unat n) mod 16" by (subst and_minus_16) (simp_all add: sum)
  then have d: "16 dvd ?u" by (simp add: minus_mod_eq_mult_div)
  have "(unat sp + unat n) mod 16 < 16" by simp
  then have "unat sp + 8 < ?u" using u assms(2) by linarith
  then have t: "unat t = ?u - 8" unfolding t_def by (simp add: unat_sub word_le_nat_alt)
  show "16 dvd unat t + 8" using d t \<open>unat sp + 8 < ?u\<close> by simp
  then have "8 dvd unat t" by presburger
  then show "aligned 8 t" by (simp add: aligned_def)
  show "unat sp \<le> unat t" "unat t + 8 \<le> unat sp + unat n" using t u \<open>unat sp + 8 < ?u\<close> by linarith+
qed

text \<open>
  C24. A context prepared by \<open>context_make\<close> starts its function. The first \<open>context_swap\<close> to it
  enters \<open>fun\<close> with \<open>s\<close> as first argument and every other saved register zero, on a stack
  pointer that lies inside the stack given by \<open>sp\<close> and \<open>size\<close> and has the alignment the
  x86-64 calling convention demands at a function entry.
\<close>

theorem context_make_starts:
  assumes "aligned 8 ctx" and "unat (m (120 + ctx)) + unat (m (112 + ctx)) < 2 ^ 64"
    and "24 \<le> unat (m (112 + ctx))"
  shows "\<exists>m'. context_make_x86_64 ctx f s m = Inr m' \<and> (\<forall>x. x \<notin> ctx_cells ctx \<longrightarrow> m' x = m x) \<and>
    (\<forall>c. can_swap c \<and> gpr c SI = ctx \<and> (\<forall>x \<in> ctx_cells ctx. memory c x = m' x) \<longrightarrow>
     (\<exists>c'. foldR (exec 8) c context_swap_x86_64 = Inr c' \<and> ip c' = f \<and> gpr c' DI = s \<and>
       16 dvd unat (gpr c' SP) + 8 \<and> unat (m (120 + ctx)) \<le> unat (gpr c' SP) \<and>
       unat (gpr c' SP) + 8 \<le> unat (m (120 + ctx)) + unat (m (112 + ctx)) \<and>
       (\<forall>r. r \<notin> {SP, DI, R10, R11} \<longrightarrow> gpr c' r = 0)))"
proof -
  let ?t = "((m (120 + ctx) + m (112 + ctx)) AND - 16) - 8"
  obtain m' where m': "context_make_x86_64 ctx f s m = Inr m'" "m' (104 + ctx) = ?t" "m' (72 + ctx) = f"
      "m' (56 + ctx) = s" "\<forall>k \<in> {0, 8, 16, 24, 32, 40, 48, 64, 80, 88, 96}. m' (k + ctx) = 0"
      "\<forall>x. x \<notin> ctx_cells ctx \<longrightarrow> m' x = m x"
    using make_x86_64 [OF assms(1), of f s m] by blast
  note top = stack_top [OF assms(2,3)]
  have "\<exists>c'. foldR (exec 8) c context_swap_x86_64 = Inr c' \<and> ip c' = f \<and> gpr c' DI = s \<and>
       gpr c' SP = ?t \<and> (\<forall>r. r \<notin> {SP, DI, R10, R11} \<longrightarrow> gpr c' r = 0)"
    if c: "can_swap c" "gpr c SI = ctx" "\<forall>x \<in> ctx_cells ctx. memory c x = m' x" for c
  proof -
    have s: "saved_x86_64 c x = m' x" if "x \<in> ctx_cells ctx" for x
      using that c saved_out [of x c] by (auto simp: can_swap_def)
    then have cells: "saved_x86_64 c (104 + ctx) = ?t" "saved_x86_64 c (72 + ctx) = f"
      using m' by (simp_all add: ctx_cells_def)
    let ?c = "\<lparr>gpr = area_x86_64 (saved_x86_64 c) ctx (gpr c),
      memory = (saved_x86_64 c)(?t - 8 := f), ip = f\<rparr>"
    have run: "foldR (exec 8) c context_swap_x86_64 = Inr ?c"
      using run_x86_64 [of c] c assms(1) top(1) cells by (simp add: can_swap_def)
    have "area_x86_64 (saved_x86_64 c) ctx (gpr c) r = 0" if "r \<notin> {SP, DI, R10, R11}" for r
      using that s m'(5) by (cases r) (simp_all add: ctx_cells_def)
    moreover have "area_x86_64 (saved_x86_64 c) ctx (gpr c) DI = s"
      using s m'(4) by (simp add: ctx_cells_def)
    ultimately show ?thesis using run cells by (intro exI [of _ ?c]) simp
  qed
  with m' top show ?thesis by (intro exI [of _ m']) (metis (no_types, lifting))
qed


theorem context_make_starts_witness:
  "\<exists>m' c'. context_make_x86_64 0x1000 0x400000 0x77 ((\<lambda>_. 0)(0x1078 := 0x10000, 0x1070 := 0x2000)) = Inr m' \<and>
     foldR (exec 8) \<lparr>gpr = (\<lambda>_. 3)(SI := 0x1000, DI := 0x3000, SP := 0x8000), memory = m', ip = 0\<rparr>
       context_swap_x86_64 = Inr c' \<and> ip c' = 0x400000 \<and> gpr c' DI = 0x77"
proof -
  let ?m = "(\<lambda>_. 0)(0x1078 := 0x10000, 0x1070 := 0x2000) :: u64 mem"
  have h: "aligned 8 (0x1000 :: u64)" "unat (?m (120 + 0x1000)) + unat (?m (112 + 0x1000)) < 2 ^ 64"
    "24 \<le> unat (?m (112 + 0x1000))" by simp_all
  obtain m' where m': "context_make_x86_64 0x1000 0x400000 0x77 ?m = Inr m'"
    and st: "\<And>c. can_swap c \<and> gpr c SI = 0x1000 \<and> (\<forall>x \<in> ctx_cells 0x1000. memory c x = m' x) \<Longrightarrow>
       \<exists>c'. foldR (exec 8) c context_swap_x86_64 = Inr c' \<and> ip c' = 0x400000 \<and> gpr c' DI = 0x77"
    using context_make_starts [OF h, of "0x400000" "0x77"] by blast
  show ?thesis using m' st [of "\<lparr>gpr = (\<lambda>_. 3)(SI := 0x1000, DI := 0x3000, SP := 0x8000), memory = m', ip = 0\<rparr>"]
    by (auto simp: ctx_cells_def can_swap_def)
qed

section \<open>i386\<close>

lemma aligned4_left [simp]: "aligned 4 (k :: u32) \<Longrightarrow> aligned 4 (k + a) \<longleftrightarrow> aligned 4 a"
  by (simp add: aligned_add add.commute [of k])

lemma aligned4 [simp]: "aligned 4 (k :: u32) \<Longrightarrow> aligned 4 (a + k) \<longleftrightarrow> aligned 4 a"
  by (simp add: aligned_add)

lemma aligned4_diff [simp]: "aligned 4 (k :: u32) \<Longrightarrow> aligned 4 (a - k) \<longleftrightarrow> aligned 4 a"
  using aligned4 [of k "a - k"] by simp

text \<open>
  On i386 the two arguments, the contexts \<open>curr\<close> and \<open>pending\<close>, are on the stack above the
  return address.
\<close>

definition saved_i386 :: "u32 cpu \<Rightarrow> u32 mem" where
  "saved_i386 c = (let a = memory c (4 + gpr c SP) in (memory c)
    (28 + a := gpr c SP + 4, 24 + a := gpr c BP, 20 + a := gpr c SI, 16 + a := gpr c DI,
     12 + a := gpr c DX, 8 + a := gpr c CX, 4 + a := gpr c BX, a := memory c (gpr c SP)))"

fun area_i386 :: "u32 mem \<Rightarrow> u32 \<Rightarrow> (reg \<Rightarrow> u32) \<Rightarrow> reg \<Rightarrow> u32" where
  "area_i386 m b old AX = 0"
| "area_i386 m b old BX = m (4 + b)"
| "area_i386 m b old CX = m (8 + b)"
| "area_i386 m b old DX = m (12 + b)"
| "area_i386 m b old DI = m (16 + b)"
| "area_i386 m b old SI = m (20 + b)"
| "area_i386 m b old BP = m (24 + b)"
| "area_i386 m b old SP = m (28 + b)"
| "area_i386 m b old r = old r"

definition ctx_cells_i386 :: "u32 \<Rightarrow> u32 set" where
  "ctx_cells_i386 a = {a, 4 + a, 8 + a, 12 + a, 16 + a, 20 + a, 24 + a, 28 + a}"

lemma area_i386_upd: "area_i386 M b g = g(BX := M (4 + b), CX := M (8 + b),
   DX := M (12 + b), DI := M (16 + b), SI := M (20 + b), BP := M (24 + b), AX := 0, SP := M (28 + b))"
proof
  fix r show "area_i386 M b g r = (g(BX := M (4 + b), CX := M (8 + b),
   DX := M (12 + b), DI := M (16 + b), SI := M (20 + b), BP := M (24 + b), AX := 0, SP := M (28 + b))) r"
    by (cases r) simp_all
qed

lemma restore_i386:
  assumes "aligned 4 b" "aligned 4 (M (28 + b))" "aligned 4 (g AX)" "M (4 + g AX) = b"
  shows "foldR (exec 4) \<lparr>gpr = g, memory = M, ip = i\<rparr> [MovMem 4 AX SP,
     Pop AX, Pop BX, Pop CX, Pop DX, Pop DI, Pop SI, Pop BP, Pop SP, Push AX, XorA, Ret] = Inr \<lparr>
     gpr = area_i386 M b g, memory = M(M (28 + b) - 4 := M b), ip = M b\<rparr>"
  using assms
  by (simp add: exec_explicit area_i386_upd add.commute [of b 4] add.commute [of "g AX" 4] del: exec.simps)

lemma save_i386:
  assumes "aligned 4 (g SP)" "aligned 4 (m (4 + g SP))" "g SP \<notin> ctx_cells_i386 (m (4 + g SP))"
  shows "foldR (exec 4) \<lparr>gpr = g, memory = m, ip = i\<rparr> [Lea 4 SP AX, MovMem 4 SP SP, Lea 32 SP SP,
     Push AX, Push BP, Push SI, Push DI, Push DX, Push CX, Push BX, PushMem (-4) AX] =
     Inr \<lparr>gpr = g(AX := g SP + 4, SP := m (4 + g SP)),
       memory = saved_i386 \<lparr>gpr = g, memory = m, ip = i\<rparr>, ip = i\<rparr>"
  using assms
  by (simp add: exec_explicit saved_i386_def ctx_cells_i386_def Let_def add.commute [of "g SP" 4]
     add.commute [of "m (4 + g SP)" 32] del: exec.simps)

lemma run_i386:
  assumes al: "aligned 4 (gpr c SP)" "aligned 4 (memory c (4 + gpr c SP))" "aligned 4 (memory c (8 + gpr c SP))"
      "aligned 4 (saved_i386 c (28 + memory c (8 + gpr c SP)))"
    and ra: "{gpr c SP, 8 + gpr c SP} \<inter> ctx_cells_i386 (memory c (4 + gpr c SP)) = {}"
  shows "foldR (exec 4) c context_swap_i386 = Inr \<lparr>
     gpr = area_i386 (saved_i386 c) (memory c (8 + gpr c SP)) (gpr c),
     memory = (saved_i386 c)(saved_i386 c (28 + memory c (8 + gpr c SP)) - 4 := saved_i386 c (memory c (8 + gpr c SP))),
     ip = saved_i386 c (memory c (8 + gpr c SP))\<rparr>"
proof -
  have split: "context_swap_i386 = [Lea 4 SP AX, MovMem 4 SP SP, Lea 32 SP SP,
     Push AX, Push BP, Push SI, Push DI, Push DX, Push CX, Push BX, PushMem (-4) AX] @ [MovMem 4 AX SP,
     Pop AX, Pop BX, Pop CX, Pop DX, Pop DI, Pop SI, Pop BP, Pop SP, Push AX, XorA, Ret]"
    by (simp add: context_swap_i386_def)
  obtain g m i where c: "c = \<lparr>gpr = g, memory = m, ip = i\<rparr>" by (cases c) auto
  let ?g = "g(AX := g SP + 4, SP := m (4 + g SP))" and ?b = "m (8 + g SP)"
  have b: "saved_i386 c (8 + g SP) = ?b"
    using ra c by (auto simp: saved_i386_def Let_def ctx_cells_i386_def)
  from al ra c have s: "foldR (exec 4) c context_swap_i386 = foldR (exec 4) \<lparr>gpr = ?g, memory = saved_i386 c, ip = i\<rparr>
     [MovMem 4 AX SP, Pop AX, Pop BX, Pop CX, Pop DX, Pop DI, Pop SI, Pop BP, Pop SP, Push AX, XorA, Ret]"
    unfolding split foldR_append c by (subst save_i386) auto
  also have "\<dots> = Inr \<lparr>gpr = area_i386 (saved_i386 c) ?b ?g,
     memory = (saved_i386 c)(saved_i386 c (28 + ?b) - 4 := saved_i386 c ?b), ip = saved_i386 c ?b\<rparr>"
    by (rule restore_i386) (use al c b in \<open>auto simp: add.assoc [symmetric]\<close>)
  also have "area_i386 (saved_i386 c) ?b ?g = area_i386 (saved_i386 c) ?b g"
    by (simp add: area_i386_upd)
  finally show ?thesis by (simp add: c fun_upd_def)
qed

lemma make_i386:
  assumes "aligned 4 ctx" and "aligned 4 (((m (36 + ctx) + m (32 + ctx)) - 4) AND - 16)"
    and "(((m (36 + ctx) + m (32 + ctx)) - 4) AND - 16) \<notin> ctx_cells_i386 ctx"
  shows "\<exists>m'. context_make_i386 ctx f s m = Inr m' \<and>
    m' (28 + ctx) = (((m (36 + ctx) + m (32 + ctx)) - 4) AND - 16) - 4 \<and> m' ctx = f \<and>
    m' (((m (36 + ctx) + m (32 + ctx)) - 4) AND - 16) = s \<and>
    (\<forall>k \<in> {4, 8, 12, 16, 20, 24}. m' (k + ctx) = 0)"
  using assms
  by (simp add: context_make_i386_def load_def store_def zero_cells_def upt_rec ctx_cells_i386_def Let_def
      add.commute [of ctx])


lemma saved_i386_out: "x \<notin> ctx_cells_i386 (memory c (4 + gpr c SP)) \<Longrightarrow> saved_i386 c x = memory c x"
  by (simp add: saved_i386_def ctx_cells_i386_def Let_def)

lemma stack_top_i386:
  fixes sp n :: u32
  assumes "unat sp + unat n < 2 ^ 32" and "32 \<le> unat n"
  defines "t \<equiv> (sp + n - 4) AND - 16"
  shows "aligned 4 t" "16 dvd unat t" "unat sp + 8 \<le> unat t" "unat t + 4 \<le> unat sp + unat n"
proof -
  have sum: "unat (sp + n) = unat sp + unat n" using assms(1) by (simp add: unat_word_ariths)
  then have four: "unat (sp + n - 4) = unat sp + unat n - 4"
    using assms(2) by (simp add: unat_sub word_le_nat_alt)
  have u: "unat t = unat sp + unat n - 4 - (unat sp + unat n - 4) mod 16"
    unfolding t_def by (subst and_minus_16) (simp_all only: four, simp_all)
  then show d: "16 dvd unat t" by (simp add: minus_mod_eq_mult_div)
  then have "4 dvd unat t" by presburger
  then show "aligned 4 t" by (simp add: aligned_def)
  have "(unat sp + unat n - 4) mod 16 < 16" by simp
  then show "unat sp + 8 \<le> unat t" "unat t + 4 \<le> unat sp + unat n" using u assms(2) by linarith+
qed

text \<open>
  C25. The same for i386, where the argument is passed in memory: the first swap to a prepared
  context enters \<open>fun\<close> with \<open>s\<close> in the argument slot above the return address, the slot
  aligned to 16 bytes and inside the stack.
\<close>

theorem context_make_starts_i386:
  fixes m :: "u32 mem"
  assumes "aligned 4 ctx" and "unat (m (36 + ctx)) + unat (m (32 + ctx)) < 2 ^ 32"
    and "32 \<le> unat (m (32 + ctx))"
    and "((m (36 + ctx) + m (32 + ctx)) - 4) AND - 16 \<notin> ctx_cells_i386 ctx"
  shows "\<exists>m' t. context_make_i386 ctx f s m = Inr m' \<and> unat (m (36 + ctx)) + 8 \<le> unat t \<and>
    unat t + 4 \<le> unat (m (36 + ctx)) + unat (m (32 + ctx)) \<and> 16 dvd unat t \<and>
    (\<forall>c. memory c (8 + gpr c SP) = ctx \<and> (\<forall>x \<in> insert t (ctx_cells_i386 ctx). memory c x = m' x) \<and>
       aligned 4 (memory c (4 + gpr c SP)) \<and> aligned 4 (gpr c SP) \<and>
       {gpr c SP, 8 + gpr c SP, t} \<inter> ctx_cells_i386 (memory c (4 + gpr c SP)) = {} \<and>
       ctx_cells_i386 (memory c (4 + gpr c SP)) \<inter> ctx_cells_i386 ctx = {} \<longrightarrow>
     (\<exists>c'. foldR (exec 4) c context_swap_i386 = Inr c' \<and> ip c' = f \<and> gpr c' SP + 4 = t \<and> memory c' t = s))"
proof -
  let ?t = "((m (36 + ctx) + m (32 + ctx)) - 4) AND - 16"
  note top = stack_top_i386 [OF assms(2,3)]
  obtain m' where m': "context_make_i386 ctx f s m = Inr m'" "m' (28 + ctx) = ?t - 4" "m' ctx = f" "m' ?t = s"
    using make_i386 [OF assms(1) top(1) assms(4), of f s] by blast
  have ne: "?t \<noteq> ?t - 4 - 4" by (simp add: diff_diff_eq)
  have "\<exists>c'. foldR (exec 4) c context_swap_i386 = Inr c' \<and> ip c' = f \<and> gpr c' SP + 4 = ?t \<and> memory c' ?t = s"
    if c: "memory c (8 + gpr c SP) = ctx" "\<forall>x \<in> insert ?t (ctx_cells_i386 ctx). memory c x = m' x"
      "aligned 4 (memory c (4 + gpr c SP))" "aligned 4 (gpr c SP)"
      "{gpr c SP, 8 + gpr c SP, ?t} \<inter> ctx_cells_i386 (memory c (4 + gpr c SP)) = {}"
      "ctx_cells_i386 (memory c (4 + gpr c SP)) \<inter> ctx_cells_i386 ctx = {}" for c
  proof -
    have "saved_i386 c x = m' x" if x: "x \<in> insert ?t (ctx_cells_i386 ctx)" for x
    proof -
      have "x \<notin> ctx_cells_i386 (memory c (4 + gpr c SP))" using x c(5,6) by blast
      then show ?thesis using saved_i386_out c(2) x by metis
    qed
    then have cells: "saved_i386 c (28 + ctx) = ?t - 4" "saved_i386 c ctx = f" "saved_i386 c ?t = s"
      using m' by (simp_all add: ctx_cells_i386_def)
    have "foldR (exec 4) c context_swap_i386 = Inr \<lparr>gpr = area_i386 (saved_i386 c) ctx (gpr c),
      memory = (saved_i386 c)(?t - 4 - 4 := f), ip = f\<rparr>" (is "_ = Inr ?c")
      using run_i386 [of c] c assms(1) top(1) cells by simp
    then show ?thesis using cells ne by (intro exI [of _ ?c]) simp
  qed
  with m'(1) top show ?thesis by (intro exI [of _ m'] exI [of _ ?t]) blast
qed


theorem context_make_starts_i386_witness:
  "\<exists>m' c' t. context_make_i386 0x1000 0x400000 0x77 ((\<lambda>_. 0)(0x1024 := 0x10000, 0x1020 := 0x2000)) = Inr m' \<and>
     foldR (exec 4) \<lparr>gpr = (\<lambda>_. 3)(SP := 0x8000), memory = m'(0x8004 := 0x3000, 0x8008 := 0x1000), ip = 0\<rparr>
       context_swap_i386 = Inr c' \<and> ip c' = 0x400000 \<and> gpr c' SP + 4 = t \<and> memory c' t = 0x77"
proof -
  let ?m = "(\<lambda>_. 0)(0x1024 := 0x10000, 0x1020 := 0x2000) :: u32 mem"
  have h: "aligned 4 (0x1000 :: u32)" "unat (?m (36 + 0x1000)) + unat (?m (32 + 0x1000)) < 2 ^ 32"
    "32 \<le> unat (?m (32 + 0x1000))"
    "((?m (36 + 0x1000) + ?m (32 + 0x1000)) - 4) AND - 16 \<notin> ctx_cells_i386 0x1000"
    by (simp_all add: ctx_cells_i386_def)
  obtain m' t where m': "context_make_i386 0x1000 0x400000 0x77 ?m = Inr m'"
      "unat (?m (36 + 0x1000)) + 8 \<le> unat t"
    and st: "\<And>c. memory c (8 + gpr c SP) = 0x1000 \<and> (\<forall>x \<in> insert t (ctx_cells_i386 0x1000). memory c x = m' x) \<and>
       aligned 4 (memory c (4 + gpr c SP)) \<and> aligned 4 (gpr c SP) \<and>
       {gpr c SP, 8 + gpr c SP, t} \<inter> ctx_cells_i386 (memory c (4 + gpr c SP)) = {} \<and>
       ctx_cells_i386 (memory c (4 + gpr c SP)) \<inter> ctx_cells_i386 0x1000 = {} \<Longrightarrow>
     \<exists>c'. foldR (exec 4) c context_swap_i386 = Inr c' \<and> ip c' = 0x400000 \<and> gpr c' SP + 4 = t \<and> memory c' t = 0x77"
    using context_make_starts_i386 [OF h, of "0x400000" "0x77"] by blast
  have big: "0x10008 \<le> unat t" using m'(2) by simp
  then have "t \<notin> {0x8004, 0x8008}" "t \<notin> ctx_cells_i386 0x3000" by (auto simp: ctx_cells_i386_def)
  then show ?thesis
    using m' st [of "\<lparr>gpr = (\<lambda>_. 3)(SP := 0x8000), memory = m'(0x8004 := 0x3000, 0x8008 := 0x1000), ip = 0\<rparr>"]
    by (auto simp: ctx_cells_i386_def)
qed

end
