(* ===== verification/Process.thy ===== *)
theory Process
  imports Timer_Wheel
begin

unbundle bit_operations_syntax

text \<open>
  The objects of the library: the structs of \<^verbatim>\<open>src/src/coroutine.h\<close>, \<^verbatim>\<open>coroutine_impl.h\<close>,
  \<^verbatim>\<open>coroutine_task.h\<close> and \<^verbatim>\<open>epoll.h\<close>, the process state that holds them, and the accesses
  the operations are written with.
\<close>

section \<open>Pointers and functions\<close>

text \<open>
  A \<open>void *\<close> is null, a pointer to a task, or a pointer the user supplied. A coroutine runs
  \<open>task_main\<close> or a function of the user.
\<close>

datatype vptr = NullPtr | TaskPtr nat | UserPtr nat

datatype coroutine_fun_t = Task_main | UserFun nat

section \<open>Structs\<close>

record coroutine_options_t =
  op_stack_size :: int
  op_task_per_thread :: int

record coroutine_task_attr_t =
  at_enable_sys_hook :: bool
  at_max_timeout_ms :: int
  at_arg :: vptr
  at_fun :: "coroutine_fun_t option"
  at_timeout :: "coroutine_fun_t option"

datatype state_t = INIT | RUNNING | STOPPED

datatype task_state_t = TASK_RUNNING | TASK_WAITING | TASK_END

text \<open>
  The register area of a context is zero, prepared by \<open>context_make\<close> to enter
  \<open>coroutine_main\<close>, or holds the registers saved by \<open>context_swap\<close> (theory \<open>Context_Switch\<close>
  shows what a swap to each of the last two does).
\<close>

datatype regs_t = Zeroed | Made | Saved

record context_t =
  cx_regs :: regs_t
  cx_size :: int
  cx_sp :: int

record coroutine_stack_t =
  cs_size :: int
  cs_start :: int
  cs_end :: int

record coroutine_t =
  co_fun :: "coroutine_fun_t option"
  co_env :: nat
  co_arg :: vptr
  co_main :: bool
  co_state :: state_t
  co_context :: context_t
  co_save_size :: nat
  co_save_buffer :: "(8 word) list option"
  co_stack :: "coroutine_stack_t option"
  co_task :: "nat option"
  co_spec :: "vptr list"

record task_t =
  tk_coroutine :: "nat option"
  tk_arg :: vptr
  tk_state :: task_state_t
  tk_pool :: nat
  tk_next :: "nat option"
  tk_attr :: coroutine_task_attr_t
  tk_timeout :: bool
  tk_leftmsec :: int
  tk_start :: u64
  tk_last :: u64

record taskpool_t =
  tp_tasks :: "nat option list"
  tp_free :: "nat option"
  tp_size :: int
  tp_working :: int

record epoll_event =
  ee_events :: u32
  ee_ptr :: "nat option"

record epoll_result_t =
  er_size :: int
  er_events :: "epoll_event list"

record epoll_context_t =
  ep_fd :: int
  ep_size :: int
  ep_now :: u64
  ep_timer :: epoll_timer_t
  ep_store :: timer_store
  ep_result :: "epoll_result_t option"

record pollfd =
  pf_fd :: int
  pf_events :: "16 word"
  pf_revents :: "16 word"

text \<open>
  \<open>pi_self\<close> points to element \<open>i\<close> of the array \<open>fds\<close> of the poll context, \<open>pi_poll\<close> to the
  context; \<open>pi_time\<close> and \<open>pc_time\<close> are the addresses of the embedded timer items. \<open>pc_items_malloc\<close>
  is the comparison \<open>arg.items != items\<close>: the items are in a block of their own and not in the array on
  the stack.
\<close>

record poll_item_t =
  pi_self :: nat
  pi_poll :: nat
  pi_time :: nat
  pi_event :: epoll_event

record poll_context_t =
  pc_fds :: "pollfd list"
  pc_nfds :: nat
  pc_time :: nat
  pc_items :: "poll_item_t list"
  pc_items_malloc :: bool
  pc_allEventDetatch :: bool
  pc_raise_cnt :: int

record env_t =
  ev_callstack :: "nat option list"
  ev_callstacksize :: int
  ev_epoll :: epoll_context_t
  ev_pool :: "taskpool_t option"
  ev_arg :: vptr
  ev_occupy :: "nat option"
  ev_pending :: "nat option"

text \<open>
  The blocks that \<open>poll_inner\<close> takes from the allocator for its context: the copies of the descriptors,
  and the items when there are too many for the array on the stack.
\<close>

datatype block = FdsBlock nat | ItemsBlock nat

text \<open>
  The state of the process. Environments are named by their thread, coroutines, tasks and poll
  contexts by their addresses; \<open>next_id\<close> is the first name of an object and \<open>brk\<close> the first
  address of stack memory that the allocator has not handed out (an allocation never fails); \<open>heap\<close>
  has the blocks of poll contexts that have not been freed.
  \<open>running t\<close> is the coroutine whose registers are on the processor in thread \<open>t\<close>;
  \<open>restored\<close> lists the coroutines onto whose stack \<open>coroutine_swap\<close> has copied a saved buffer.
  \<open>world\<close> is the state of the kernel and of the C library, of which the model knows nothing.
\<close>

record 'k process =
  gOptions :: coroutine_options_t
  gEnv :: "nat \<rightharpoonup> env_t"
  coroutines :: "nat \<rightharpoonup> coroutine_t"
  tasks :: "nat \<rightharpoonup> task_t"
  polls :: "nat \<rightharpoonup> poll_context_t"
  heap :: "block set"
  brk :: int
  next_id :: nat
  running :: "nat \<rightharpoonup> nat"
  restored :: "nat list"
  c_errno :: "nat \<Rightarrow> int"
  world :: 'k

text \<open>
  The calls of the kernel and the C library that the runtime makes, as functions on the world.
  \<open>epoll_ctl\<close> is given the event it reads, which is none when an entry is deleted (the pointer is
  ignored then), and also gives the value it leaves in \<open>errno\<close> when it fails; \<open>epoll_wait\<close> gives
  that value alone (\<open>Inl\<close>) or the events; \<open>pthread_getspecific\<close> and
  \<open>pthread_setspecific\<close> are given the calling thread.
\<close>

datatype epoll_op = EPOLL_CTL_ADD | EPOLL_CTL_DEL

record 'k kernel =
  k_gettimeofday :: "'k \<Rightarrow> (u64 \<times> u64) \<times> 'k"
  k_epoll_create :: "int \<Rightarrow> 'k \<Rightarrow> int \<times> 'k"
  k_epoll_ctl :: "int \<Rightarrow> epoll_op \<Rightarrow> int \<Rightarrow> epoll_event option \<Rightarrow> 'k \<Rightarrow> (int \<times> int) \<times> 'k"
  k_epoll_wait :: "int \<Rightarrow> int \<Rightarrow> int \<Rightarrow> 'k \<Rightarrow> (int + epoll_event list) \<times> 'k"
  k_pthread_getspecific :: "nat \<Rightarrow> nat \<Rightarrow> 'k \<Rightarrow> vptr \<times> 'k"
  k_pthread_setspecific :: "nat \<Rightarrow> nat \<Rightarrow> vptr \<Rightarrow> 'k \<Rightarrow> int \<times> 'k"

section \<open>Constants\<close>

definition kMaxCallStack :: nat where "kMaxCallStack = 128"
definition kMinStackSize :: int where "kMinStackSize = 128 * 1024"
definition kMaxStackSize :: int where "kMaxStackSize = 8 * 1024 * 1024"
definition kMaxTimeoutMs :: int where "kMaxTimeoutMs = 10"
definition kDefaultTaskPerThread :: int where "kDefaultTaskPerThread = 1000"

text \<open>The number of entries of the array \<open>gEnv\<close> and of \<open>spec\<close> in a coroutine.\<close>

definition gEnv_size :: nat where "gEnv_size = 204800"
definition spec_size :: nat where "spec_size = 1024"

section \<open>Accesses\<close>

definition get_co :: "'k process \<Rightarrow> nat option \<Rightarrow> coroutine_t c_result" where
  "get_co p c = deref (coroutines p) c"

definition set_co :: "'k process \<Rightarrow> nat option \<Rightarrow> (coroutine_t \<Rightarrow> coroutine_t) \<Rightarrow> 'k process c_result" where
  "set_co p c f = bindR (get_co p c) (\<lambda>co. Inr (p\<lparr>coroutines := (coroutines p)(the c \<mapsto> f co)\<rparr>))"

definition get_task :: "'k process \<Rightarrow> nat option \<Rightarrow> task_t c_result" where
  "get_task p t = deref (tasks p) t"

definition set_task :: "'k process \<Rightarrow> nat option \<Rightarrow> (task_t \<Rightarrow> task_t) \<Rightarrow> 'k process c_result" where
  "set_task p t f = bindR (get_task p t) (\<lambda>tk. Inr (p\<lparr>tasks := (tasks p)(the t \<mapsto> f tk)\<rparr>))"

text \<open>The environment of thread \<open>t\<close>, through a pointer that is null when there is none.\<close>

definition get_env :: "'k process \<Rightarrow> nat \<Rightarrow> env_t c_result" where
  "get_env p t = (case gEnv p t of None \<Rightarrow> Inl NullDeref | Some env \<Rightarrow> Inr env)"

definition set_env :: "'k process \<Rightarrow> nat \<Rightarrow> (env_t \<Rightarrow> env_t) \<Rightarrow> 'k process c_result" where
  "set_env p t f = bindR (get_env p t) (\<lambda>env. Inr (p\<lparr>gEnv := (gEnv p)(t \<mapsto> f env)\<rparr>))"

definition get_pool :: "'k process \<Rightarrow> nat \<Rightarrow> taskpool_t c_result" where
  "get_pool p t = bindR (get_env p t) (\<lambda>env.
     case ev_pool env of None \<Rightarrow> Inl NullDeref | Some pool \<Rightarrow> Inr pool)"

definition set_pool :: "'k process \<Rightarrow> nat \<Rightarrow> (taskpool_t \<Rightarrow> taskpool_t) \<Rightarrow> 'k process c_result" where
  "set_pool p t f = bindR (get_pool p t) (\<lambda>pool. set_env p t (\<lambda>env. env\<lparr>ev_pool := Some (f pool)\<rparr>))"

lemmas proc_access = get_co_def set_co_def get_task_def set_task_def get_env_def set_env_def
  get_pool_def set_pool_def

text \<open>Reading and writing an array by a signed index.\<close>

definition array_get :: "'a list \<Rightarrow> int \<Rightarrow> 'a c_result" where
  "array_get xs i = (if 0 \<le> i \<and> i < int (length xs) then Inr (xs ! nat i) else Inl OutOfBounds)"

definition array_set :: "'a list \<Rightarrow> int \<Rightarrow> 'a \<Rightarrow> 'a list c_result" where
  "array_set xs i v = (if 0 \<le> i \<and> i < int (length xs) then Inr (xs[nat i := v]) else Inl OutOfBounds)"

lemma array_get_ok [simp]: "0 \<le> i \<Longrightarrow> i < int (length xs) \<Longrightarrow> array_get xs i = Inr (xs ! nat i)"
  by (simp add: array_get_def)

lemma array_set_ok [simp]: "0 \<le> i \<Longrightarrow> i < int (length xs) \<Longrightarrow> array_set xs i v = Inr (xs[nat i := v])"
  by (simp add: array_set_def)

end
