(* ===== verification/Epoll_Context.thy ===== *)
theory Epoll_Context
  imports Process
begin

text \<open>
  The clock (\<^verbatim>\<open>src/src/misc.c\<close>) and the allocation of the epoll context
  (\<^verbatim>\<open>src/src/epoll.c\<close>, lines 7 to 82): the wrappers of the epoll calls, the result array, the
  context with its timer wheel and its two lists, and their release.
\<close>

section \<open>The clock and the epoll calls\<close>

definition GetTickMS :: "'k kernel \<Rightarrow> 'k process \<Rightarrow> u64 \<times> 'k process" where
  "GetTickMS K p =
     (let ((tv_sec, tv_usec), w) = k_gettimeofday K (world p);
          u = tv_sec;
          u = u * 1000;
          u = u + tv_usec div 1000
      in (u, p\<lparr>world := w\<rparr>))"

definition do_epoll_create :: "'k kernel \<Rightarrow> 'k process \<Rightarrow> int \<Rightarrow> int \<times> 'k process" where
  "do_epoll_create K p n = (let (fd, w) = k_epoll_create K n (world p) in (fd, p\<lparr>world := w\<rparr>))"

definition do_epoll_ctl ::
  "'k kernel \<Rightarrow> nat \<Rightarrow> 'k process \<Rightarrow> int \<Rightarrow> epoll_op \<Rightarrow> int \<Rightarrow> epoll_event option \<Rightarrow> int \<times> 'k process" where
  "do_epoll_ctl K t p epfd op fd ev =
     (let ((ret, err), w) = k_epoll_ctl K epfd op fd ev (world p)
      in (ret, p\<lparr>world := w, c_errno := (if ret < 0 then (c_errno p)(t := err) else c_errno p)\<rparr>))"

text \<open>
  \<open>epoll_wait\<close> fills the first entries of the result array and returns how many, or fails with the
  value \<open>-1\<close> and sets \<open>errno\<close>. The kernel never writes more than \<open>maxevents\<close> entries; an array
  shorter than what it writes is a write past the end.
\<close>

definition do_epoll_wait ::
  "'k kernel \<Rightarrow> nat \<Rightarrow> 'k process \<Rightarrow> int \<Rightarrow> epoll_result_t \<Rightarrow> int \<Rightarrow> int
   \<Rightarrow> (int \<times> epoll_result_t \<times> 'k process) c_result" where
  "do_epoll_wait K t p epfd result maxevents ms =
     (case k_epoll_wait K epfd maxevents ms (world p) of
        (Inl err, w) \<Rightarrow> Inr (-1, result, p\<lparr>world := w, c_errno := (c_errno p)(t := err)\<rparr>)
      | (Inr evs, w) \<Rightarrow>
          if length (er_events result) < length evs then Inl OutOfBounds
          else Inr (int (length evs),
                    result\<lparr>er_events := evs @ drop (length evs) (er_events result)\<rparr>, p\<lparr>world := w\<rparr>))"

section \<open>The context\<close>

definition zero_event :: epoll_event where
  "zero_event = \<lparr>ee_events = 0, ee_ptr = None\<rparr>"

definition alloc_epoll_result :: "int \<Rightarrow> epoll_result_t" where
  "alloc_epoll_result n = \<lparr>er_size = n, er_events = replicate (nat n) zero_event\<rparr>"

definition empty_store :: timer_store where
  "empty_store = \<lparr>items = Map.empty, lists = Map.empty\<rparr>"

definition alloc_epoll :: "'k kernel \<Rightarrow> 'k process \<Rightarrow> int \<Rightarrow> epoll_context_t \<times> 'k process" where
  "alloc_epoll K p n =
     (let (fd, p) = do_epoll_create K p n;
          (now, p) = GetTickMS K p;
          (s, timer) = alloc_timer empty_store 60000 now;
          s = s\<lparr>lists := (lists s)(ActiveList \<mapsto> empty_list, TimeoutList \<mapsto> empty_list)\<rparr>
      in (\<lparr>ep_fd = fd, ep_size = n, ep_now = 0, ep_timer = timer, ep_store = s, ep_result = None\<rparr>, p))"

definition get_epoll_now :: "epoll_context_t \<Rightarrow> u64" where
  "get_epoll_now epoll = ep_now epoll"

text \<open>
  \<open>free_epoll\<close> gives back the two lists, the result array and the wheel; what is left of the
  store afterwards are the items, which belong to their users.
\<close>

definition free_epoll_result :: "epoll_result_t option \<Rightarrow> epoll_result_t option" where
  "free_epoll_result ret = (case ret of None \<Rightarrow> ret | Some r \<Rightarrow> None)"

definition free_epoll :: "epoll_context_t option \<Rightarrow> (timer_store \<times> epoll_result_t option) option" where
  "free_epoll epoll =
     (case epoll of
        None \<Rightarrow> None
      | Some ep \<Rightarrow>
          let s = (ep_store ep)\<lparr>lists := (lists (ep_store ep))(ActiveList := None, TimeoutList := None)\<rparr>;
              r = free_epoll_result (ep_result ep)
          in Some (free_timer s (ep_timer ep), r))"

text \<open>A fresh context has an empty, well-formed wheel, unless the clock reads zero.\<close>

lemma alloc_epoll_inv:
  assumes "alloc_epoll K p n = (ep, p')" and "et_start (ep_timer ep) \<noteq> 0"
  shows "wheel_inv (ep_store ep) (\<lambda>_. []) (ep_timer ep)"
  using assms
  by (auto simp: alloc_epoll_def alloc_timer_def wheel_inv_def wf_store_def dlist_def fold_slots
      has_list_def empty_list_def empty_store_def split: list_ref.splits if_splits prod.splits
      simp del: upt_rec_numeral)

lemma alloc_epoll_world:
  "world p = world q \<Longrightarrow> alloc_epoll K p n =
     (fst (alloc_epoll K q n), p\<lparr>world := world (snd (alloc_epoll K q n))\<rparr>)"
  by (simp add: alloc_epoll_def do_epoll_create_def GetTickMS_def Let_def alloc_timer_def split_beta)

lemma alloc_epoll_start:
  "et_start (ep_timer (fst (alloc_epoll K p n))) = fst (GetTickMS K (snd (do_epoll_create K p n)))"
  by (simp add: alloc_epoll_def alloc_timer_def Let_def split_beta del: upt_rec_numeral)

end
