(* ===== verification/Coroutine_Env.thy ===== *)
theory Coroutine_Env
  imports Epoll_Context
begin

text \<open>
  Coroutines, thread environments and the call stack of coroutines
  (\<^verbatim>\<open>src/src/coroutine_impl.c\<close>, lines 17 to 225 and 464 to 517). A switch of control is split
  where the processor leaves a function: \<open>coroutine_swap\<close> is the code up to and including the
  call of \<open>context_swap\<close>, \<open>coroutine_swap_back\<close> what the coroutine executes when it is swapped in
  again. The names \<open>t\<close> and \<open>e\<close> stand for the current thread and for the thread whose
  environment is meant.
\<close>

section \<open>Operations\<close>

text \<open>\<open>gEnv\<close> is indexed by the thread's number, which nothing compares with its size.\<close>

definition get_curr_thread_env :: "'k process \<Rightarrow> nat \<Rightarrow> env_t option c_result" where
  "get_curr_thread_env p t = (if t < gEnv_size then Inr (gEnv p t) else Inl OutOfBounds)"

definition alloc_stack :: "'k process \<Rightarrow> int \<Rightarrow> coroutine_stack_t \<times> 'k process" where
  "alloc_stack p n =
     (let start = brk p
      in (\<lparr>cs_size = n, cs_start = start, cs_end = start + n\<rparr>, p\<lparr>brk := start + n\<rparr>))"

definition zero_coroutine :: coroutine_t where
  "zero_coroutine =
     \<lparr>co_fun = None, co_env = 0, co_arg = NullPtr, co_main = False, co_state = INIT,
      co_context = \<lparr>cx_regs = Zeroed, cx_size = 0, cx_sp = 0\<rparr>, co_save_size = 0, co_save_buffer = None,
      co_stack = None, co_task = None, co_spec = replicate spec_size NullPtr\<rparr>"

definition create_env ::
  "'k process \<Rightarrow> nat \<Rightarrow> coroutine_fun_t option \<Rightarrow> vptr \<Rightarrow> nat \<times> 'k process" where
  "create_env p e func arg =
     (let stack_size = op_stack_size (gOptions p);
          c = next_id p;
          p = p\<lparr>next_id := Suc c\<rparr>;
          co = zero_coroutine\<lparr>co_env := e, co_fun := func, co_arg := arg, co_state := INIT\<rparr>;
          (stack, p) = alloc_stack p stack_size;
          co = co\<lparr>co_stack := Some stack,
                  co_context := (co_context co)\<lparr>cx_sp := cs_start stack, cx_size := stack_size\<rparr>,
                  co_save_size := 0, co_save_buffer := None\<rparr>
      in (c, p\<lparr>coroutines := (coroutines p)(c \<mapsto> co)\<rparr>))"

text \<open>\<open>context_init\<close> clears the whole context, the bounds of the stack included.\<close>

definition context_init :: context_t where
  "context_init = \<lparr>cx_regs = Zeroed, cx_size = 0, cx_sp = 0\<rparr>"

text \<open>
  The first code of a thread: its environment, with a coroutine that stands for the thread
  itself at the bottom of the call stack. The processor is running that coroutine.
\<close>

definition init_curr_thread_env :: "'k kernel \<Rightarrow> 'k process \<Rightarrow> nat \<Rightarrow> 'k process c_result" where
  "init_curr_thread_env K p t =
     (if \<not> t < gEnv_size then Inl OutOfBounds
      else
        let callstack = replicate kMaxCallStack None;
            callstacksize = 0;
            (c, p) = create_env p t None NullPtr
        in
          bindR (set_co p (Some c) (\<lambda>co. co\<lparr>co_main := True, co_context := context_init\<rparr>)) (\<lambda>p.
          bindR (array_set callstack callstacksize (Some c)) (\<lambda>callstack.
          let (ep, p) = alloc_epoll K p 10240;
              env = \<lparr>ev_callstack = callstack, ev_callstacksize = callstacksize + 1, ev_epoll = ep,
                     ev_pool = None, ev_arg = NullPtr, ev_occupy = None, ev_pending = None\<rparr>
          in Inr (p\<lparr>gEnv := (gEnv p)(t \<mapsto> env), running := (running p)(t \<mapsto> c)\<rparr>))))"

definition coroutine_free :: "'k process \<Rightarrow> nat \<Rightarrow> 'k process" where
  "coroutine_free p c = p\<lparr>coroutines := (coroutines p)(c := None)\<rparr>"

text \<open>
  A swap to a context whose registers are still zero jumps to address zero. The address of a
  local variable that is stored in \<open>curr->stack_sp\<close> is the only thing left out: it is read
  nowhere but in the copy that \<open>restored\<close> records.
\<close>

definition coroutine_swap ::
  "'k process \<Rightarrow> nat \<Rightarrow> nat option \<Rightarrow> nat option \<Rightarrow> 'k process c_result" where
  "coroutine_swap p t cur pend =
     bindR (get_curr_thread_env p t) (\<lambda>_.
     bindR (get_co p cur) (\<lambda>_.
     bindR (set_env p t (\<lambda>env. env\<lparr>ev_pending := None, ev_occupy := None\<rparr>)) (\<lambda>p.
     bindR (set_co p cur (\<lambda>co. co\<lparr>co_context := (co_context co)\<lparr>cx_regs := Saved\<rparr>\<rparr>)) (\<lambda>p.
     bindR (get_co p pend) (\<lambda>co.
     case cx_regs (co_context co) of
       Zeroed \<Rightarrow> Inl NullDeref
     | _ \<Rightarrow> Inr (p\<lparr>running := (running p)(t := pend)\<rparr>))))))"

definition coroutine_swap_back :: "'k process \<Rightarrow> nat \<Rightarrow> 'k process c_result" where
  "coroutine_swap_back p t =
     bindR (get_curr_thread_env p t) (\<lambda>_.
     bindR (get_env p t) (\<lambda>env.
     let update_occupy = ev_occupy env; update_pending = ev_pending env in
     if update_occupy \<noteq> None \<and> update_pending \<noteq> None \<and> update_occupy \<noteq> update_pending then
       bindR (get_co p update_pending) (\<lambda>co.
       if co_save_buffer co \<noteq> None \<and> co_save_size co > 0
       then Inr (p\<lparr>restored := restored p @ [the update_pending]\<rparr>)
       else Inr p)
     else Inr p))"

definition yield_env :: "'k process \<Rightarrow> nat \<Rightarrow> nat \<Rightarrow> 'k process c_result" where
  "yield_env p t e =
     bindR (get_env p e) (\<lambda>env.
     let n = ev_callstacksize env in
     bindR (array_get (ev_callstack env) (n - 2)) (\<lambda>last.
     bindR (array_get (ev_callstack env) (n - 1)) (\<lambda>curr.
     bindR (set_env p e (\<lambda>env. env\<lparr>ev_callstacksize := ev_callstacksize env - 1\<rparr>)) (\<lambda>p.
     coroutine_swap p t curr last))))"

definition coroutine_resume :: "'k process \<Rightarrow> nat \<Rightarrow> nat option \<Rightarrow> 'k process c_result" where
  "coroutine_resume p t c =
     bindR (get_co p c) (\<lambda>co.
     let e = co_env co in
     bindR (get_env p e) (\<lambda>env.
     bindR (array_get (ev_callstack env) (ev_callstacksize env - 1)) (\<lambda>curr.
     bindR (if co_state co \<noteq> RUNNING
            then set_co p c (\<lambda>co. co\<lparr>co_context := (co_context co)\<lparr>cx_regs := Made\<rparr>, co_state := RUNNING\<rparr>)
            else Inr p) (\<lambda>p.
     bindR (array_set (ev_callstack env) (ev_callstacksize env) c) (\<lambda>cs.
     bindR (set_env p e (\<lambda>env. env\<lparr>ev_callstack := cs, ev_callstacksize := ev_callstacksize env + 1\<rparr>)) (\<lambda>p.
     coroutine_swap p t curr c))))))"

definition coroutine_yield :: "'k process \<Rightarrow> nat \<Rightarrow> nat option \<Rightarrow> 'k process c_result" where
  "coroutine_yield p t c = bindR (get_co p c) (\<lambda>co. yield_env p t (co_env co))"

definition coroutine_yield_context :: "'k process \<Rightarrow> nat \<Rightarrow> 'k process c_result" where
  "coroutine_yield_context p t = bindR (get_curr_thread_env p t) (\<lambda>_. yield_env p t t)"

text \<open>
  The code a coroutine enters with: it calls \<open>co->fun\<close> (\<open>coroutine_main_enter\<close>, no call when it
  is null); when that returns it stops and yields (\<open>coroutine_main_exit\<close>).
\<close>

definition coroutine_main_enter ::
  "'k process \<Rightarrow> nat option \<Rightarrow> (coroutine_fun_t \<times> vptr) option c_result" where
  "coroutine_main_enter p c = bindR (get_co p c) (\<lambda>co.
     Inr (case co_fun co of Some f \<Rightarrow> Some (f, co_arg co) | None \<Rightarrow> None))"

definition coroutine_main_exit :: "'k process \<Rightarrow> nat \<Rightarrow> nat option \<Rightarrow> 'k process c_result" where
  "coroutine_main_exit p t c =
     bindR (set_co p c (\<lambda>co. co\<lparr>co_state := STOPPED\<rparr>)) (\<lambda>p.
     bindR (get_co p c) (\<lambda>co. yield_env p t (co_env co)))"

definition curr_coroutine :: "env_t \<Rightarrow> nat option c_result" where
  "curr_coroutine env = array_get (ev_callstack env) (ev_callstacksize env - 1)"

definition coroutine_self :: "'k process \<Rightarrow> nat \<Rightarrow> nat option c_result" where
  "coroutine_self p t = bindR (get_curr_thread_env p t) (\<lambda>env.
     case env of None \<Rightarrow> Inr None | Some env \<Rightarrow> curr_coroutine env)"

definition get_curr_coroutine :: "env_t \<Rightarrow> nat option c_result" where
  "get_curr_coroutine env = array_get (ev_callstack env) (ev_callstacksize env - 1)"

definition get_curr_thread_coroutine :: "'k process \<Rightarrow> nat \<Rightarrow> nat option c_result" where
  "get_curr_thread_coroutine p t = bindR (get_curr_thread_env p t) (\<lambda>env.
     case env of None \<Rightarrow> Inr None | Some env \<Rightarrow> get_curr_coroutine env)"

definition coroutine_arg :: "'k process \<Rightarrow> nat \<Rightarrow> vptr c_result" where
  "coroutine_arg p t =
     bindR (coroutine_self p t) (\<lambda>c.
     if c = None then Inr NullPtr
     else bindR (get_co p c) (\<lambda>co.
       if co_task co \<noteq> None then bindR (get_task p (co_task co)) (\<lambda>task. Inr (tk_arg task))
       else Inr NullPtr))"

definition coroutine_thread_arg :: "'k process \<Rightarrow> nat \<Rightarrow> vptr c_result" where
  "coroutine_thread_arg p t = bindR (get_curr_thread_env p t) (\<lambda>env.
     case env of None \<Rightarrow> Inr NullPtr | Some env \<Rightarrow> Inr (ev_arg env))"

definition get_now :: "'k process \<Rightarrow> nat \<Rightarrow> u64 c_result" where
  "get_now p t = bindR (get_curr_thread_env p t) (\<lambda>_. bindR (get_env p t) (\<lambda>env.
     Inr (get_epoll_now (ev_epoll env))))"

definition coroutine_getspecific ::
  "'k kernel \<Rightarrow> 'k process \<Rightarrow> nat \<Rightarrow> nat \<Rightarrow> (vptr \<times> 'k process) c_result" where
  "coroutine_getspecific K p t key =
     bindR (get_curr_thread_coroutine p t) (\<lambda>c.
     let fallback = (let (v, w) = k_pthread_getspecific K t key (world p) in Inr (v, p\<lparr>world := w\<rparr>)) in
     if c = None then fallback
     else bindR (get_co p c) (\<lambda>co.
       if co_main co then fallback
       else bindR (array_get (co_spec co) (int key)) (\<lambda>v. Inr (v, p))))"

definition coroutine_setspecific ::
  "'k kernel \<Rightarrow> 'k process \<Rightarrow> nat \<Rightarrow> nat \<Rightarrow> vptr \<Rightarrow> (int \<times> 'k process) c_result" where
  "coroutine_setspecific K p t key v =
     bindR (get_curr_thread_coroutine p t) (\<lambda>c.
     let fallback = (let (r, w) = k_pthread_setspecific K t key v (world p) in Inr (r, p\<lparr>world := w\<rparr>)) in
     if c = None then fallback
     else bindR (get_co p c) (\<lambda>co.
       if co_main co then fallback
       else bindR (array_set (co_spec co) (int key) v) (\<lambda>spec.
            bindR (set_co p c (\<lambda>co. co\<lparr>co_spec := spec\<rparr>)) (\<lambda>p. Inr (0, p)))))"

text \<open>The options as \<open>coroutine_init_env\<close> stores them.\<close>

definition adjust_options :: "coroutine_options_t \<Rightarrow> coroutine_options_t" where
  "adjust_options options =
     (let opts = options;
          stack_size = op_stack_size opts;
          stack_size = (if stack_size < kMinStackSize then kMinStackSize
                        else if stack_size > kMaxStackSize then kMaxStackSize else stack_size);
          stack_size = (if stack_size AND 0xFFF \<noteq> 0 then (stack_size AND NOT 0xFFF) + 0x1000 else stack_size);
          opts = opts\<lparr>op_stack_size := stack_size\<rparr>
      in if op_task_per_thread opts = 0 then opts\<lparr>op_task_per_thread := kDefaultTaskPerThread\<rparr> else opts)"

section \<open>The call stack\<close>

lemmas switch_defs = coroutine_swap_def get_curr_thread_env_def proc_access Let_def

text \<open>
  \<open>stack_ok p t xs\<close>: the environment of thread \<open>t\<close> has the coroutines \<open>xs\<close> on its call stack,
  the thread's own coroutine first and the running one last; those below the running one have
  their registers saved.
\<close>

definition env_stack :: "env_t \<Rightarrow> nat list \<Rightarrow> bool" where
  "env_stack env xs \<longleftrightarrow> length (ev_callstack env) = kMaxCallStack \<and>
     ev_callstacksize env = int (length xs) \<and> take (length xs) (ev_callstack env) = map Some xs \<and>
     ev_occupy env = None \<and> ev_pending env = None"

definition co_of :: "'k process \<Rightarrow> nat \<Rightarrow> nat \<Rightarrow> bool" where
  "co_of p t c \<longleftrightarrow> (\<exists>co. coroutines p c = Some co \<and> co_env co = t)"

definition saved :: "'k process \<Rightarrow> nat \<Rightarrow> bool" where
  "saved p c \<longleftrightarrow> (\<exists>co. coroutines p c = Some co \<and> cx_regs (co_context co) = Saved)"

definition stack_ok :: "'k process \<Rightarrow> nat \<Rightarrow> nat list \<Rightarrow> bool" where
  "stack_ok p t xs \<longleftrightarrow> t < gEnv_size \<and> (\<exists>env. gEnv p t = Some env \<and> env_stack env xs) \<and>
     xs \<noteq> [] \<and> length xs \<le> kMaxCallStack \<and> distinct xs \<and> (\<forall>c \<in> set xs. co_of p t c) \<and>
     (\<forall>c \<in> set (butlast xs). saved p c) \<and> running p t = Some (last xs)"

text \<open>A coroutine that control can be given to: it is started anew or has its registers saved.\<close>

definition ready :: "'k process \<Rightarrow> nat \<Rightarrow> nat \<Rightarrow> bool" where
  "ready p t c \<longleftrightarrow> (\<exists>co. coroutines p c = Some co \<and> co_env co = t \<and>
     (co_state co = RUNNING \<longrightarrow> cx_regs (co_context co) \<noteq> Zeroed))"

text \<open>What a switch does to the coroutine it leaves and to the one it starts.\<close>

definition mark_saved :: "coroutine_t \<Rightarrow> coroutine_t" where
  "mark_saved co = co\<lparr>co_context := (co_context co)\<lparr>cx_regs := Saved\<rparr>\<rparr>"

definition mark_running :: "coroutine_t \<Rightarrow> coroutine_t" where
  "mark_running co = (if co_state co \<noteq> RUNNING
     then co\<lparr>co_context := (co_context co)\<lparr>cx_regs := Made\<rparr>, co_state := RUNNING\<rparr> else co)"

definition push_env :: "nat \<Rightarrow> env_t \<Rightarrow> env_t" where
  "push_env c env = env\<lparr>ev_callstack := (ev_callstack env)[nat (ev_callstacksize env) := Some c],
     ev_callstacksize := ev_callstacksize env + 1, ev_pending := None, ev_occupy := None\<rparr>"

definition pop_env :: "env_t \<Rightarrow> env_t" where
  "pop_env env = env\<lparr>ev_callstacksize := ev_callstacksize env - 1, ev_pending := None, ev_occupy := None\<rparr>"

lemma mark_simps [simp]:
  "co_env (mark_saved co) = co_env co" "co_env (mark_running co) = co_env co"
  "co_state (mark_saved co) = co_state co" "co_state (mark_running co) = RUNNING"
  "cx_regs (co_context (mark_saved co)) = Saved"
  by (simp_all add: mark_saved_def mark_running_def)

lemma stack_nth:
  assumes "env_stack env xs" and "i < length xs"
  shows "ev_callstack env ! i = Some (xs ! i)"
proof -
  from assms have "take (length xs) (ev_callstack env) ! i = map Some xs ! i" by (simp add: env_stack_def)
  with assms(2) show ?thesis by simp
qed

lemma stack_len: "env_stack env xs \<Longrightarrow> length xs \<le> kMaxCallStack"
  unfolding env_stack_def by (metis length_map length_take min.cobounded1)

lemma env_stack_push:
  assumes "env_stack env xs" and "length xs < kMaxCallStack"
  shows "env_stack (push_env c env) (xs @ [c])"
  using assms by (auto simp: env_stack_def push_env_def take_Suc_conv_app_nth)

lemma env_stack_pop:
  assumes "env_stack env (xs @ [c])"
  shows "env_stack (pop_env env) xs"
proof -
  from assms have eq: "take (Suc (length xs)) (ev_callstack env) = map Some xs @ [Some c]"
    by (simp add: env_stack_def)
  have "take (length xs) (ev_callstack env) = take (length xs) (take (Suc (length xs)) (ev_callstack env))"
    by (simp add: min_def)
  also have "\<dots> = map Some xs" by (simp add: eq del: take_take)
  finally show ?thesis using assms by (simp add: env_stack_def pop_env_def)
qed

text \<open>The last two entries, as the code reads them.\<close>

lemma array_top:
  assumes "env_stack env xs" and "xs \<noteq> []"
  shows "array_get (ev_callstack env) (ev_callstacksize env - 1) = Inr (Some (last xs))"
proof -
  have "nat (int (length xs) - 1) = length xs - 1" using assms by simp
  with assms stack_nth [OF assms(1), of "length xs - 1"] stack_len [OF assms(1)] show ?thesis
    by (auto simp: array_get_def env_stack_def last_conv_nth Suc_le_eq)
qed

lemma array_below_top:
  assumes "env_stack env (xs @ [a, b])"
  shows "array_get (ev_callstack env) (ev_callstacksize env - 2) = Inr (Some a)"
  using assms stack_nth [OF assms, of "length xs"] stack_len [OF assms]
  by (auto simp: array_get_def env_stack_def nth_append)

section \<open>Switching\<close>

lemma coroutine_resume_run:
  assumes st: "stack_ok p t xs" and c: "coroutines p c = Some co" "co_env co = t" "c \<notin> set xs"
    and r: "ready p t c" and n: "length xs < kMaxCallStack"
    and env: "gEnv p t = Some env" and cur: "coroutines p (last xs) = Some cur"
  shows "coroutine_resume p t (Some c) =
    Inr (p\<lparr>coroutines := (coroutines p)(c \<mapsto> mark_running co, last xs \<mapsto> mark_saved cur),
           gEnv := (gEnv p)(t \<mapsto> push_env c env), running := (running p)(t \<mapsto> c)\<rparr>)"
proof -
  from st env have e: "env_stack env xs" and ne: "xs \<noteq> []" and t: "t < gEnv_size"
    by (auto simp: stack_ok_def)
  from c(3) ne have d: "last xs \<noteq> c" by auto
  have triv: "(coroutines p)(c \<mapsto> co) = coroutines p" using c(1) by auto
  have "array_set (ev_callstack env) (ev_callstacksize env) (Some c) =
      Inr ((ev_callstack env)[nat (ev_callstacksize env) := Some c])"
    using e n by (simp add: env_stack_def)
  with d c r env cur t array_top [OF e ne] show ?thesis
    by (auto simp: coroutine_resume_def switch_defs mark_running_def mark_saved_def push_env_def
        ready_def triv split: regs_t.splits)
qed

lemma yield_env_run:
  assumes st: "stack_ok p t (xs @ [a, b])" and env: "gEnv p t = Some env"
    and b: "coroutines p b = Some co"
  shows "yield_env p t t =
    Inr (p\<lparr>coroutines := (coroutines p)(b \<mapsto> mark_saved co),
           gEnv := (gEnv p)(t \<mapsto> pop_env env), running := (running p)(t \<mapsto> a)\<rparr>)"
proof -
  from st env have e: "env_stack env (xs @ [a, b])" and t: "t < gEnv_size" and d: "a \<noteq> b"
    and "saved p a" by (auto simp: stack_ok_def butlast_append)
  then obtain ca where "coroutines p a = Some ca" "cx_regs (co_context ca) = Saved"
    by (auto simp: saved_def)
  with d t b env array_top [OF e] array_below_top [OF e] show ?thesis
    by (simp add: yield_env_def switch_defs mark_saved_def pop_env_def)
qed

text \<open>
  What a switch leaves alone: everything but the registers and the state of the two coroutines
  and the call stack of the thread.
\<close>

definition co_static :: "coroutine_t \<Rightarrow> coroutine_t" where
  "co_static co = co\<lparr>co_context := (co_context co)\<lparr>cx_regs := Zeroed\<rparr>, co_state := INIT\<rparr>"

definition env_static :: "env_t \<Rightarrow> env_t" where
  "env_static env = env\<lparr>ev_callstack := [], ev_callstacksize := 0, ev_pending := None, ev_occupy := None\<rparr>"

definition switch_frame :: "nat \<Rightarrow> 'k process \<Rightarrow> 'k process \<Rightarrow> bool" where
  "switch_frame t p p' \<longleftrightarrow>
     (\<forall>c. map_option co_static (coroutines p' c) = map_option co_static (coroutines p c)) \<and>
     (\<forall>c co. coroutines p c = Some co \<longrightarrow> co_env co \<noteq> t \<longrightarrow> coroutines p' c = Some co) \<and>
     (\<forall>e. e \<noteq> t \<longrightarrow> gEnv p' e = gEnv p e \<and> running p' e = running p e) \<and>
     map_option env_static (gEnv p' t) = map_option env_static (gEnv p t) \<and>
     p'\<lparr>coroutines := Map.empty, gEnv := Map.empty, running := Map.empty\<rparr> =
     p\<lparr>coroutines := Map.empty, gEnv := Map.empty, running := Map.empty\<rparr>"

lemma co_static_mark [simp]: "co_static (mark_saved co) = co_static co" "co_static (mark_running co) = co_static co"
  by (simp_all add: co_static_def mark_saved_def mark_running_def)

lemma env_static_push_pop [simp]: "env_static (push_env c env) = env_static env" "env_static (pop_env env) = env_static env"
  by (simp_all add: env_static_def push_env_def pop_env_def)

lemma switch_frame_refl [simp]: "switch_frame t p p"
  by (simp add: switch_frame_def)

lemma switch_frame_trans: "switch_frame t p q \<Longrightarrow> switch_frame t q r \<Longrightarrow> switch_frame t p r"
  unfolding switch_frame_def
  by simp

text \<open>One switch, with what the coroutine that is swapped in executes first.\<close>

definition switched :: "'k process \<Rightarrow> nat \<Rightarrow> 'k process c_result" where
  "switched p t = bindR (get_co p (running p t)) (\<lambda>co.
     if cx_regs (co_context co) = Saved then coroutine_swap_back p t else Inr p)"

datatype switch_op = Resume nat | Yield

fun do_switch :: "nat \<Rightarrow> 'k process \<Rightarrow> switch_op \<Rightarrow> 'k process c_result" where
  "do_switch t p (Resume c) = bindR (coroutine_resume p t (Some c)) (\<lambda>p. switched p t)"
| "do_switch t p Yield = bindR (coroutine_yield_context p t) (\<lambda>p. switched p t)"

text \<open>Coming back is without effect: nothing ever sets \<open>occupy\<close> and \<open>pending\<close>.\<close>

lemma swap_back_id: "stack_ok p t xs \<Longrightarrow> coroutine_swap_back p t = Inr p"
  by (auto simp: stack_ok_def coroutine_swap_back_def switch_defs env_stack_def)

lemma switched_id:
  assumes "stack_ok p t xs"
  shows "switched p t = Inr p"
proof -
  from assms obtain co where "running p t = Some (last xs)" "coroutines p (last xs) = Some co"
    by (force simp: stack_ok_def co_of_def)
  moreover from assms have "coroutine_swap_back p t = Inr p" by (rule swap_back_id)
  ultimately show ?thesis by (simp add: switched_def get_co_def)
qed

lemma stack_co_env: "stack_ok p t xs \<Longrightarrow> c \<in> set xs \<Longrightarrow> coroutines p c = Some co \<Longrightarrow> co_env co = t"
  by (auto simp: stack_ok_def co_of_def)

lemma in_butlast: "x \<in> set xs \<Longrightarrow> x \<noteq> last xs \<Longrightarrow> x \<in> set (butlast xs)"
  by (induction xs) auto

lemma mark_running_regs: "ready p t c \<Longrightarrow> coroutines p c = Some co \<Longrightarrow>
    cx_regs (co_context (mark_running co)) \<noteq> Zeroed"
  by (auto simp: ready_def mark_running_def)

text \<open>The states after the two switches, as the run lemmas give them.\<close>

definition resumed :: "'k process \<Rightarrow> nat \<Rightarrow> nat list \<Rightarrow> nat \<Rightarrow> 'k process" where
  "resumed p t xs c =
     p\<lparr>coroutines := (coroutines p)(c \<mapsto> mark_running (the (coroutines p c)),
                                    last xs \<mapsto> mark_saved (the (coroutines p (last xs)))),
       gEnv := (gEnv p)(t \<mapsto> push_env c (the (gEnv p t))), running := (running p)(t \<mapsto> c)\<rparr>"

definition yielded :: "'k process \<Rightarrow> nat \<Rightarrow> nat list \<Rightarrow> 'k process" where
  "yielded p t xs =
     p\<lparr>coroutines := (coroutines p)(last xs \<mapsto> mark_saved (the (coroutines p (last xs)))),
       gEnv := (gEnv p)(t \<mapsto> pop_env (the (gEnv p t))), running := (running p)(t \<mapsto> last (butlast xs))\<rparr>"

lemma stack_ok_bound: "stack_ok p t xs \<Longrightarrow> t < gEnv_size"
  by (simp add: stack_ok_def)

lemma stack_ok_env: "stack_ok p t xs \<Longrightarrow> \<exists>env. gEnv p t = Some env \<and> env_stack env xs"
  by (simp add: stack_ok_def)

lemma stack_ok_last: "stack_ok p t xs \<Longrightarrow> \<exists>co. coroutines p (last xs) = Some co \<and> co_env co = t"
  by (simp add: stack_ok_def co_of_def)

lemma coroutine_resume_resumed:
  assumes st: "stack_ok p t xs" and c: "c \<notin> set xs" and r: "ready p t c" and n: "length xs < kMaxCallStack"
  shows "coroutine_resume p t (Some c) = Inr (resumed p t xs c)" and "stack_ok (resumed p t xs c) t (xs @ [c])"
proof -
  from r obtain co where co: "coroutines p c = Some co" "co_env co = t" by (auto simp: ready_def)
  from stack_ok_env [OF st] obtain env where env: "gEnv p t = Some env" "env_stack env xs" by blast
  from stack_ok_last [OF st] obtain cur where cur: "coroutines p (last xs) = Some cur" "co_env cur = t" by blast
  from c st have d: "last xs \<noteq> c" by (auto simp: stack_ok_def)
  show "coroutine_resume p t (Some c) = Inr (resumed p t xs c)"
    using coroutine_resume_run [OF st co c r n env(1) cur(1)] co env cur by (simp add: resumed_def)
  show "stack_ok (resumed p t xs c) t (xs @ [c])"
    using st c n co cur d env env_stack_push [OF env(2) n]
    by (auto simp: stack_ok_def co_of_def saved_def resumed_def dest: in_butlast)
qed

lemma yield_env_yielded:
  assumes st: "stack_ok p t (xs @ [a, b])"
  shows "yield_env p t t = Inr (yielded p t (xs @ [a, b]))" and "stack_ok (yielded p t (xs @ [a, b])) t (xs @ [a])"
proof -
  from stack_ok_env [OF st] obtain env where env: "gEnv p t = Some env" "env_stack env (xs @ [a, b])" by blast
  from stack_ok_last [OF st] obtain co where co: "coroutines p b = Some co" "co_env co = t" by auto
  show "yield_env p t t = Inr (yielded p t (xs @ [a, b]))"
    using yield_env_run [OF st env(1) co(1)] env co by (simp add: yielded_def butlast_append)
  show "stack_ok (yielded p t (xs @ [a, b])) t (xs @ [a])"
    using st co env env_stack_pop [of env "xs @ [a]" b]
    by (auto simp: stack_ok_def co_of_def saved_def butlast_append yielded_def)
qed

lemma resumed_frame:
  assumes "stack_ok p t xs" and "ready p t c" and "c \<notin> set xs"
  shows "switch_frame t p (resumed p t xs c)" and "ready p t d \<Longrightarrow> ready (resumed p t xs c) t d"
proof -
  from stack_ok_env [OF assms(1)] stack_ok_last [OF assms(1)] assms(2) obtain env cur co
    where "gEnv p t = Some env" "coroutines p (last xs) = Some cur" "co_env cur = t"
      and co: "coroutines p c = Some co" "co_env co = t" unfolding ready_def by blast
  moreover from assms(1,3) have "last xs \<noteq> c" by (auto simp: stack_ok_def)
  ultimately show "switch_frame t p (resumed p t xs c)" and "ready p t d \<Longrightarrow> ready (resumed p t xs c) t d"
    using mark_running_regs [OF assms(2) co(1)] by (auto simp: switch_frame_def resumed_def ready_def)
qed

lemma yielded_frame:
  assumes "stack_ok p t xs"
  shows "switch_frame t p (yielded p t xs)" and "ready p t d \<Longrightarrow> ready (yielded p t xs) t d"
proof -
  from stack_ok_env [OF assms] stack_ok_last [OF assms] obtain env co
    where "gEnv p t = Some env" "coroutines p (last xs) = Some co" "co_env co = t" by blast
  then show "switch_frame t p (yielded p t xs)" and "ready p t d \<Longrightarrow> ready (yielded p t xs) t d"
    by (auto simp: switch_frame_def yielded_def ready_def)
qed

lemma resume_step:
  assumes "stack_ok p t xs" and "c \<notin> set xs" and "ready p t c" and "length xs < kMaxCallStack"
  shows "do_switch t p (Resume c) = Inr (resumed p t xs c)" and "stack_ok (resumed p t xs c) t (xs @ [c])"
  using coroutine_resume_resumed [OF assms] switched_id by auto

lemma yield_step:
  assumes st: "stack_ok p t (xs @ [a, b])"
  shows "do_switch t p Yield = Inr (yielded p t (xs @ [a, b]))" and "stack_ok (yielded p t (xs @ [a, b])) t (xs @ [a])"
  using yield_env_yielded [OF st] switched_id stack_ok_bound [OF st]
  by (auto simp: coroutine_yield_context_def get_curr_thread_env_def)

text \<open>What \<open>stack_ok\<close> depends on.\<close>

lemma stack_ok_cong:
  assumes "stack_ok p t xs" and "gEnv p' t = Some env'" and "env_stack env' xs"
    and "running p' t = running p t"
    and "\<And>c. c \<in> set xs \<Longrightarrow> co_of p t c \<Longrightarrow> co_of p' t c" and "\<And>c. c \<in> set xs \<Longrightarrow> saved p c \<Longrightarrow> saved p' c"
  shows "stack_ok p' t xs"
  using assms by (auto simp: stack_ok_def dest: in_set_butlastD)

section \<open>The call stack as a stack\<close>

text \<open>
  What the users of the call stack (the task pool, \<open>poll_inner\<close>, the event loop) rely on: a
  coroutine that is ready and not active can be pushed while there is room, and everything but
  the thread's own coroutine can be popped. \<open>run_stack\<close> is the specification.
\<close>

fun step_stack :: "nat set \<Rightarrow> nat \<Rightarrow> nat list \<Rightarrow> switch_op \<Rightarrow> nat list option" where
  "step_stack R n xs (Resume c) = (if c \<in> R \<and> c \<notin> set xs \<and> length xs < n then Some (xs @ [c]) else None)"
| "step_stack R n xs Yield = (if 2 \<le> length xs then Some (butlast xs) else None)"

fun run_stack :: "nat set \<Rightarrow> nat \<Rightarrow> nat list \<Rightarrow> switch_op list \<Rightarrow> nat list option" where
  "run_stack R n xs [] = Some xs"
| "run_stack R n xs (op # ops) =
     (case step_stack R n xs op of None \<Rightarrow> None | Some ys \<Rightarrow> run_stack R n ys ops)"

lemma two_at_end:
  assumes "2 \<le> length xs"
  obtains zs a b where "xs = zs @ [a, b]"
proof -
  from assms obtain ys b where ys: "xs = ys @ [b]" by (cases xs rule: rev_cases) auto
  with assms obtain zs a where "ys = zs @ [a]" by (cases ys rule: rev_cases) auto
  with ys that show thesis by simp
qed

locale coroutine_control =
  fixes stacked :: "'s \<Rightarrow> nat list \<Rightarrow> bool"
    and can_run :: "'s \<Rightarrow> nat \<Rightarrow> bool"
    and same :: "'s \<Rightarrow> 's \<Rightarrow> bool"
    and switch :: "'s \<Rightarrow> switch_op \<Rightarrow> 's c_result"
    and room :: nat
  assumes resume_law: "stacked s xs \<Longrightarrow> c \<notin> set xs \<Longrightarrow> can_run s c \<Longrightarrow> length xs < room \<Longrightarrow>
      \<exists>s'. switch s (Resume c) = Inr s' \<and> stacked s' (xs @ [c]) \<and> same s s' \<and> (\<forall>d. can_run s d \<longrightarrow> can_run s' d)"
    and yield_law: "stacked s (xs @ [a, b]) \<Longrightarrow>
      \<exists>s'. switch s Yield = Inr s' \<and> stacked s' (xs @ [a]) \<and> same s s' \<and> (\<forall>d. can_run s d \<longrightarrow> can_run s' d)"
    and same_refl: "same s s"
    and same_trans: "same s s' \<Longrightarrow> same s' s'' \<Longrightarrow> same s s''"
begin

lemma step_refines:
  assumes "stacked s xs" and "\<forall>c \<in> R. can_run s c" and "step_stack R room xs op = Some ys"
  shows "\<exists>s'. switch s op = Inr s' \<and> stacked s' ys \<and> same s s' \<and> (\<forall>c \<in> R. can_run s' c)"
proof (cases op)
  case (Resume c)
  with assms resume_law [of s xs c] show ?thesis by (auto split: if_splits)
next
  case Yield
  with assms(3) have len: "2 \<le> length xs" and ys: "ys = butlast xs" by (auto split: if_splits)
  from len obtain zs a b where "xs = zs @ [a, b]"
    by (rule two_at_end)
  with assms yield_law [of s zs a b] Yield ys show ?thesis by (auto simp: butlast_append)
qed

lemma run_refines:
  assumes "stacked s xs" and "\<forall>c \<in> R. can_run s c" and "run_stack R room xs ops = Some ys"
  shows "\<exists>s'. foldR switch s ops = Inr s' \<and> stacked s' ys \<and> same s s'"
  using assms
proof (induction ops arbitrary: s xs)
  case Nil
  then show ?case by (auto simp: same_refl)
next
  case (Cons op ops)
  then obtain zs where zs: "step_stack R room xs op = Some zs" "run_stack R room zs ops = Some ys"
    by (auto split: option.splits)
  from step_refines [OF Cons.prems(1,2) zs(1)] obtain s' where s': "switch s op = Inr s'" "stacked s' zs"
    "same s s'" "\<forall>c \<in> R. can_run s' c" by blast
  from Cons.IH [OF s'(2,4) zs(2)] s' show ?case by (auto intro: same_trans)
qed

end

interpretation cc: coroutine_control "\<lambda>p. stack_ok p t" "\<lambda>p. ready p t" "switch_frame t" "do_switch t" kMaxCallStack
proof unfold_locales
  show "\<exists>s'. do_switch t s (Resume c) = Inr s' \<and> stack_ok s' t (xs @ [c]) \<and> switch_frame t s s' \<and>
      (\<forall>d. ready s t d \<longrightarrow> ready s' t d)"
    if "stack_ok s t xs" "c \<notin> set xs" "ready s t c" "length xs < kMaxCallStack" for s :: "'k process" and xs c
    by (intro exI [of _ "resumed s t xs c"] conjI allI impI resume_step [OF that] resumed_frame [OF that(1,3,2)])
  show "\<exists>s'. do_switch t s Yield = Inr s' \<and> stack_ok s' t (xs @ [a]) \<and> switch_frame t s s' \<and>
      (\<forall>d. ready s t d \<longrightarrow> ready s' t d)"
    if "stack_ok s t (xs @ [a, b])" for s :: "'k process" and xs a b
    by (intro exI [of _ "yielded s t (xs @ [a, b])"] conjI allI impI yield_step [OF that] yielded_frame [OF that])
qed (auto intro: switch_frame_trans)

section \<open>Properties\<close>

lemma self_is_running:
  assumes "stack_ok p t xs"
  shows "coroutine_self p t = Inr (Some (last xs))" and "running p t = Some (last xs)"
  using assms array_top by (auto simp: stack_ok_def coroutine_self_def get_curr_thread_env_def curr_coroutine_def)

lemma curr_thread_is_running:
  assumes "stack_ok p t xs"
  shows "get_curr_thread_coroutine p t = Inr (Some (last xs))"
  using assms array_top
  by (auto simp: stack_ok_def get_curr_thread_coroutine_def get_curr_thread_env_def get_curr_coroutine_def)

text \<open>A thread with its own coroutine \<open>0\<close> and two fresh ones, used in the examples below.\<close>

definition demo_env :: env_t where
  "demo_env = \<lparr>ev_callstack = Some 0 # replicate 127 None, ev_callstacksize = 1,
     ev_epoll = \<lparr>ep_fd = 3, ep_size = 10240, ep_now = 0,
        ep_timer = \<lparr>et_size = 1, et_start = 1, et_start_idx = 0\<rparr>, ep_store = empty_store, ep_result = None\<rparr>,
     ev_pool = None, ev_arg = NullPtr, ev_occupy = None, ev_pending = None\<rparr>"

definition demo_process :: "unit process" where
  "demo_process = \<lparr>gOptions = \<lparr>op_stack_size = 131072, op_task_per_thread = 2\<rparr>,
     gEnv = [7 \<mapsto> demo_env],
     coroutines = [0 \<mapsto> zero_coroutine\<lparr>co_env := 7, co_main := True\<rparr>,
                   1 \<mapsto> zero_coroutine\<lparr>co_env := 7\<rparr>, 2 \<mapsto> zero_coroutine\<lparr>co_env := 7\<rparr>],
     tasks = Map.empty, polls = Map.empty, heap = {}, brk = 0, next_id = 3, running = [7 \<mapsto> 0],
     restored = [], c_errno = (\<lambda>_. 0), world = ()\<rparr>"

lemma demo_stack: "stack_ok demo_process 7 [0]"
  by (simp add: stack_ok_def demo_process_def demo_env_def env_stack_def co_of_def gEnv_size_def
      kMaxCallStack_def zero_coroutine_def)

lemma demo_ready: "ready demo_process 7 1" "ready demo_process 7 2"
  by (simp_all add: ready_def demo_process_def zero_coroutine_def)

text \<open>
  C3. The call stack of coroutines behaves as a stack, whatever the order of switches: for every
  sequence of \<open>coroutine_resume\<close> (of coroutines \<open>R\<close> of the thread) and
  \<open>coroutine_yield_context\<close> that the specification \<open>run_stack\<close> accepts, the code runs without a
  fault, the active coroutines are those of the specification, the running coroutine and
  \<open>coroutine_self\<close> are the last of them, and nothing but the call stack and the registers and
  state of the coroutines has changed.
\<close>

theorem call_stack_refines:
  assumes "stack_ok p t xs" and "\<forall>c \<in> R. ready p t c" and "run_stack R kMaxCallStack xs ops = Some ys"
  shows "\<exists>p'. foldR (do_switch t) p ops = Inr p' \<and> stack_ok p' t ys \<and> switch_frame t p p' \<and>
    running p' t = Some (last ys) \<and> coroutine_self p' t = Inr (Some (last ys))"
  using cc.run_refines [OF assms] self_is_running by blast

theorem call_stack_refines_witness:
  "\<exists>p'. foldR (do_switch 7) demo_process [Resume 1, Resume 2, Yield, Yield, Resume 2] = Inr p' \<and>
    running p' 7 = Some 2"
proof -
  have "run_stack {1, 2} kMaxCallStack [0] [Resume 1, Resume 2, Yield, Yield, Resume 2] = Some [0, 2]"
    by (simp add: kMaxCallStack_def)
  moreover have "\<forall>c \<in> {1, 2}. ready demo_process 7 c" using demo_ready by simp
  ultimately show ?thesis using call_stack_refines [OF demo_stack, of "{1, 2}"] by fastforce
qed

text \<open>
  C36. The two ends of the call stack, which the code does not check: resuming a coroutine when
  \<open>kMaxCallStack\<close> coroutines are active writes past the end of \<open>callstack\<close>, and yielding from the
  thread's own coroutine reads \<open>callstack[-1]\<close>.
\<close>

theorem call_stack_limits:
  assumes "stack_ok p t xs"
  shows "(length xs = kMaxCallStack \<and> co_of p t c \<longrightarrow> do_switch t p (Resume c) = Inl OutOfBounds) \<and>
    (length xs = 1 \<longrightarrow> do_switch t p Yield = Inl OutOfBounds)"
proof (intro conjI impI)
  from assms obtain env where env: "gEnv p t = Some env" "env_stack env xs" and xs: "xs \<noteq> []" "t < gEnv_size"
    by (auto simp: stack_ok_def)
  note top = array_top [OF env(2) xs(1)]
  show "do_switch t p (Resume c) = Inl OutOfBounds" if "length xs = kMaxCallStack \<and> co_of p t c"
    using that env top
    by (auto simp: coroutine_resume_def co_of_def proc_access Let_def env_stack_def array_set_def)
  show "do_switch t p Yield = Inl OutOfBounds" if "length xs = 1"
    using that env xs
    by (auto simp: coroutine_yield_context_def yield_env_def get_curr_thread_env_def get_env_def
        env_stack_def array_get_def)
qed

text \<open>A call stack with all entries in use.\<close>

definition deep_process :: "unit process" where
  "deep_process = demo_process\<lparr>
     gEnv := [7 \<mapsto> demo_env\<lparr>ev_callstack := map Some [0..<128], ev_callstacksize := 128\<rparr>],
     coroutines := (\<lambda>c. Some (mark_saved zero_coroutine\<lparr>co_env := 7\<rparr>)), running := [7 \<mapsto> 127]\<rparr>"

lemma deep_stack: "stack_ok deep_process 7 [0..<128]"
proof -
  have "[0..<128] = [0..<127] @ [127 :: nat]" by (simp flip: upt_Suc_append)
  moreover have "last [0..<128] = (127 :: nat)" by simp
  ultimately show ?thesis
    by (simp add: stack_ok_def deep_process_def demo_process_def demo_env_def env_stack_def co_of_def saved_def
      gEnv_size_def kMaxCallStack_def take_map del: upt_rec_numeral)
qed

theorem call_stack_limits_witness:
  "do_switch 7 demo_process Yield = Inl OutOfBounds \<and> do_switch 7 deep_process (Resume 200) = Inl OutOfBounds"
proof -
  have "co_of deep_process 7 200" by (simp add: co_of_def deep_process_def)
  then show ?thesis
    using call_stack_limits [OF demo_stack] call_stack_limits [OF deep_stack, of 200]
    by (simp add: kMaxCallStack_def)
qed

lemma and_fff: "(n :: int) AND 0xFFF = n mod 4096" "(n :: int) AND NOT 0xFFF = n - n mod 4096"
proof -
  have m: "(0xFFF :: int) = mask 12" by (simp add: mask_eq_exp_minus_1)
  show "n AND 0xFFF = n mod 4096" unfolding m by (simp add: take_bit_eq_mask [symmetric] take_bit_eq_mod)
  have "n AND NOT (mask 12) = push_bit 12 (drop_bit 12 n)"
    by (rule bit_eqI) (auto simp: bit_simps)
  then show "n AND NOT 0xFFF = n - n mod 4096" unfolding m
    by (simp add: push_bit_eq_mult drop_bit_eq_div minus_mod_eq_div_mult)
qed

text \<open>Rounding up to the page size.\<close>

definition round_page :: "int \<Rightarrow> int" where
  "round_page n = (if n AND 0xFFF \<noteq> 0 then (n AND NOT 0xFFF) + 0x1000 else n)"

lemma round_page_bounds: "round_page n mod 4096 = 0" "n \<le> round_page n" "round_page n < n + 4096"
proof -
  have b: "0 \<le> n mod 4096" "n mod 4096 < 4096" by simp_all
  have "(n - n mod 4096 + 4096) mod 4096 = 0" by (simp add: minus_mod_eq_mult_div)
  then show "round_page n mod 4096 = 0" unfolding round_page_def and_fff by simp
  obtain r where r: "n mod 4096 = r" by simp
  from b show "n \<le> round_page n" "round_page n < n + 4096" unfolding round_page_def and_fff r by simp_all
qed

lemma round_page_max:
  assumes "n \<le> kMaxStackSize"
  shows "round_page n \<le> kMaxStackSize"
proof -
  from round_page_bounds(1) [of n] obtain k where "round_page n = 4096 * k" by (auto simp: mod_eq_0_iff_dvd)
  with assms round_page_bounds(3) [of n] show ?thesis unfolding kMaxStackSize_def by simp
qed

lemma adjust_options_bounds:
  assumes "opts' = adjust_options opts"
  shows "op_stack_size opts' mod 4096 = 0 \<and> kMinStackSize \<le> op_stack_size opts' \<and>
    op_stack_size opts' \<le> kMaxStackSize \<and>
    (kMinStackSize \<le> op_stack_size opts \<and> op_stack_size opts \<le> kMaxStackSize \<longrightarrow>
       op_stack_size opts \<le> op_stack_size opts' \<and> op_stack_size opts' < op_stack_size opts + 4096)"
    and "op_task_per_thread opts' =
      (if op_task_per_thread opts = 0 then kDefaultTaskPerThread else op_task_per_thread opts)"
proof -
  let ?n = "op_stack_size opts"
  let ?m = "if ?n < kMinStackSize then kMinStackSize else if ?n > kMaxStackSize then kMaxStackSize else ?n"
  have "op_stack_size opts' = round_page ?m"
    unfolding assms adjust_options_def round_page_def Let_def by simp
  moreover have "kMinStackSize \<le> ?m" "?m \<le> kMaxStackSize"
    by (simp_all add: kMinStackSize_def kMaxStackSize_def)
  ultimately show "op_stack_size opts' mod 4096 = 0 \<and> kMinStackSize \<le> op_stack_size opts' \<and>
    op_stack_size opts' \<le> kMaxStackSize \<and>
    (kMinStackSize \<le> op_stack_size opts \<and> op_stack_size opts \<le> kMaxStackSize \<longrightarrow>
       op_stack_size opts \<le> op_stack_size opts' \<and> op_stack_size opts' < op_stack_size opts + 4096)"
    using round_page_bounds [of ?m] round_page_max [of ?m] by (simp split: if_splits)
qed (simp add: assms adjust_options_def Let_def)

section \<open>Values of a coroutine\<close>

text \<open>The value coroutine \<open>c\<close> keeps under \<open>key\<close>.\<close>

definition spec_of :: "'k process \<Rightarrow> nat \<Rightarrow> nat \<Rightarrow> vptr option" where
  "spec_of p c key = (case coroutines p c of None \<Rightarrow> None
     | Some co \<Rightarrow> if co_main co \<or> length (co_spec co) \<le> key then None else Some (co_spec co ! key))"

lemma co_spec_static: "co_spec (co_static co) = co_spec co" "co_main (co_static co) = co_main co"
  by (simp_all add: co_static_def)

lemma spec_of_switch: "switch_frame t p p' \<Longrightarrow> spec_of p' c key = spec_of p c key"
proof -
  assume "switch_frame t p p'"
  then have "map_option co_static (coroutines p' c) = map_option co_static (coroutines p c)"
    by (simp add: switch_frame_def)
  then show ?thesis
    by (cases "coroutines p c"; cases "coroutines p' c")
       (simp_all add: spec_of_def, metis co_spec_static)
qed

lemma getspecific_own:
  assumes "stack_ok p t xs" and "spec_of p (last xs) key = Some v"
  shows "coroutine_getspecific K p t key = Inr (v, p)"
  using assms curr_thread_is_running [OF assms(1)]
  by (auto simp: coroutine_getspecific_def spec_of_def get_co_def split: option.splits if_splits)

lemma setspecific_own:
  assumes st: "stack_ok p t xs" and v: "spec_of p (last xs) key = Some v0"
  obtains p' where "coroutine_setspecific K p t key v = Inr (0, p')" "stack_ok p' t xs"
    "\<And>c k. spec_of p' c k = (if c = last xs \<and> k = key then Some v else spec_of p c k)"
    "\<And>c. ready p t c \<Longrightarrow> ready p' t c"
proof -
  from v obtain co where co: "coroutines p (last xs) = Some co" "\<not> co_main co" "key < length (co_spec co)"
    by (auto simp: spec_of_def split: option.splits if_splits)
  let ?p = "p\<lparr>coroutines := (coroutines p)(last xs \<mapsto> co\<lparr>co_spec := (co_spec co)[key := v]\<rparr>)\<rparr>"
  have "coroutine_setspecific K p t key v = Inr (0, ?p)"
    using co curr_thread_is_running [OF st] by (simp add: coroutine_setspecific_def proc_access)
  moreover have "stack_ok ?p t xs"
    using st co stack_co_env [OF st _ co(1)] by (auto simp: stack_ok_def co_of_def saved_def)
  moreover have "spec_of ?p c k = (if c = last xs \<and> k = key then Some v else spec_of p c k)" for c k
    using co by (auto simp: spec_of_def)
  moreover have "ready ?p t c" if "ready p t c" for c
    using that co by (auto simp: ready_def)
  ultimately show thesis using that [of ?p] by blast
qed

text \<open>
  C15. A value set by \<open>coroutine_setspecific\<close> belongs to the coroutine that set it: after any
  sequence of switches, \<open>coroutine_getspecific\<close> gives the new value if that coroutine runs again,
  and if another coroutine runs it gives what that coroutine had under the key before.
\<close>

theorem specific_is_per_coroutine:
  assumes "stack_ok p t xs" and "\<forall>c \<in> R. ready p t c" and "spec_of p (last xs) key = Some v0"
    and "run_stack R kMaxCallStack xs ops = Some ys" and "spec_of p (last ys) key = Some v1"
  shows "\<exists>p1 p2. coroutine_setspecific K p t key v = Inr (0, p1) \<and> foldR (do_switch t) p1 ops = Inr p2 \<and>
    coroutine_getspecific K p2 t key = Inr (if last ys = last xs then v else v1, p2)"
proof -
  obtain p1 where p1: "coroutine_setspecific K p t key v = Inr (0, p1)" "stack_ok p1 t xs"
    "\<And>c k. spec_of p1 c k = (if c = last xs \<and> k = key then Some v else spec_of p c k)"
    "\<And>c. ready p t c \<Longrightarrow> ready p1 t c"
    by (rule setspecific_own [OF assms(1,3)]) blast
  with assms(2) have "\<forall>c \<in> R. ready p1 t c" by blast
  from cc.run_refines [OF p1(2) this assms(4)] obtain p2 where p2: "foldR (do_switch t) p1 ops = Inr p2"
    "stack_ok p2 t ys" "switch_frame t p1 p2" by blast
  have "spec_of p2 (last ys) key = Some (if last ys = last xs then v else v1)"
    using spec_of_switch [OF p2(3)] p1(3) assms(5) by simp
  from getspecific_own [OF p2(2) this] p1(1) p2(1) show ?thesis by blast
qed

text \<open>The thread of the example while coroutine \<open>1\<close> runs, and a kernel that does nothing.\<close>

definition busy_process :: "unit process" where
  "busy_process = demo_process\<lparr>
     gEnv := [7 \<mapsto> demo_env\<lparr>ev_callstack := Some 0 # Some 1 # replicate 126 None, ev_callstacksize := 2\<rparr>],
     coroutines := (coroutines demo_process)(0 \<mapsto> (mark_saved zero_coroutine)\<lparr>co_env := 7, co_main := True\<rparr>),
     running := [7 \<mapsto> 1]\<rparr>"

definition demo_kernel :: "unit kernel" where
  "demo_kernel = \<lparr>k_gettimeofday = (\<lambda>w. ((5, 0), w)), k_epoll_create = (\<lambda>_ w. (3, w)),
     k_epoll_ctl = (\<lambda>_ _ _ _ w. ((0, 0), w)), k_epoll_wait = (\<lambda>_ _ _ w. (Inr [], w)),
     k_pthread_getspecific = (\<lambda>_ _ w. (NullPtr, w)), k_pthread_setspecific = (\<lambda>_ _ _ w. (0, w))\<rparr>"

lemma busy_stack: "stack_ok busy_process 7 [0, 1]"
  by (simp add: stack_ok_def busy_process_def demo_process_def demo_env_def env_stack_def co_of_def saved_def
      gEnv_size_def kMaxCallStack_def zero_coroutine_def)

lemma busy_ready: "ready busy_process 7 2"
  by (simp add: ready_def busy_process_def demo_process_def zero_coroutine_def)

lemma busy_spec: "spec_of busy_process 1 5 = Some NullPtr" "spec_of busy_process 2 5 = Some NullPtr"
  by (simp_all add: spec_of_def busy_process_def demo_process_def zero_coroutine_def spec_size_def)

theorem specific_is_per_coroutine_witness:
  "\<exists>p1 p2. coroutine_setspecific demo_kernel busy_process 7 5 (UserPtr 9) = Inr (0, p1) \<and>
    foldR (do_switch 7) p1 [Resume 2] = Inr p2 \<and> coroutine_getspecific demo_kernel p2 7 5 = Inr (NullPtr, p2)"
proof -
  have "run_stack {2} kMaxCallStack [0, 1] [Resume 2] = Some [0, 1, 2]"
    by (simp add: kMaxCallStack_def)
  from specific_is_per_coroutine [OF busy_stack _ _ this, of 5 NullPtr NullPtr demo_kernel "UserPtr 9"]
  show ?thesis using busy_ready busy_spec by simp
qed

section \<open>Creation\<close>

text \<open>
  Every coroutine has a stack of its own, which its context names, and names and stack memory
  not yet handed out are fresh. The context of a coroutine that stands for a thread names no stack: the
  thread runs on the stack of the operating system.
\<close>

definition own_stack :: "'k process \<Rightarrow> coroutine_t \<Rightarrow> bool" where
  "own_stack p co \<longleftrightarrow> (\<exists>st. co_stack co = Some st \<and> cs_start st \<le> cs_end st \<and> cs_end st \<le> brk p \<and>
     cs_end st = cs_start st + cs_size st \<and> cx_sp (co_context co) = (if co_main co then 0 else cs_start st) \<and>
     cx_size (co_context co) = (if co_main co then 0 else cs_size st))"

definition stacks_apart :: "coroutine_t \<Rightarrow> coroutine_t \<Rightarrow> bool" where
  "stacks_apart a b \<longleftrightarrow> (\<forall>x y. co_stack a = Some x \<longrightarrow> co_stack b = Some y \<longrightarrow>
     cs_end x \<le> cs_start y \<or> cs_end y \<le> cs_start x)"

definition heap_ok :: "'k process \<Rightarrow> bool" where
  "heap_ok p \<longleftrightarrow> (\<forall>c co. coroutines p c = Some co \<longrightarrow> c < next_id p \<and> own_stack p co) \<and>
     (\<forall>c d a b. coroutines p c = Some a \<longrightarrow> coroutines p d = Some b \<longrightarrow> c \<noteq> d \<longrightarrow> stacks_apart a b)"

definition stack_part :: "coroutine_t \<Rightarrow> bool \<times> coroutine_stack_t option \<times> int \<times> int" where
  "stack_part co = (co_main co, co_stack co, cx_sp (co_context co), cx_size (co_context co))"

lemma heap_ok_cong:
  assumes p: "heap_ok p" and n: "next_id p' = next_id p" "brk p' = brk p"
    and same: "\<And>c. map_option stack_part (coroutines p' c) = map_option stack_part (coroutines p c)"
  shows "heap_ok p'"
proof -
  have old: "\<exists>co. coroutines p c = Some co \<and> stack_part co = stack_part co'"
    if "coroutines p' c = Some co'" for c co'
    using same [of c] that by (cases "coroutines p c") auto
  have own: "own_stack p' co' = own_stack p co" if "stack_part co = stack_part co'" for co co'
    using that n by (simp add: own_stack_def stack_part_def)
  have apart: "stacks_apart a' b' = stacks_apart a b"
    if "stack_part a = stack_part a'" "stack_part b = stack_part b'" for a a' b b'
    using that by (simp add: stacks_apart_def stack_part_def)
  show ?thesis unfolding heap_ok_def
  proof (intro conjI allI impI)
    fix c co' assume "coroutines p' c = Some co'"
    from old [OF this] obtain co where "coroutines p c = Some co" "stack_part co = stack_part co'" by blast
    with p own [of co co'] n show "c < next_id p'" "own_stack p' co'" by (simp_all add: heap_ok_def)
  next
    fix c d a' b' assume "coroutines p' c = Some a'" "coroutines p' d = Some b'" "c \<noteq> d"
    with old [of c a'] old [of d b'] obtain a b where "coroutines p c = Some a" "coroutines p d = Some b"
      "stack_part a = stack_part a'" "stack_part b = stack_part b'" by blast
    with p apart [of a a' b b'] \<open>c \<noteq> d\<close> show "stacks_apart a' b'" unfolding heap_ok_def by blast
  qed
qed

lemma create_env_run:
  "create_env p e f a = (next_id p,
     p\<lparr>next_id := Suc (next_id p), brk := brk p + op_stack_size (gOptions p),
       coroutines := (coroutines p)(next_id p \<mapsto> zero_coroutine\<lparr>co_env := e, co_fun := f, co_arg := a,
         co_stack := Some \<lparr>cs_size = op_stack_size (gOptions p), cs_start = brk p,
                           cs_end = brk p + op_stack_size (gOptions p)\<rparr>,
         co_context := \<lparr>cx_regs = Zeroed, cx_size = op_stack_size (gOptions p), cx_sp = brk p\<rparr>\<rparr>)\<rparr>)"
  by (simp add: create_env_def alloc_stack_def zero_coroutine_def Let_def)

lemma create_env_heap_ok:
  assumes "heap_ok p" and "0 \<le> op_stack_size (gOptions p)"
  shows "heap_ok (snd (create_env p e f a))"
  using assms unfolding create_env_run
  by (fastforce simp: heap_ok_def own_stack_def stacks_apart_def zero_coroutine_def)

lemma heap_ok_main:
  assumes "heap_ok p" and "coroutines p c = Some co"
  shows "heap_ok (p\<lparr>coroutines := (coroutines p)(c \<mapsto> co\<lparr>co_main := True, co_context := context_init\<rparr>)\<rparr>)"
  using assms by (auto simp: heap_ok_def own_stack_def stacks_apart_def context_init_def) (metis | blast)+

lemma create_env_ready: "ready (snd (create_env p e f a)) e (next_id p)"
  by (simp add: create_env_run ready_def zero_coroutine_def)

lemma init_curr_thread_env_run:
  assumes "t < gEnv_size"
  shows "init_curr_thread_env K p t =
    Inr (let q = snd (create_env p t None NullPtr); ep = alloc_epoll K p 10240 in
      q\<lparr>coroutines := (coroutines q)(next_id p \<mapsto> (the (coroutines q (next_id p)))\<lparr>co_main := True, co_context := context_init\<rparr>),
        world := world (snd ep),
        gEnv := (gEnv p)(t \<mapsto> \<lparr>ev_callstack = (replicate kMaxCallStack None)[0 := Some (next_id p)],
          ev_callstacksize = 1, ev_epoll = fst ep, ev_pool = None, ev_arg = NullPtr,
          ev_occupy = None, ev_pending = None\<rparr>),
        running := (running p)(t \<mapsto> next_id p)\<rparr>)"
  using assms
  apply (simp add: init_curr_thread_env_def create_env_run proc_access Let_def kMaxCallStack_def)
  apply (subst alloc_epoll_world [where q = p])
   apply (simp_all add: zero_coroutine_def)
  done

lemma init_env_created:
  assumes "t < gEnv_size" and "heap_ok p" and "0 \<le> op_stack_size (gOptions p)"
    and "et_start (ep_timer (fst (alloc_epoll K p 10240))) \<noteq> 0"
  obtains p' env where "init_curr_thread_env K p t = Inr p'" "gEnv p' = (gEnv p)(t \<mapsto> env)"
    "stack_ok p' t [next_id p]" "heap_ok p'" "coroutines p (next_id p) = None"
    "\<forall>c. c \<noteq> next_id p \<longrightarrow> coroutines p' c = coroutines p c" "\<exists>co. coroutines p' (next_id p) = Some co \<and> co_main co \<and> co_context co = context_init"
    "wheel_inv (ep_store (ev_epoll env)) (\<lambda>_. []) (ep_timer (ev_epoll env))"
    "tasks p' = tasks p" "next_id p' = Suc (next_id p)" "gOptions p' = gOptions p"
proof -
  let ?p = "projr (init_curr_thread_env K p t)" and ?q = "snd (create_env p t None NullPtr)"
  let ?env = "the (gEnv ?p t)"
  note run = init_curr_thread_env_run [OF assms(1), of K p]
  have "heap_ok ?q" using create_env_heap_ok assms by blast
  then have "heap_ok (?q\<lparr>coroutines := (coroutines ?q)
      (next_id p \<mapsto> (the (coroutines ?q (next_id p)))\<lparr>co_main := True, co_context := context_init\<rparr>)\<rparr>)"
    by (rule heap_ok_main) (simp add: create_env_run)
  then have "heap_ok ?p"
    by (rule heap_ok_cong) (simp_all add: run create_env_run Let_def stack_part_def)
  moreover have "stack_ok ?p t [next_id p]" using assms(1)
    by (simp add: run create_env_run Let_def stack_ok_def env_stack_def co_of_def kMaxCallStack_def take_update_swap)
  moreover have "wheel_inv (ep_store (ev_epoll ?env)) (\<lambda>_. []) (ep_timer (ev_epoll ?env))"
    using alloc_epoll_inv [OF surjective_pairing assms(4)] by (simp add: run create_env_run Let_def)
  moreover have "coroutines p (next_id p) = None"
    using assms(2) by (cases "coroutines p (next_id p)") (auto simp: heap_ok_def)
  moreover have "init_curr_thread_env K p t = Inr ?p" "gEnv ?p = (gEnv p)(t \<mapsto> ?env)"
    "\<forall>c. c \<noteq> next_id p \<longrightarrow> coroutines ?p c = coroutines p c" "\<exists>co. coroutines ?p (next_id p) = Some co \<and> co_main co \<and> co_context co = context_init"
    "tasks ?p = tasks p" "next_id ?p = Suc (next_id p)" "gOptions ?p = gOptions p"
    by (simp_all add: run create_env_run Let_def)
  ultimately show thesis by (rule_tac that) 
qed

text \<open>
  C22. \<open>init_curr_thread_env\<close> gives a thread its environment: the call stack holds one new
  coroutine, which stands for the thread and is running, the epoll context has an empty, well
  formed timer wheel (the clock does not read zero), the stacks of coroutines stay disjoint and the
  other threads and coroutines are not touched. The new coroutine's context is cleared and names no
  stack; every other coroutine's context names the stack that coroutine has. A thread number that
  \<open>gEnv\<close> has no entry for is a write past its end.
\<close>

theorem thread_environment_created:
  assumes "t < gEnv_size" and "heap_ok p" and "0 \<le> op_stack_size (gOptions p)"
    and "et_start (ep_timer (fst (alloc_epoll K p 10240))) \<noteq> 0"
  shows "\<exists>p' env. init_curr_thread_env K p t = Inr p' \<and> gEnv p' = (gEnv p)(t \<mapsto> env) \<and>
    stack_ok p' t [next_id p] \<and> heap_ok p' \<and> coroutines p (next_id p) = None \<and>
    (\<forall>c. c \<noteq> next_id p \<longrightarrow> coroutines p' c = coroutines p c) \<and>
    (\<exists>co. coroutines p' (next_id p) = Some co \<and> co_main co \<and> co_context co = context_init) \<and>
    wheel_inv (ep_store (ev_epoll env)) (\<lambda>_. []) (ep_timer (ev_epoll env)) \<and>
    (\<forall>u \<ge> gEnv_size. init_curr_thread_env K p u = Inl OutOfBounds)"
proof -
  have "\<forall>u \<ge> gEnv_size. init_curr_thread_env K p u = Inl OutOfBounds"
    by (simp add: init_curr_thread_env_def)
  then show ?thesis by (rule_tac init_env_created [OF assms]) blast
qed

theorem thread_environment_created_witness:
  "\<exists>p'. init_curr_thread_env demo_kernel
      (demo_process\<lparr>gEnv := Map.empty, coroutines := Map.empty, running := Map.empty\<rparr>) 4 = Inr p' \<and>
    stack_ok p' 4 [3]"
proof -
  let ?p = "demo_process\<lparr>gEnv := Map.empty, coroutines := Map.empty, running := Map.empty\<rparr>"
  have "et_start (ep_timer (fst (alloc_epoll demo_kernel ?p 10240))) \<noteq> 0"
    unfolding alloc_epoll_start by (simp add: do_epoll_create_def GetTickMS_def demo_kernel_def)
  moreover have "heap_ok ?p" by (simp add: heap_ok_def)
  ultimately have "\<exists>p'. init_curr_thread_env demo_kernel ?p 4 = Inr p' \<and> stack_ok p' 4 [next_id ?p]"
    using thread_environment_created [of 4 ?p demo_kernel] by (auto simp: gEnv_size_def demo_process_def)
  moreover have "next_id ?p = 3" by (simp add: demo_process_def)
  ultimately show ?thesis by metis
qed

end
