(* ===== verification/Task_Pool.thy ===== *)
theory Task_Pool
  imports Coroutine_Env
begin

text \<open>
  Tasks and the pool of a thread (\<^verbatim>\<open>src/src/coroutine_task.c\<close>), and the operations of
  \<^verbatim>\<open>src/src/coroutine_impl.c\<close> that create them. \<open>task_main\<close> is split where control leaves it:
  \<open>task_main_head\<close> is the loop from its top to the call of the user's function (or to the
  yield), \<open>task_main_ran\<close> what follows that call up to the timeout callback, and
  \<open>task_main_return\<close> the rest of the body.
\<close>

section \<open>Operations\<close>

datatype 'p task_step = Yielded 'p | Ended 'p | Calls coroutine_fun_t vptr 'p

definition task_main_head :: "'k process \<Rightarrow> nat \<Rightarrow> nat \<Rightarrow> 'k process task_step c_result" where
  "task_main_head p t task =
     bindR (get_task p (Some task)) (\<lambda>tk.
     if tk_state tk = TASK_WAITING then bindR (coroutine_yield_context p t) (\<lambda>p. Inr (Yielded p))
     else if tk_state tk = TASK_END then Inr (Ended p)
     else
       bindR (set_pool p (tk_pool tk) (\<lambda>pool. pool\<lparr>tp_working := tp_working pool + 1\<rparr>)) (\<lambda>p.
       bindR (get_co p (tk_coroutine tk)) (\<lambda>co.
       case co_fun co of None \<Rightarrow> Inl NullDeref | Some f \<Rightarrow> Inr (Calls f (tk_arg tk) p))))"

definition task_main_ran :: "'k process \<Rightarrow> nat \<Rightarrow> (coroutine_fun_t \<times> vptr) option c_result" where
  "task_main_ran p task =
     bindR (get_task p (Some task)) (\<lambda>tk.
     if tk_timeout tk \<and> at_timeout (tk_attr tk) \<noteq> None then
       bindR (get_co p (tk_coroutine tk)) (\<lambda>co. Inr (Some (the (at_timeout (tk_attr tk)), co_arg co)))
     else Inr None)"

definition task_main_return :: "'k process \<Rightarrow> nat \<Rightarrow> 'k process c_result" where
  "task_main_return p task =
     bindR (get_task p (Some task)) (\<lambda>tk.
     bindR (get_pool p (tk_pool tk)) (\<lambda>pool.
     bindR (set_task p (Some task) (\<lambda>tk. tk\<lparr>tk_next := tp_free pool\<rparr>)) (\<lambda>p.
     bindR (set_pool p (tk_pool tk) (\<lambda>pool. pool\<lparr>tp_free := Some task\<rparr>)) (\<lambda>p.
     bindR (set_pool p (tk_pool tk) (\<lambda>pool. pool\<lparr>tp_working := tp_working pool - 1\<rparr>)) (\<lambda>p.
     bindR (set_task p (Some task) (\<lambda>tk. tk\<lparr>tk_arg := NullPtr\<rparr>)) (\<lambda>p.
     bindR (set_co p (tk_coroutine tk) (\<lambda>co. co\<lparr>co_fun := None\<rparr>)) (\<lambda>p.
     set_task p (Some task) (\<lambda>tk. tk\<lparr>tk_state := TASK_WAITING\<rparr>))))))))"

text \<open>
  \<open>new_task\<close> returns at once (\<open>Some -1\<close>) or resumes the coroutine of a free task (\<open>None\<close>); when it
  is resumed in turn it executes \<open>coroutine_swap_back\<close> and returns \<open>0\<close>.
\<close>

definition new_task :: "'k process \<Rightarrow> nat \<Rightarrow> nat \<Rightarrow> coroutine_task_attr_t \<Rightarrow> (int option \<times> 'k process) c_result" where
  "new_task p t e attr =
     bindR (get_pool p e) (\<lambda>pool.
     if tp_working pool = tp_size pool then Inr (Some (-1), p)
     else
       let task = tp_free pool in
       if task = None then Inr (Some (-1), p)
       else
         bindR (get_task p task) (\<lambda>tk.
         bindR (set_pool p e (\<lambda>pool. pool\<lparr>tp_free := tk_next tk\<rparr>)) (\<lambda>p.
         bindR (set_task p task (\<lambda>tk. tk\<lparr>tk_next := None, tk_arg := at_arg attr\<rparr>)) (\<lambda>p.
         bindR (set_co p (tk_coroutine tk) (\<lambda>co. co\<lparr>co_fun := at_fun attr\<rparr>)) (\<lambda>p.
         bindR (get_now p t) (\<lambda>now.
         bindR (set_task p task (\<lambda>tk. tk\<lparr>tk_state := TASK_RUNNING, tk_leftmsec := at_max_timeout_ms attr,
                  tk_timeout := False, tk_last := now, tk_attr := attr\<rparr>)) (\<lambda>p.
         bindR (coroutine_resume p t (tk_coroutine tk)) (\<lambda>p. Inr (None, p)))))))))"

definition new_task_back :: "'k process \<Rightarrow> nat \<Rightarrow> (int \<times> 'k process) c_result" where
  "new_task_back p t = bindR (coroutine_swap_back p t) (\<lambda>p. Inr (0, p))"

definition zero_task :: task_t where
  "zero_task = \<lparr>tk_coroutine = None, tk_arg = NullPtr, tk_state = TASK_RUNNING, tk_pool = 0, tk_next = None,
     tk_attr = \<lparr>at_enable_sys_hook = False, at_max_timeout_ms = 0, at_arg = NullPtr, at_fun = None, at_timeout = None\<rparr>,
     tk_timeout = False, tk_leftmsec = 0, tk_start = 0, tk_last = 0\<rparr>"

text \<open>
  \<open>coroutine_new\<close>, with what it calls when the thread has no environment (\<open>init\<close>) as an argument:
  that initialisation ends in \<open>create_thread_taskpool\<close>, which calls \<open>coroutine_new\<close> again, now in a
  thread that has its environment.
\<close>

definition coroutine_new_with ::
  "('k process \<Rightarrow> 'k process c_result) \<Rightarrow> 'k process \<Rightarrow> nat \<Rightarrow> coroutine_fun_t option \<Rightarrow> vptr
   \<Rightarrow> (nat \<times> 'k process) c_result" where
  "coroutine_new_with init p t f arg =
     bindR (get_curr_thread_env p t) (\<lambda>env.
     bindR (if env = None then init p else Inr p) (\<lambda>p.
     bindR (get_curr_thread_env p t) (\<lambda>env. Inr (create_env p t f arg))))"

text \<open>
  The first run of the coroutine of a new task: \<open>coroutine_main\<close> calls \<open>task_main\<close>, which yields
  because the task is waiting. No other branch can be taken there.
\<close>

definition task_first_run :: "'k process \<Rightarrow> nat \<Rightarrow> nat \<Rightarrow> 'k process c_result" where
  "task_first_run p t c =
     bindR (coroutine_main_enter p (Some c)) (\<lambda>call.
     case call of
       Some (Task_main, TaskPtr task) \<Rightarrow>
         bindR (task_main_head p t task) (\<lambda>s. case s of Yielded p \<Rightarrow> Inr p | _ \<Rightarrow> Inl Diverges)
     | _ \<Rightarrow> Inl Diverges)"

text \<open>The body of the loop of \<open>create_thread_taskpool\<close>, with the pool being built.\<close>

definition create_task ::
  "nat \<Rightarrow> 'k process \<times> taskpool_t \<Rightarrow> nat \<Rightarrow> ('k process \<times> taskpool_t) c_result" where
  "create_task t pp i =
     (let (p, pool) = pp;
          task = next_id p;
          p = p\<lparr>next_id := Suc task, tasks := (tasks p)(task \<mapsto> zero_task)\<rparr>
      in
        bindR (array_set (tp_tasks pool) (int i) (Some task)) (\<lambda>ts.
        let pool = pool\<lparr>tp_tasks := ts\<rparr> in
        bindR (set_task p (Some task) (\<lambda>tk. tk\<lparr>tk_pool := t\<rparr>)) (\<lambda>p.
        bindR (coroutine_new_with (\<lambda>_. Inl Diverges) p t (Some Task_main) (TaskPtr task)) (\<lambda>(c, p).
        bindR (set_co p (Some c) (\<lambda>co. co\<lparr>co_task := Some task\<rparr>)) (\<lambda>p.
        bindR (set_task p (Some task) (\<lambda>tk. tk\<lparr>tk_coroutine := Some c, tk_next := tp_free pool,
                 tk_state := TASK_WAITING\<rparr>)) (\<lambda>p.
        let pool = pool\<lparr>tp_free := Some task\<rparr> in
        bindR (coroutine_resume p t (Some c)) (\<lambda>p.
        bindR (task_first_run p t c) (\<lambda>p.
        bindR (coroutine_swap_back p t) (\<lambda>p. Inr (p, pool))))))))))"

text \<open>The array \<open>tasks\<close> is allocated with \<open>sizeof(task_t*)\<close> bytes, that is one entry, whatever the size.\<close>

definition create_thread_taskpool :: "'k process \<Rightarrow> nat \<Rightarrow> int \<Rightarrow> (taskpool_t \<times> 'k process) c_result" where
  "create_thread_taskpool p t n =
     bindR (foldR (create_task t)
        (p, \<lparr>tp_tasks = replicate 1 None, tp_free = None, tp_size = 0, tp_working = 0\<rparr>) [0..<nat n])
     (\<lambda>(p, pool). Inr (pool\<lparr>tp_size := n\<rparr>, p))"

definition do_init_curr_thread_env :: "'k kernel \<Rightarrow> nat \<Rightarrow> 'k process \<Rightarrow> 'k process c_result" where
  "do_init_curr_thread_env K t p =
     bindR (init_curr_thread_env K p t) (\<lambda>p.
     bindR (create_thread_taskpool p t (op_task_per_thread (gOptions p))) (\<lambda>(pool, p).
     set_env p t (\<lambda>env. env\<lparr>ev_pool := Some pool\<rparr>)))"

definition coroutine_new ::
  "'k kernel \<Rightarrow> 'k process \<Rightarrow> nat \<Rightarrow> coroutine_fun_t option \<Rightarrow> vptr \<Rightarrow> (nat \<times> 'k process) c_result" where
  "coroutine_new K p t f arg = coroutine_new_with (do_init_curr_thread_env K t) p t f arg"

definition coroutine_new_task ::
  "'k kernel \<Rightarrow> 'k process \<Rightarrow> nat \<Rightarrow> coroutine_task_attr_t \<Rightarrow> (int option \<times> 'k process) c_result" where
  "coroutine_new_task K p t attr =
     bindR (get_curr_thread_env p t) (\<lambda>env.
     bindR (if env = None then do_init_curr_thread_env K t p else Inr p) (\<lambda>p.
     bindR (get_curr_thread_env p t) (\<lambda>env. new_task p t t attr)))"

definition get_epoll_context :: "'k kernel \<Rightarrow> 'k process \<Rightarrow> nat \<Rightarrow> (epoll_context_t \<times> 'k process) c_result" where
  "get_epoll_context K p t =
     bindR (get_curr_thread_env p t) (\<lambda>env.
     bindR (if env = None then do_init_curr_thread_env K t p else Inr p) (\<lambda>p.
     bindR (get_curr_thread_env p t) (\<lambda>_.
     bindR (get_env p t) (\<lambda>env. Inr (ev_epoll env, p)))))"

section \<open>The pool\<close>

text \<open>The list of free tasks, linked through \<open>next\<close>.\<close>

fun chain :: "(nat \<rightharpoonup> task_t) \<Rightarrow> nat option \<Rightarrow> nat list \<Rightarrow> bool" where
  "chain T ptr [] \<longleftrightarrow> ptr = None"
| "chain T ptr (k # ks) \<longleftrightarrow> ptr = Some k \<and> (case T k of None \<Rightarrow> False | Some tk \<Rightarrow> chain T (tk_next tk) ks)"

text \<open>
  A task of the pool in state \<open>st\<close>, and the coroutine \<open>cof k\<close> it has been given for good: that
  coroutine has been started and control can be given to it.
\<close>

definition member :: "'k process \<Rightarrow> nat \<Rightarrow> (nat \<Rightarrow> nat) \<Rightarrow> task_state_t \<Rightarrow> nat \<Rightarrow> bool" where
  "member p t cof st k \<longleftrightarrow> (\<exists>tk co. tasks p k = Some tk \<and> tk_state tk = st \<and> tk_pool tk = t \<and>
     tk_coroutine tk = Some (cof k) \<and> coroutines p (cof k) = Some co \<and> co_env co = t \<and>
     co_task co = Some k \<and> co_arg co = TaskPtr k \<and> co_state co = RUNNING \<and> cx_regs (co_context co) \<noteq> Zeroed)"

text \<open>
  The state of a thread's pool: \<open>xs\<close> is the call stack, \<open>fs\<close> the free list and \<open>ws\<close> the tasks
  that are running a function of the user. The coroutines above the thread's own one are those
  of such tasks, and a coroutine that is not active has its registers saved.
\<close>

definition pool_rep :: "'k process \<Rightarrow> nat \<Rightarrow> nat list \<Rightarrow> nat list \<Rightarrow> bool" where
  "pool_rep p t fs ws \<longleftrightarrow> (\<exists>env pool. gEnv p t = Some env \<and> ev_pool env = Some pool \<and>
     chain (tasks p) (tp_free pool) fs \<and> tp_working pool = int (length ws) \<and>
     tp_size pool = int (length fs) + int (length ws))"

definition pool_ok ::
  "'k process \<Rightarrow> nat \<Rightarrow> (nat \<Rightarrow> nat) \<Rightarrow> nat list \<Rightarrow> nat list \<Rightarrow> nat list \<Rightarrow> bool" where
  "pool_ok p t cof xs fs ws \<longleftrightarrow> stack_ok p t xs \<and> pool_rep p t fs ws \<and> distinct (fs @ ws) \<and>
     set (tl xs) \<subseteq> cof ` set ws \<and> hd xs \<notin> cof ` set (fs @ ws) \<and>
     (\<forall>k \<in> set fs. member p t cof TASK_WAITING k) \<and> (\<forall>k \<in> set ws. member p t cof TASK_RUNNING k) \<and>
     (\<forall>k \<in> set (fs @ ws). cof k \<notin> set xs \<longrightarrow> saved p (cof k))"

lemma chain_cong: "(\<And>k. k \<in> set ks \<Longrightarrow> T' k = T k) \<Longrightarrow> chain T' ptr ks = chain T ptr ks"
  by (induction ks arbitrary: ptr) (auto split: option.splits)

lemma chain_upd [simp]: "k \<notin> set ks \<Longrightarrow> chain (T(k := v)) ptr ks = chain T ptr ks"
  by (rule chain_cong) auto

lemma member_cong:
  "member p t cof st k \<Longrightarrow> tasks p' k = tasks p k \<Longrightarrow> coroutines p' (cof k) = coroutines p (cof k) \<Longrightarrow>
   member p' t cof st k"
  by (simp add: member_def)

lemma member_inj:
  "member p t cof st k \<Longrightarrow> member p t cof st' k' \<Longrightarrow> cof k = cof k' \<Longrightarrow> k = k'"
  by (auto simp: member_def)

lemma member_switch:
  assumes "member p t cof st k" and "tasks p' = tasks p"
    and "coroutines p' (cof k) = coroutines p (cof k) \<or>
      (\<exists>co. coroutines p (cof k) = Some co \<and>
        (coroutines p' (cof k) = Some (mark_saved co) \<or> coroutines p' (cof k) = Some (mark_running co)))"
  shows "member p' t cof st k"
  using assms by (auto simp: member_def mark_saved_def mark_running_def)

lemma pool_ok_parts:
  assumes "pool_ok p t cof xs fs ws"
  shows "stack_ok p t xs" and "pool_rep p t fs ws" and "distinct (fs @ ws)"
    and "set (tl xs) \<subseteq> cof ` set ws" and "k \<in> set (fs @ ws) \<Longrightarrow> cof k \<noteq> hd xs" and "xs \<noteq> []"
    and "k \<in> set fs \<Longrightarrow> member p t cof TASK_WAITING k" and "k \<in> set ws \<Longrightarrow> member p t cof TASK_RUNNING k"
    and "k \<in> set (fs @ ws) \<Longrightarrow> cof k \<notin> set xs \<Longrightarrow> saved p (cof k)"
proof -
  show "cof k \<noteq> hd xs" if "k \<in> set (fs @ ws)" using assms that unfolding pool_ok_def by (metis imageI)
qed (use assms in \<open>simp_all add: pool_ok_def stack_ok_def\<close>)

lemma pool_ok_inj:
  assumes "pool_ok p t cof xs fs ws" and "k \<in> set (fs @ ws)" and "k' \<in> set (fs @ ws)" and "cof k = cof k'"
  shows "k = k'"
proof -
  have "\<exists>st. member p t cof st j" if "j \<in> set (fs @ ws)" for j
    using that pool_ok_parts(7,8) [OF assms(1), of j] by auto
  then obtain st st' where "member p t cof st k" "member p t cof st' k'" using assms(2,3) by blast
  then show ?thesis using assms(4) by (rule member_inj)
qed

lemma free_not_active:
  assumes ok: "pool_ok p t cof xs fs ws" and k: "k \<in> set fs"
  shows "cof k \<notin> set xs"
proof
  assume "cof k \<in> set xs"
  moreover have "cof k \<noteq> hd xs" using pool_ok_parts(5) [OF ok] k by simp
  ultimately have "cof k \<in> set (tl xs)" by (cases xs) auto
  then obtain k' where k': "k' \<in> set ws" "cof k' = cof k" using pool_ok_parts(4) [OF ok] by auto
  with k have "k' = k" using pool_ok_inj [OF ok, of k' k] by simp
  with k k'(1) pool_ok_parts(3) [OF ok] show False by auto
qed

text \<open>
  What the thread does with its pool: start a task from the running coroutine, end the running
  task (its function has returned), leave the running task in the middle of its function, and
  give control back to a task left so. The task is the one whose coroutine runs.
\<close>

datatype pool_op = Spawn coroutine_task_attr_t | Finish | Pause | Wake nat

definition current_task :: "'k process \<Rightarrow> nat \<Rightarrow> nat c_result" where
  "current_task p t = bindR (get_co p (running p t)) (\<lambda>co.
     case co_task co of None \<Rightarrow> Inl NullDeref | Some k \<Rightarrow> Inr k)"

definition enter_task :: "nat \<Rightarrow> 'k process \<Rightarrow> 'k process c_result" where
  "enter_task t p = bindR (switched p t) (\<lambda>p. bindR (current_task p t) (\<lambda>k.
     bindR (task_main_head p t k) (\<lambda>s. case s of Calls f a p \<Rightarrow> Inr p | _ \<Rightarrow> Inl Diverges)))"

definition leave_task :: "nat \<Rightarrow> 'k process \<Rightarrow> 'k process c_result" where
  "leave_task t p = bindR (current_task p t) (\<lambda>k.
     bindR (task_main_return p k) (\<lambda>p.
     bindR (task_main_head p t k) (\<lambda>s. case s of Yielded p \<Rightarrow> switched p t | _ \<Rightarrow> Inl Diverges)))"

fun do_pool :: "nat \<Rightarrow> 'k process \<Rightarrow> pool_op \<Rightarrow> 'k process c_result" where
  "do_pool t p (Spawn attr) =
     bindR (new_task p t t attr) (\<lambda>(r, p). case r of Some _ \<Rightarrow> Inr p | None \<Rightarrow> enter_task t p)"
| "do_pool t p Finish = leave_task t p"
| "do_pool t p Pause = do_switch t p Yield"
| "do_pool t p (Wake k) = bindR (get_task p (Some k)) (\<lambda>tk.
     bindR (coroutine_resume p t (tk_coroutine tk)) (\<lambda>p. switched p t))"

text \<open>The specification: call stack, free tasks, working tasks.\<close>

fun step_pool :: "(nat \<Rightarrow> nat) \<Rightarrow> nat list \<times> nat list \<times> nat list \<Rightarrow> pool_op \<Rightarrow> (nat list \<times> nat list \<times> nat list) option" where
  "step_pool cof (xs, fs, ws) (Spawn attr) =
     (case fs of [] \<Rightarrow> Some (xs, fs, ws)
      | k # fs' \<Rightarrow> if at_fun attr \<noteq> None \<and> length xs < kMaxCallStack then Some (xs @ [cof k], fs', k # ws) else None)"
| "step_pool cof (xs, fs, ws) Finish =
     (case find (\<lambda>k. cof k = last xs) ws of None \<Rightarrow> None | Some k \<Rightarrow> Some (butlast xs, k # fs, remove1 k ws))"
| "step_pool cof (xs, fs, ws) Pause =
     (case find (\<lambda>k. cof k = last xs) ws of None \<Rightarrow> None | Some k \<Rightarrow> Some (butlast xs, fs, ws))"
| "step_pool cof (xs, fs, ws) (Wake k) =
     (if k \<in> set ws \<and> cof k \<notin> set xs \<and> length xs < kMaxCallStack then Some (xs @ [cof k], fs, ws) else None)"

lemma pool_ok_top:
  assumes ok: "pool_ok p t cof xs fs ws" and k: "k \<in> set ws" "cof k = last xs"
  obtains ys a where "xs = ys @ [a, cof k]"
proof -
  from pool_ok_parts(5) [OF ok, of k] pool_ok_parts(6) [OF ok] k have "cof k \<noteq> hd xs" and "xs \<noteq> []" by auto
  with k have "2 \<le> length xs" by (cases xs; cases "tl xs") auto
  then obtain zs a b where "xs = zs @ [a, b]" by (rule two_at_end)
  with k(2) that show thesis by simp
qed

lemma pool_rep_cong:
  assumes "pool_rep p t fs ws" and "map_option ev_pool (gEnv p' t) = map_option ev_pool (gEnv p t)"
    and "tasks p' = tasks p"
  shows "pool_rep p' t fs ws"
  using assms by (auto simp: pool_rep_def)

text \<open>A switch changes neither tasks nor pool, and leaves every coroutine started.\<close>

lemma switch_keeps [simp]:
  "tasks (resumed p t xs c) = tasks p" "tasks (yielded p t xs) = tasks p"
  "gEnv p t = Some env \<Longrightarrow> map_option ev_pool (gEnv (resumed p t xs c) t) = Some (ev_pool env)"
  "gEnv p t = Some env \<Longrightarrow> map_option ev_pool (gEnv (yielded p t xs) t) = Some (ev_pool env)"
  by (simp_all add: resumed_def yielded_def push_env_def pop_env_def)

lemma pool_rep_switch:
  assumes "stack_ok p t xs" and "pool_rep p t fs ws"
  shows "pool_rep (resumed p t xs c) t fs ws" and "pool_rep (yielded p t xs) t fs ws"
  using assms stack_ok_env [OF assms(1)] by (auto intro: pool_rep_cong [OF assms(2)])

lemma member_resumed:
  assumes "stack_ok p t xs" and "ready p t c" and "member p t cof st k"
  shows "member (resumed p t xs c) t cof st k"
proof -
  from stack_ok_last [OF assms(1)] assms(2) obtain cur co where "coroutines p (last xs) = Some cur"
    "coroutines p c = Some co" by (auto simp: ready_def)
  with assms(3) show ?thesis by (auto simp: member_def resumed_def mark_saved_def mark_running_def)
qed

lemma member_yielded:
  assumes "stack_ok p t xs" and "member p t cof st k"
  shows "member (yielded p t xs) t cof st k"
  using stack_ok_last [OF assms(1)] assms(2) by (auto simp: member_def yielded_def mark_saved_def)

lemma saved_switch:
  assumes "stack_ok p t xs"
  shows "saved p d \<Longrightarrow> d \<noteq> c \<Longrightarrow> saved (resumed p t xs c) d" and "saved p d \<Longrightarrow> saved (yielded p t xs) d"
    and "saved (yielded p t xs) (last xs)"
  using stack_ok_last [OF assms] by (auto simp: saved_def resumed_def yielded_def)

lemma member_ready: "member p t cof st k \<Longrightarrow> ready p t (cof k)"
  by (auto simp: member_def ready_def)

text \<open>Giving control to the coroutine of a working task, and taking it back.\<close>

lemma pool_push:
  assumes ok: "pool_ok p t cof xs fs ws" and k: "k \<in> set ws" "cof k \<notin> set xs" and n: "length xs < kMaxCallStack"
  shows "coroutine_resume p t (Some (cof k)) = Inr (resumed p t xs (cof k))"
    and "pool_ok (resumed p t xs (cof k)) t cof (xs @ [cof k]) fs ws"
proof -
  from ok k have st: "stack_ok p t xs" and r: "ready p t (cof k)" and ne: "xs \<noteq> []"
    by (auto simp: pool_ok_def stack_ok_def dest: member_ready)
  note push = coroutine_resume_resumed [OF st k(2) r n]
  show "coroutine_resume p t (Some (cof k)) = Inr (resumed p t xs (cof k))" by (rule push)
  show "pool_ok (resumed p t xs (cof k)) t cof (xs @ [cof k]) fs ws"
    using ok k ne push(2) pool_rep_switch(1) [OF st] member_resumed [OF st r] saved_switch(1) [OF st]
    by (auto simp: pool_ok_def)
qed

lemma pool_pop:
  assumes ok: "pool_ok p t cof (xs @ [a, b]) fs ws"
  shows "yield_env p t t = Inr (yielded p t (xs @ [a, b]))"
    and "pool_ok (yielded p t (xs @ [a, b])) t cof (xs @ [a]) fs ws"
proof -
  from ok have st: "stack_ok p t (xs @ [a, b])" by (simp add: pool_ok_def)
  note pop = yield_env_yielded [OF st]
  show "yield_env p t t = Inr (yielded p t (xs @ [a, b]))" by (rule pop)
  have hd_tl: "hd (xs @ [a, b]) = hd (xs @ [a])" "set (tl (xs @ [a])) \<subseteq> set (tl (xs @ [a, b]))"
    by (cases xs; auto)+
  have "saved (yielded p t (xs @ [a, b])) (cof k)" if "k \<in> set (fs @ ws)" "cof k \<notin> set (xs @ [a])" for k
    using that ok saved_switch(2,3) [OF st] by (cases "cof k = b") (auto simp: pool_ok_def)
  then show "pool_ok (yielded p t (xs @ [a, b])) t cof (xs @ [a]) fs ws"
    using ok hd_tl pop(2) pool_rep_switch(2) [OF st] member_yielded [OF st]
    by (simp add: pool_ok_def) blast
qed

text \<open>
  The changes \<open>new_task\<close> and \<open>task_main\<close> make to tasks and pool: \<open>prepared\<close> before the coroutine is
  resumed, \<open>counted\<close> when it enters the function, \<open>returned\<close> after the function.
\<close>

definition pool_of :: "'k process \<Rightarrow> nat \<Rightarrow> taskpool_t" where
  "pool_of p t = the (ev_pool (the (gEnv p t)))"

definition put_pool :: "'k process \<Rightarrow> nat \<Rightarrow> taskpool_t \<Rightarrow> 'k process" where
  "put_pool p t pool = p\<lparr>gEnv := (gEnv p)(t \<mapsto> (the (gEnv p t))\<lparr>ev_pool := Some pool\<rparr>)\<rparr>"

definition prepared :: "'k process \<Rightarrow> nat \<Rightarrow> nat \<Rightarrow> nat \<Rightarrow> coroutine_task_attr_t \<Rightarrow> 'k process" where
  "prepared p t c k attr =
     (put_pool p t ((pool_of p t)\<lparr>tp_free := tk_next (the (tasks p k))\<rparr>))\<lparr>
       coroutines := (coroutines p)(c \<mapsto> (the (coroutines p c))\<lparr>co_fun := at_fun attr\<rparr>),
       tasks := (tasks p)(k \<mapsto> (the (tasks p k))\<lparr>tk_next := None, tk_arg := at_arg attr, tk_state := TASK_RUNNING,
         tk_leftmsec := at_max_timeout_ms attr, tk_timeout := False,
         tk_last := get_epoll_now (ev_epoll (the (gEnv p t))), tk_attr := attr\<rparr>)\<rparr>"

definition counted :: "'k process \<Rightarrow> nat \<Rightarrow> 'k process" where
  "counted p t = put_pool p t ((pool_of p t)\<lparr>tp_working := tp_working (pool_of p t) + 1\<rparr>)"

definition returned :: "'k process \<Rightarrow> nat \<Rightarrow> nat \<Rightarrow> nat \<Rightarrow> 'k process" where
  "returned p t c k =
     (put_pool p t ((pool_of p t)\<lparr>tp_free := Some k, tp_working := tp_working (pool_of p t) - 1\<rparr>))\<lparr>
       coroutines := (coroutines p)(c \<mapsto> (the (coroutines p c))\<lparr>co_fun := None\<rparr>),
       tasks := (tasks p)(k \<mapsto> (the (tasks p k))\<lparr>tk_next := tp_free (pool_of p t), tk_arg := NullPtr,
         tk_state := TASK_WAITING\<rparr>)\<rparr>"

lemmas pool_change_defs = pool_of_def put_pool_def prepared_def counted_def returned_def

lemma env_stack_pool [simp]: "env_stack (env\<lparr>ev_pool := q\<rparr>) xs = env_stack env xs"
  by (simp add: env_stack_def)

lemma stack_ok_put_pool:
  assumes "stack_ok p t xs"
  shows "stack_ok (put_pool p t q) t xs"
proof -
  from stack_ok_env [OF assms] obtain env where "gEnv p t = Some env" "env_stack env xs" by blast
  then show ?thesis
    by (intro stack_ok_cong [OF assms, of _ "env\<lparr>ev_pool := Some q\<rparr>"]) (auto simp: put_pool_def co_of_def saved_def)
qed

lemma stack_ok_set_fun:
  "stack_ok p t xs \<Longrightarrow> coroutines p c = Some co \<Longrightarrow>
   stack_ok (p\<lparr>coroutines := (coroutines p)(c \<mapsto> co\<lparr>co_fun := f\<rparr>), tasks := T\<rparr>) t xs"
  using stack_ok_env [of p t xs]
  by (auto intro!: stack_ok_cong [of p t xs] simp: co_of_def saved_def)

lemma pool_ok_objects:
  assumes "pool_ok p t cof xs fs ws" and "k \<in> set (fs @ ws)"
  obtains env pool tk co where "gEnv p t = Some env" "ev_pool env = Some pool" "tasks p k = Some tk"
    "tk_pool tk = t" "tk_coroutine tk = Some (cof k)" "coroutines p (cof k) = Some co" "co_env co = t"
    "co_task co = Some k" "co_arg co = TaskPtr k" "co_state co = RUNNING" "cx_regs (co_context co) \<noteq> Zeroed"
    "tk_state tk = (if k \<in> set fs then TASK_WAITING else TASK_RUNNING)"
proof -
  from pool_ok_parts(2) [OF assms(1)] obtain env pool where "gEnv p t = Some env" "ev_pool env = Some pool"
    by (auto simp: pool_rep_def)
  moreover have "member p t cof (if k \<in> set fs then TASK_WAITING else TASK_RUNNING) k"
    using assms(2) pool_ok_parts(7,8) [OF assms(1)] by auto
  ultimately show thesis using that unfolding member_def by metis
qed

lemma saved_set_fun: "coroutines p c = Some co \<Longrightarrow>
    saved (p\<lparr>coroutines := (coroutines p)(c \<mapsto> co\<lparr>co_fun := f\<rparr>), gEnv := E, tasks := T\<rparr>) d = saved p d"
  by (auto simp: saved_def)

text \<open>Moving a task from the free list to the working tasks, and back.\<close>

lemma pool_take:
  assumes ok: "pool_ok p t cof xs (k # fs) ws"
  shows "pool_ok (counted (prepared p t (cof k) k attr) t) t cof xs fs (k # ws)"
proof -
  obtain env pool tk co where o: "gEnv p t = Some env" "ev_pool env = Some pool" "tasks p k = Some tk"
    "tk_pool tk = t" "tk_coroutine tk = Some (cof k)" "coroutines p (cof k) = Some co" "co_env co = t"
    "co_task co = Some k" "co_arg co = TaskPtr k" "co_state co = RUNNING" "cx_regs (co_context co) \<noteq> Zeroed"
    by (rule pool_ok_objects [OF ok, of k]) auto
  let ?p = "counted (prepared p t (cof k) k attr) t"
  note parts = pool_ok_parts [OF ok]
  have "stack_ok (prepared p t (cof k) k attr) t xs" unfolding prepared_def
    using stack_ok_set_fun [OF stack_ok_put_pool [OF parts(1)]] o by (auto simp: put_pool_def)
  then have "stack_ok ?p t xs" unfolding counted_def by (rule stack_ok_put_pool)
  moreover have "pool_rep ?p t fs (k # ws)"
    using parts(2,3) o by (auto simp: pool_rep_def pool_change_defs)
  moreover have "member ?p t cof TASK_RUNNING k" using o by (auto simp: member_def pool_change_defs)
  moreover have keep: "member ?p t cof st j" if "member p t cof st j" "j \<noteq> k" for st j
    using that o by (auto simp: member_def pool_change_defs)
  have "\<forall>j \<in> set fs. member ?p t cof TASK_WAITING j" "\<forall>j \<in> set ws. member ?p t cof TASK_RUNNING j"
    using ok by (auto simp: pool_ok_def intro!: keep)
  moreover have "saved ?p d = saved p d" for d using o by (auto simp: saved_def pool_change_defs)
  ultimately show ?thesis using ok by (simp add: pool_ok_def image_iff) blast
qed

lemma pool_give:
  assumes ok: "pool_ok p t cof xs fs ws" and k: "k \<in> set ws" "cof k \<notin> set xs"
  shows "pool_ok (returned p t (cof k) k) t cof xs (k # fs) (remove1 k ws)"
proof -
  obtain env pool tk co where o: "gEnv p t = Some env" "ev_pool env = Some pool" "tasks p k = Some tk"
    "tk_pool tk = t" "tk_coroutine tk = Some (cof k)" "coroutines p (cof k) = Some co" "co_env co = t"
    "co_task co = Some k" "co_arg co = TaskPtr k" "co_state co = RUNNING" "cx_regs (co_context co) \<noteq> Zeroed"
    by (rule pool_ok_objects [OF ok, of k]) (use k in auto)
  let ?p = "returned p t (cof k) k"
  note parts = pool_ok_parts [OF ok]
  from parts(3) k(1) have nf: "k \<notin> set fs" by auto
  have "stack_ok ?p t xs" unfolding returned_def
    using stack_ok_set_fun [OF stack_ok_put_pool [OF parts(1)]] o by (auto simp: put_pool_def)
  moreover have "pool_rep ?p t (k # fs) (remove1 k ws)"
    using nf parts(2,3) o k(1) length_pos_if_in_set [OF k(1)]
    by (auto simp: pool_rep_def pool_change_defs length_remove1 of_nat_diff Suc_leI)
  moreover have "member ?p t cof TASK_WAITING k" using o by (auto simp: member_def pool_change_defs)
  moreover have keep: "member ?p t cof st j" if "member p t cof st j" "j \<noteq> k" for st j
    using that o by (auto simp: member_def pool_change_defs)
  have "\<forall>j \<in> set fs. member ?p t cof TASK_WAITING j" "\<forall>j \<in> set (remove1 k ws). member ?p t cof TASK_RUNNING j"
    using ok k(1) nf by (auto simp: pool_ok_def set_remove1_eq intro!: keep)
  moreover have "saved ?p d = saved p d" for d using o by (auto simp: saved_def pool_change_defs)
  moreover have "set (tl xs) \<subseteq> cof ` set (remove1 k ws)"
  proof
    fix c assume c: "c \<in> set (tl xs)"
    with parts(4) obtain j where j: "j \<in> set ws" "c = cof j" by blast
    from c parts(6) have "c \<in> set xs" by (rule_tac list.set_sel(2))
    with k(2) j have "j \<noteq> k" by auto
    with j show "c \<in> cof ` set (remove1 k ws)" by (simp add: in_set_remove1)
  qed
  moreover have "distinct ((k # fs) @ remove1 k ws)" using nf parts(3) by (auto simp: distinct_remove1)
  moreover have eq: "set ((k # fs) @ remove1 k ws) = set (fs @ ws)" using k(1) parts(3) by auto
  ultimately show ?thesis using ok unfolding pool_ok_def eq by simp
qed

section \<open>Steps of the pool\<close>

lemma current_task_member:
  assumes "running p t = Some (cof k)" and "member p t cof st k"
  shows "current_task p t = Inr k"
  using assms by (auto simp: current_task_def get_co_def member_def)

lemma new_task_prepared:
  assumes ok: "pool_ok p t cof xs (k # fs) ws"
  shows "new_task p t t attr = bindR (coroutine_resume (prepared p t (cof k) k attr) t (Some (cof k))) (\<lambda>p. Inr (None, p))"
proof -
  obtain env pool tk co where o: "gEnv p t = Some env" "ev_pool env = Some pool" "tasks p k = Some tk"
    "tk_pool tk = t" "tk_coroutine tk = Some (cof k)" "coroutines p (cof k) = Some co"
    by (rule pool_ok_objects [OF ok, of k]) auto
  note parts = pool_ok_parts [OF ok]
  from parts(2) o have "tp_free pool = Some k" "tp_working pool \<noteq> tp_size pool" by (auto simp: pool_rep_def)
  with o stack_ok_bound [OF parts(1)] show ?thesis
    by (simp add: new_task_def proc_access get_now_def get_curr_thread_env_def pool_change_defs)
qed

lemma spawn_step:
  assumes ok: "pool_ok p t cof xs (k # fs) ws" and n: "length xs < kMaxCallStack" and f: "at_fun attr = Some f"
  shows "\<exists>p1 p'. new_task p t t attr = Inr (None, p1) \<and> switched p1 t = Inr p1 \<and> current_task p1 t = Inr k \<and>
    task_main_head p1 t k = Inr (Calls f (at_arg attr) p') \<and> pool_ok p' t cof (xs @ [cof k]) fs (k # ws) \<and>
    tasks p' = (tasks p)(k \<mapsto> (the (tasks p k))\<lparr>tk_next := None, tk_arg := at_arg attr, tk_state := TASK_RUNNING,
         tk_leftmsec := at_max_timeout_ms attr, tk_timeout := False,
         tk_last := get_epoll_now (ev_epoll (the (gEnv p t))), tk_attr := attr\<rparr>)"
proof -
  obtain env pool tk co where o: "gEnv p t = Some env" "ev_pool env = Some pool" "tasks p k = Some tk"
    "tk_pool tk = t" "tk_coroutine tk = Some (cof k)" "coroutines p (cof k) = Some co" "co_env co = t"
    "co_task co = Some k" "co_arg co = TaskPtr k" "co_state co = RUNNING" "cx_regs (co_context co) \<noteq> Zeroed"
    by (rule pool_ok_objects [OF ok, of k]) auto
  let ?q = "prepared p t (cof k) k attr" and ?c = "cof k"
  let ?p1 = "resumed ?q t xs ?c"
  have c: "?c \<notin> set xs" by (rule free_not_active [OF ok]) simp
  have st: "stack_ok ?q t xs" unfolding prepared_def
    using stack_ok_set_fun [OF stack_ok_put_pool [OF pool_ok_parts(1) [OF ok]]] o by (auto simp: put_pool_def)
  have r: "ready ?q t ?c" using o by (simp add: ready_def pool_change_defs)
  note res = coroutine_resume_resumed [OF st c r n]
  have "last xs \<noteq> ?c" using c pool_ok_parts(6) [OF ok] last_in_set by metis
  with stack_ok_last [OF st] have cur: "\<exists>cur. coroutines ?q (last xs) = Some cur \<and> last xs \<noteq> ?c" by blast
  have head: "task_main_head ?p1 t k = Inr (Calls f (at_arg attr) (counted ?p1 t))"
    using o cur f by (auto simp: task_main_head_def proc_access pool_change_defs resumed_def mark_running_def push_env_def)
  have "counted ?p1 t = resumed (counted ?q t) t xs ?c"
    using o by (cases p, cases env) (simp add: resumed_def pool_change_defs push_env_def)
  with pool_push(2) [OF pool_take [OF ok, of attr] _ c n]
  have "pool_ok (counted ?p1 t) t cof (xs @ [?c]) fs (k # ws)" by simp
  moreover have "current_task ?p1 t = Inr k"
    using o cur by (auto simp: current_task_def get_co_def resumed_def pool_change_defs mark_running_def)
  moreover have "tasks (counted ?p1 t) = tasks ?q" by (simp add: counted_def put_pool_def)
  ultimately show ?thesis
    using new_task_prepared [OF ok, of attr] res switched_id [OF res(2)] head
    by (intro exI [of _ ?p1] exI [of _ "counted ?p1 t"]) (simp add: prepared_def)
qed

lemma task_main_return_returned:
  assumes ok: "pool_ok p t cof xs fs ws" and k: "k \<in> set ws"
  shows "task_main_return p k = Inr (returned p t (cof k) k)" and "stack_ok (returned p t (cof k) k) t xs"
    and "\<exists>tk. tasks (returned p t (cof k) k) k = Some tk \<and> tk_state tk = TASK_WAITING"
proof -
  obtain env pool tk co where o: "gEnv p t = Some env" "ev_pool env = Some pool" "tasks p k = Some tk"
    "tk_pool tk = t" "tk_coroutine tk = Some (cof k)" "coroutines p (cof k) = Some co"
    by (rule pool_ok_objects [OF ok, of k]) (use k in auto)
  then show "task_main_return p k = Inr (returned p t (cof k) k)"
    by (simp add: task_main_return_def proc_access pool_change_defs)
  show "stack_ok (returned p t (cof k) k) t xs" unfolding returned_def
    using stack_ok_set_fun [OF stack_ok_put_pool [OF pool_ok_parts(1) [OF ok]]] o by (auto simp: put_pool_def)
  show "\<exists>tk. tasks (returned p t (cof k) k) k = Some tk \<and> tk_state tk = TASK_WAITING"
    by (simp add: returned_def)
qed

lemma finish_step:
  assumes ok: "pool_ok p t cof xs fs ws" and k: "k \<in> set ws" "cof k = last xs"
  shows "\<exists>p'. leave_task t p = Inr p' \<and> pool_ok p' t cof (butlast xs) (k # fs) (remove1 k ws)"
proof -
  obtain ys a where xs: "xs = ys @ [a, cof k]" by (rule pool_ok_top [OF ok k])
  let ?r = "returned p t (cof k) k"
  note ret = task_main_return_returned [OF ok k(1)]
  have cur: "current_task p t = Inr k"
    by (rule current_task_member [OF _ pool_ok_parts(8) [OF ok k(1)]])
      (use self_is_running(2) [OF pool_ok_parts(1) [OF ok]] k(2) in simp)
  note y = yield_env_yielded [OF ret(2) [unfolded xs]]
  have head: "task_main_head ?r t k = Inr (Yielded (yielded ?r t xs))"
    using ret(3) y(1) stack_ok_bound [OF ret(2)]
    by (auto simp: task_main_head_def get_task_def coroutine_yield_context_def get_curr_thread_env_def xs)
  obtain env pool tk co where o: "gEnv p t = Some env" "ev_pool env = Some pool" "tasks p k = Some tk"
    "coroutines p (cof k) = Some co"
    by (rule pool_ok_objects [OF ok, of k]) (use k in auto)
  have eq: "yielded ?r t xs = returned (yielded p t xs) t (cof k) k"
    using o by (cases p, cases env, cases co) (simp add: xs yielded_def pool_change_defs pop_env_def mark_saved_def)
  have "cof k \<notin> set (ys @ [a])" using pool_ok_parts(1) [OF ok] by (simp add: xs stack_ok_def)
  then have "pool_ok (yielded ?r t xs) t cof (ys @ [a]) (k # fs) (remove1 k ws)"
    unfolding eq using ok k(1) by (auto intro!: pool_give pool_pop(2) simp: xs)
  with cur ret(1) head switched_id [OF y(2)] show ?thesis
    by (intro exI [of _ "yielded ?r t xs"]) (simp add: leave_task_def xs butlast_append)
qed

lemma find_working:
  assumes "find (\<lambda>k. cof k = last xs) ws = Some k"
  shows "k \<in> set ws" and "cof k = last xs"
  using assms by (auto simp: find_Some_iff)

section \<open>The pool as a state machine\<close>

text \<open>
  The interface the thread's code has: an implementation \<open>exec\<close> of the operations whose states
  \<open>repr\<close>esent call stack, free list and working tasks.
\<close>

fun run_pool :: "(nat \<Rightarrow> nat) \<Rightarrow> nat list \<times> nat list \<times> nat list \<Rightarrow> pool_op list \<Rightarrow> (nat list \<times> nat list \<times> nat list) option" where
  "run_pool cof S [] = Some S"
| "run_pool cof S (op # ops) = (case step_pool cof S op of None \<Rightarrow> None | Some S' \<Rightarrow> run_pool cof S' ops)"

locale task_scheduling =
  fixes repr :: "'s \<Rightarrow> nat list \<times> nat list \<times> nat list \<Rightarrow> bool"
    and cof :: "nat \<Rightarrow> nat"
    and exec :: "'s \<Rightarrow> pool_op \<Rightarrow> 's c_result"
  assumes step_law: "repr s S \<Longrightarrow> step_pool cof S op = Some S' \<Longrightarrow> \<exists>s'. exec s op = Inr s' \<and> repr s' S'"
begin

lemma run_law: "repr s S \<Longrightarrow> run_pool cof S ops = Some S' \<Longrightarrow> \<exists>s'. foldR exec s ops = Inr s' \<and> repr s' S'"
proof (induction ops arbitrary: s S)
  case (Cons op ops)
  then obtain S1 where S1: "step_pool cof S op = Some S1" "run_pool cof S1 ops = Some S'"
    by (auto split: option.splits)
  from step_law [OF Cons.prems(1) S1(1)] obtain s1 where "exec s op = Inr s1" "repr s1 S1" by blast
  with Cons.IH [OF _ S1(2)] show ?case by simp
qed simp

end

lemma pool_step:
  assumes "pool_ok p t cof xs fs ws" and "step_pool cof (xs, fs, ws) op = Some (xs', fs', ws')"
  shows "\<exists>p'. do_pool t p op = Inr p' \<and> pool_ok p' t cof xs' fs' ws'"
proof (cases op)
  case (Spawn attr)
  show ?thesis
  proof (cases fs)
    case Nil
    with pool_ok_parts(2) [OF assms(1)] have "new_task p t t attr = Inr (Some (-1), p)"
      by (auto simp: pool_rep_def new_task_def proc_access)
    with assms Spawn Nil show ?thesis by simp
  next
    case (Cons k fs0)
    with assms(2) Spawn obtain f where f: "at_fun attr = Some f" "length xs < kMaxCallStack"
      and S': "xs' = xs @ [cof k]" "fs' = fs0" "ws' = k # ws" by (auto split: if_splits)
    from spawn_step [OF assms(1) [unfolded Cons] f(2,1)] S' Spawn show ?thesis
      by (auto simp: enter_task_def)
  qed
next
  case Finish
  with assms(2) obtain k where k: "find (\<lambda>k. cof k = last xs) ws = Some k"
    and S': "xs' = butlast xs" "fs' = k # fs" "ws' = remove1 k ws" by (auto split: option.splits)
  from finish_step [OF assms(1) find_working [OF k]] S' Finish show ?thesis by simp
next
  case Pause
  with assms(2) obtain k where k: "find (\<lambda>k. cof k = last xs) ws = Some k"
    and S': "xs' = butlast xs" "fs' = fs" "ws' = ws" by (auto split: option.splits)
  obtain ys a where xs: "xs = ys @ [a, cof k]" by (rule pool_ok_top [OF assms(1) find_working [OF k]])
  note ok = assms(1) [unfolded xs]
  from yield_step(1) [OF pool_ok_parts(1) [OF ok]] pool_pop(2) [OF ok] xs S' Pause show ?thesis
    by (simp add: butlast_append)
next
  case (Wake k)
  with assms(2) have k: "k \<in> set ws" "cof k \<notin> set xs" "length xs < kMaxCallStack"
    and S': "xs' = xs @ [cof k]" "fs' = fs" "ws' = ws" by (auto split: if_splits)
  note push = pool_push [OF assms(1) k]
  obtain tk where "tasks p k = Some tk" "tk_coroutine tk = Some (cof k)"
    by (rule pool_ok_objects [OF assms(1), of k]) (use k in auto)
  with push switched_id [OF pool_ok_parts(1) [OF push(2)]] S' Wake show ?thesis
    by (simp add: get_task_def)
qed

interpretation ts: task_scheduling "\<lambda>p (xs, fs, ws). pool_ok p t cof xs fs ws" cof "do_pool t"
  by unfold_locales (use pool_step in \<open>auto split: prod.splits\<close>)

section \<open>Creating the pool\<close>

text \<open>
  The thread while \<open>create_thread_taskpool\<close> builds its pool: \<open>m\<close> is the thread's own coroutine,
  \<open>fs\<close> the tasks built so far, and \<open>ptr\<close> the head of their list.
\<close>

definition building :: "'k process \<Rightarrow> nat \<Rightarrow> (nat \<Rightarrow> nat) \<Rightarrow> nat \<Rightarrow> nat option \<Rightarrow> nat list \<Rightarrow> bool" where
  "building p t cof m ptr fs \<longleftrightarrow> stack_ok p t [m] \<and> chain (tasks p) ptr fs \<and> distinct fs \<and>
     (\<forall>k \<in> set fs. member p t cof TASK_WAITING k \<and> saved p (cof k) \<and> cof k \<noteq> m) \<and>
     (\<forall>i \<ge> next_id p. coroutines p i = None \<and> tasks p i = None)"

lemma stack_ok_fresh:
  assumes "stack_ok p t [m]" and "coroutines p c = None" and "env_stack env [m]"
  shows "stack_ok (p\<lparr>next_id := n, tasks := T, brk := b, coroutines := (coroutines p)(c \<mapsto> co)\<rparr>) t [m]"
  using assms by (auto simp: stack_ok_def co_of_def)

lemma create_task_step:
  assumes b: "building p t cof m (tp_free pool) fs" and i: "i < length (tp_tasks pool)"
  shows "\<exists>p' pool' cof' k. create_task t (p, pool) i = Inr (p', pool') \<and>
    building p' t cof' m (tp_free pool') (k # fs) \<and> length (tp_tasks pool') = length (tp_tasks pool) \<and>
    tp_working pool' = tp_working pool"
proof -
  let ?k = "next_id p" and ?c = "Suc (next_id p)"
  let ?tk = "zero_task\<lparr>tk_pool := t, tk_coroutine := Some ?c, tk_next := tp_free pool, tk_state := TASK_WAITING\<rparr>"
  let ?co = "zero_coroutine\<lparr>co_env := t, co_fun := Some Task_main, co_arg := TaskPtr ?k,
         co_stack := Some \<lparr>cs_size = op_stack_size (gOptions p), cs_start = brk p,
                           cs_end = brk p + op_stack_size (gOptions p)\<rparr>,
         co_context := \<lparr>cx_regs = Zeroed, cx_size = op_stack_size (gOptions p), cx_sp = brk p\<rparr>, co_task := Some ?k\<rparr>"
  let ?q = "p\<lparr>next_id := Suc ?c, brk := brk p + op_stack_size (gOptions p),
              coroutines := (coroutines p)(?c \<mapsto> ?co), tasks := (tasks p)(?k \<mapsto> ?tk)\<rparr>"
  let ?pool = "pool\<lparr>tp_tasks := (tp_tasks pool)[i := Some ?k], tp_free := Some ?k\<rparr>"
  let ?r = "resumed ?q t [m] ?c"
  from b have st: "stack_ok p t [m]" and fresh: "\<And>i. next_id p \<le> i \<Longrightarrow> coroutines p i = None \<and> tasks p i = None"
    by (simp_all add: building_def)
  have bound: "t < gEnv_size" and env: "\<exists>env. gEnv p t = Some env"
    using stack_ok_bound [OF st] stack_ok_env [OF st] by auto
  have m: "m \<noteq> ?c" "\<exists>cur. coroutines p m = Some cur" using stack_ok_last [OF st] fresh [of ?c] by auto
  have stq: "stack_ok ?q t [m]" using st m by (auto simp: stack_ok_def co_of_def)
  have rq: "ready ?q t ?c" by (simp add: ready_def zero_coroutine_def)
  have res: "coroutine_resume ?q t (Some ?c) = Inr ?r" "stack_ok ?r t [m, ?c]"
    using coroutine_resume_resumed [OF stq _ rq] m(1) by (simp_all add: kMaxCallStack_def)
  have y: "yield_env ?r t t = Inr (yielded ?r t [m, ?c])" "stack_ok (yielded ?r t [m, ?c]) t [m]"
    using yield_env_yielded [of ?r t "[]" m ?c] res(2) by simp_all
  define P C where "P = yielded ?r t [m, ?c]" and "C = mark_saved (mark_running ?co)"
  let ?cof = "cof(?k := ?c)"
  from m(2) obtain cur where cur: "coroutines p m = Some cur" by blast
  have co: "coroutines ?r ?c = Some (mark_running ?co)" using m(1) by (simp add: resumed_def)
  have co': "coroutines P d = (if d = ?c then Some C
      else if d = m then Some (mark_saved cur) else coroutines p d)" for d
    using m(1) cur by (auto simp: resumed_def yielded_def P_def C_def)
  have tk: "tasks ?r ?k = Some ?tk" "tasks P = (tasks p)(?k \<mapsto> ?tk)" by (simp_all add: P_def)
  have C: "co_env C = t" "co_task C = Some ?k" "co_arg C = TaskPtr ?k" "co_state C = RUNNING" "cx_regs (co_context C) = Saved"
    by (simp_all add: C_def mark_running_def mark_saved_def zero_coroutine_def)
  have ok: "stack_ok P t [m]" "next_id P = Suc ?c" using y(2) by (simp_all add: P_def resumed_def yielded_def)
  have "coroutine_main_enter ?r (Some ?c) = Inr (Some (Task_main, TaskPtr ?k))"
    by (simp only: coroutine_main_enter_def get_co_def deref_def option.case co) (simp add: mark_running_def)
  moreover have "task_main_head ?r t ?k = Inr (Yielded P)"
    using tk(1) y(1) bound
    by (simp add: P_def task_main_head_def get_task_def coroutine_yield_context_def get_curr_thread_env_def)
  ultimately have run: "task_first_run ?r t ?c = Inr P" by (simp add: task_first_run_def)
  have "create_task t (p, pool) i = bindR (coroutine_resume ?q t (Some ?c)) (\<lambda>p.
      bindR (task_first_run p t ?c) (\<lambda>p. bindR (coroutine_swap_back p t) (\<lambda>p. Inr (p, ?pool))))"
    using i bound env
    by (auto simp: create_task_def Let_def proc_access coroutine_new_with_def get_curr_thread_env_def create_env_run)
  then have "create_task t (p, pool) i = Inr (P, ?pool)"
    using res(1) run swap_back_id [OF ok(1)] by simp
  moreover have "building P t ?cof m (tp_free ?pool) (?k # fs)"
  proof -
    have new: "?k \<notin> set fs" "\<forall>j \<in> set fs. j \<noteq> ?k \<and> cof j \<noteq> ?c"
      using b fresh [of ?k] fresh [of ?c] by (auto simp: building_def member_def)
    have "member P t ?cof TASK_WAITING ?k" "saved P ?c"
      by (simp_all add: member_def saved_def co' tk(2) C)
    moreover have "member P t ?cof TASK_WAITING j \<and> saved P (?cof j)" if "j \<in> set fs" for j
      using that new b by (simp add: building_def member_def saved_def co' tk(2))
    moreover have "chain (tasks P) (Some ?k) (?k # fs)" using new b by (simp add: tk(2) building_def)
    moreover have "\<forall>i \<ge> next_id P. coroutines P i = None \<and> tasks P i = None"
      using fresh cur ok(2) by (auto simp: co' tk(2))
    ultimately show ?thesis using ok(1) m new b by (simp add: building_def)
  qed
  ultimately show ?thesis by (intro exI [of _ P] exI [of _ ?pool] exI [of _ ?cof] exI [of _ ?k]) simp
qed

lemma create_tasks:
  assumes "building p t cof m (tp_free pool) fs" and "\<forall>i \<in> set is. i < length (tp_tasks pool)"
  shows "\<exists>p' pool' cof' ks. foldR (create_task t) (p, pool) is = Inr (p', pool') \<and>
    building p' t cof' m (tp_free pool') (ks @ fs) \<and> length ks = length is \<and>
    length (tp_tasks pool') = length (tp_tasks pool) \<and> tp_working pool' = tp_working pool"
  using assms
proof (induction "is" arbitrary: p pool cof fs)
  case Nil
  then show ?case by (intro exI [of _ p] exI [of _ pool] exI [of _ cof] exI [of _ "[]"]) simp
next
  case (Cons i "is")
  then obtain p1 pool1 cof1 k where s: "create_task t (p, pool) i = Inr (p1, pool1)"
    "building p1 t cof1 m (tp_free pool1) (k # fs)" "length (tp_tasks pool1) = length (tp_tasks pool)"
    "tp_working pool1 = tp_working pool" using create_task_step [of p t cof m pool fs i] by auto
  with Cons.IH [OF s(2)] Cons.prems obtain p2 pool2 cof2 ks where
    "foldR (create_task t) (p1, pool1) is = Inr (p2, pool2)" "building p2 t cof2 m (tp_free pool2) (ks @ k # fs)"
    "length ks = length is" "length (tp_tasks pool2) = length (tp_tasks pool)" "tp_working pool2 = tp_working pool"
    by auto
  with s show ?case by (intro exI [of _ p2] exI [of _ pool2] exI [of _ cof2] exI [of _ "ks @ [k]"]) simp
qed

lemma building_pool_ok:
  assumes b: "building p t cof m (tp_free pool) fs" and "tp_working pool = 0" and "tp_size pool = int (length fs)"
  shows "pool_ok (put_pool p t pool) t cof [m] fs []"
proof -
  from b have st: "stack_ok p t [m]" by (simp add: building_def)
  have "stack_ok (put_pool p t pool) t [m]" by (rule stack_ok_put_pool [OF st])
  moreover have "pool_rep (put_pool p t pool) t fs []"
    using assms by (simp add: pool_rep_def put_pool_def building_def)
  moreover have "member (put_pool p t pool) t cof st k = member p t cof st k"
    "saved (put_pool p t pool) c = saved p c" for st k c by (simp_all add: member_def saved_def put_pool_def)
  ultimately show ?thesis using b by (auto simp: pool_ok_def building_def)
qed

lemma create_pool_overflow:
  assumes b: "building p t cof m None []" and n: "2 \<le> n"
  shows "create_thread_taskpool p t n = Inl OutOfBounds"
proof -
  let ?pool = "\<lparr>tp_tasks = replicate 1 None, tp_free = None, tp_size = 0, tp_working = 0\<rparr>"
  have split: "[0..<nat n] = 0 # 1 # [2..<nat n]" using n by (simp add: upt_conv_Cons numeral_2_eq_2)
  obtain p1 pool1 where "create_task t (p, ?pool) 0 = Inr (p1, pool1)" "length (tp_tasks pool1) = 1"
    using create_task_step [of p t cof m ?pool "[]" 0] b by auto
  then have "foldR (create_task t) (p, ?pool) [0..<nat n] = Inl OutOfBounds"
    unfolding split by (simp add: create_task_def array_set_def Let_def)
  then show ?thesis by (simp add: create_thread_taskpool_def)
qed

lemma create_pool_ok:
  assumes b: "building p t cof m None []" and n: "0 \<le> n" "n \<le> 1"
  shows "\<exists>pool p' cof' fs. create_thread_taskpool p t n = Inr (pool, p') \<and> int (length fs) = n \<and> stack_ok p' t [m] \<and>
    pool_ok (put_pool p' t pool) t cof' [m] fs []"
proof -
  let ?pool = "\<lparr>tp_tasks = replicate 1 None, tp_free = None, tp_size = 0, tp_working = 0\<rparr>"
  have "\<forall>i \<in> set [0..<nat n]. i < length (tp_tasks ?pool)" using n by auto
  from create_tasks [of p t cof m ?pool "[]", OF _ this] b obtain p1 pool1 cof1 ks where
    c: "foldR (create_task t) (p, ?pool) [0..<nat n] = Inr (p1, pool1)"
    "building p1 t cof1 m (tp_free pool1) ks" "length ks = nat n" "tp_working pool1 = 0" by auto
  then have "pool_ok (put_pool p1 t (pool1\<lparr>tp_size := n\<rparr>)) t cof1 [m] ks []"
    using n by (intro building_pool_ok) simp_all
  moreover have "stack_ok p1 t [m]" using c(2) by (simp add: building_def)
  ultimately show ?thesis using c n
    by (intro exI [of _ "pool1\<lparr>tp_size := n\<rparr>"] exI [of _ p1] exI [of _ cof1] exI [of _ ks]) (simp add: create_thread_taskpool_def)
qed

section \<open>Properties\<close>

text \<open>A thread with a pool of two free tasks, whose coroutines have run up to their first yield.\<close>

definition pool_co :: "nat \<Rightarrow> coroutine_t" where
  "pool_co k = zero_coroutine\<lparr>co_env := 7, co_arg := TaskPtr k, co_task := Some k, co_state := RUNNING,
     co_context := \<lparr>cx_regs = Saved, cx_size = 0, cx_sp = 0\<rparr>\<rparr>"

definition pool_process :: "unit process" where
  "pool_process = demo_process\<lparr>
     gEnv := [7 \<mapsto> demo_env\<lparr>ev_pool := Some \<lparr>tp_tasks = [Some 4, Some 5], tp_free = Some 5, tp_size = 2, tp_working = 0\<rparr>\<rparr>],
     coroutines := (coroutines demo_process)(1 \<mapsto> pool_co 4, 2 \<mapsto> pool_co 5),
     tasks := [4 \<mapsto> zero_task\<lparr>tk_pool := 7, tk_coroutine := Some 1, tk_state := TASK_WAITING\<rparr>,
               5 \<mapsto> zero_task\<lparr>tk_pool := 7, tk_coroutine := Some 2, tk_state := TASK_WAITING, tk_next := Some 4\<rparr>],
     next_id := 6\<rparr>"

definition pool_cof :: "nat \<Rightarrow> nat" where
  "pool_cof k = (if k = 4 then 1 else 2)"

definition demo_attr :: coroutine_task_attr_t where
  "demo_attr = \<lparr>at_enable_sys_hook = True, at_max_timeout_ms = 100, at_arg = UserPtr 1, at_fun = Some (UserFun 0),
     at_timeout = Some (UserFun 1)\<rparr>"

lemma pool_process_stack: "stack_ok pool_process 7 [0]"
  by (simp add: stack_ok_def pool_process_def demo_process_def demo_env_def env_stack_def co_of_def gEnv_size_def
      kMaxCallStack_def zero_coroutine_def)

lemma pool_process_ok: "pool_ok pool_process 7 pool_cof [0] [5, 4] []"
  unfolding pool_ok_def
  by (intro conjI pool_process_stack)
    (simp_all add: pool_process_def demo_process_def demo_env_def pool_rep_def member_def saved_def
      pool_cof_def pool_co_def zero_coroutine_def zero_task_def)

text \<open>
  C4. The task pool, whatever the order in which tasks are started, leave the processor in the
  middle of their function, are given control again, and end: for every such sequence that the
  specification \<open>run_pool\<close> accepts, the code runs without a fault and ends in the state of the
  specification. In every state reached, each task is either on the free list or working, the
  counters \<open>working\<close> and \<open>size\<close> agree with that, and the active coroutines are those of working tasks.
\<close>

theorem task_pool_refines:
  assumes "pool_ok p t cof xs fs ws" and "run_pool cof (xs, fs, ws) ops = Some (xs', fs', ws')"
  shows "\<exists>p'. foldR (do_pool t) p ops = Inr p' \<and> pool_ok p' t cof xs' fs' ws'"
  using ts.run_law [of p t cof "(xs, fs, ws)" ops "(xs', fs', ws')"] assms by simp

theorem task_pool_refines_witness:
  "\<exists>p'. foldR (do_pool 7) pool_process [Spawn demo_attr, Spawn demo_attr, Spawn demo_attr, Pause, Finish, Wake 4, Finish] = Inr p' \<and>
    pool_ok p' 7 pool_cof [0] [4, 5] []"
proof -
  have "run_pool pool_cof ([0], [5, 4], []) [Spawn demo_attr, Spawn demo_attr, Spawn demo_attr, Pause, Finish, Wake 4, Finish] =
    Some ([0], [4, 5], [])"
    by (simp add: pool_cof_def demo_attr_def kMaxCallStack_def)
  from task_pool_refines [OF pool_process_ok this] show ?thesis .
qed

text \<open>
  C21. \<open>new_task\<close> fails with \<open>-1\<close> and changes nothing when every task is working. Otherwise it takes
  the first free task, and the user's function is called in that task's coroutine with the
  argument of the attributes, which is also what \<open>coroutine_arg\<close> gives there, with the whole
  time budget ahead.
\<close>

theorem new_task_correct:
  assumes "pool_ok p t cof xs fs ws" and "length xs < kMaxCallStack" and "at_fun attr = Some f"
  shows "(fs = [] \<longrightarrow> new_task p t t attr = Inr (Some (-1), p)) \<and>
    (\<forall>k fs'. fs = k # fs' \<longrightarrow> (\<exists>p1 p' tk. new_task p t t attr = Inr (None, p1) \<and> switched p1 t = Inr p1 \<and>
       coroutine_self p' t = Inr (Some (cof k)) \<and>
       task_main_head p1 t k = Inr (Calls f (at_arg attr) p') \<and> pool_ok p' t cof (xs @ [cof k]) fs' (k # ws) \<and>
       coroutine_arg p' t = Inr (at_arg attr) \<and> tasks p' k = Some tk \<and> tk_attr tk = attr \<and>
       \<not> tk_timeout tk \<and> tk_leftmsec tk = at_max_timeout_ms attr))"
proof (intro conjI allI impI)
  show "new_task p t t attr = Inr (Some (-1), p)" if "fs = []"
    using that pool_ok_parts(2) [OF assms(1)] by (auto simp: pool_rep_def new_task_def proc_access)
next
  fix k fs' assume fs: "fs = k # fs'"
  from spawn_step [OF assms(1) [unfolded fs] assms(2,3)] obtain p1 p' where
    s: "new_task p t t attr = Inr (None, p1)" "switched p1 t = Inr p1" "current_task p1 t = Inr k"
    "task_main_head p1 t k = Inr (Calls f (at_arg attr) p')" "pool_ok p' t cof (xs @ [cof k]) fs' (k # ws)"
    and tk: "\<exists>tk. tasks p' k = Some tk \<and> tk_attr tk = attr \<and> tk_arg tk = at_arg attr \<and>
       \<not> tk_timeout tk \<and> tk_leftmsec tk = at_max_timeout_ms attr"
    by force
  have self: "coroutine_self p' t = Inr (Some (cof k))"
    using self_is_running(1) [OF pool_ok_parts(1) [OF s(5)]] by simp
  obtain co where "coroutines p' (cof k) = Some co" "co_task co = Some k"
    by (rule pool_ok_objects [OF s(5), of k]) auto
  with self tk have "coroutine_arg p' t = Inr (at_arg attr)"
    by (auto simp: coroutine_arg_def get_co_def get_task_def)
  with self show "\<exists>p1 p' tk. new_task p t t attr = Inr (None, p1) \<and> switched p1 t = Inr p1 \<and>
       coroutine_self p' t = Inr (Some (cof k)) \<and>
       task_main_head p1 t k = Inr (Calls f (at_arg attr) p') \<and> pool_ok p' t cof (xs @ [cof k]) fs' (k # ws) \<and>
       coroutine_arg p' t = Inr (at_arg attr) \<and> tasks p' k = Some tk \<and> tk_attr tk = attr \<and>
       \<not> tk_timeout tk \<and> tk_leftmsec tk = at_max_timeout_ms attr"
    using s tk by blast
qed

theorem new_task_correct_witness:
  "\<exists>p1 p' tk. new_task pool_process 7 7 demo_attr = Inr (None, p1) \<and>
    task_main_head p1 7 5 = Inr (Calls (UserFun 0) (UserPtr 1) p') \<and> coroutine_self p' 7 = Inr (Some 2) \<and>
    coroutine_arg p' 7 = Inr (UserPtr 1) \<and> tasks p' 5 = Some tk \<and> tk_leftmsec tk = 100"
proof -
  have "length [0] < kMaxCallStack" "at_fun demo_attr = Some (UserFun 0)"
    by (simp_all add: kMaxCallStack_def demo_attr_def)
  from new_task_correct [OF pool_process_ok this] show ?thesis
    by (auto simp: pool_cof_def demo_attr_def)
qed

text \<open>
  C27. The set-up of a thread, from a thread without environment to its pool: with one task for each
  thread (or none) \<open>do_init_curr_thread_env\<close> runs to its end and leaves the thread's own coroutine
  running and the pool with that many free tasks, each with a coroutine of its own that has been
  started and waits in \<open>task_main\<close>. With two tasks or more it writes past the end of the array \<open>tasks\<close>.
\<close>

theorem thread_set_up:
  assumes "t < gEnv_size" and "heap_ok p" and "0 \<le> op_stack_size (gOptions p)"
    and "et_start (ep_timer (fst (alloc_epoll K p 10240))) \<noteq> 0" and "\<forall>i \<ge> next_id p. tasks p i = None"
    and "0 \<le> op_task_per_thread (gOptions p)"
  shows "if op_task_per_thread (gOptions p) \<le> 1
    then \<exists>p' cof fs. do_init_curr_thread_env K t p = Inr p' \<and> pool_ok p' t cof [next_id p] fs [] \<and>
      int (length fs) = op_task_per_thread (gOptions p)
    else do_init_curr_thread_env K t p = Inl OutOfBounds"
proof -
  let ?n = "op_task_per_thread (gOptions p)" and ?m = "next_id p"
  obtain q where q: "init_curr_thread_env K p t = Inr q" "stack_ok q t [?m]"
    "\<forall>c. c \<noteq> ?m \<longrightarrow> coroutines q c = coroutines p c" "tasks q = tasks p" "next_id q = Suc ?m" "gOptions q = gOptions p"
    by (rule init_env_created [OF assms(1-4)])
  have "coroutines p i = None" if "i \<ge> ?m" for i
    using assms(2) that by (cases "coroutines p i") (fastforce simp: heap_ok_def)+
  then have b: "building q t id ?m None []" using q assms(5) by (simp add: building_def)
  show ?thesis
  proof (cases "?n \<le> 1")
    case True
    from create_pool_ok [OF b assms(6) True] obtain pool p' cof fs where c: "create_thread_taskpool q t ?n = Inr (pool, p')"
      "int (length fs) = ?n" "stack_ok p' t [?m]" "pool_ok (put_pool p' t pool) t cof [?m] fs []" by blast
    moreover have "set_env p' t (\<lambda>env. env\<lparr>ev_pool := Some pool\<rparr>) = Inr (put_pool p' t pool)"
      using stack_ok_env [OF c(3)] by (auto simp: set_env_def get_env_def put_pool_def)
    ultimately show ?thesis using True q(1,6) by (auto simp: do_init_curr_thread_env_def)
  next
    case False
    then have "create_thread_taskpool q t ?n = Inl OutOfBounds" by (intro create_pool_overflow [OF b]) simp
    with False q(1,6) show ?thesis by (simp add: do_init_curr_thread_env_def)
  qed
qed

lemma demo_building: "building (demo_process\<lparr>tasks := Map.empty\<rparr>) 7 pool_cof 0 None []"
  using demo_stack
  by (auto simp: building_def demo_process_def intro: stack_ok_cong [OF demo_stack])

text \<open>A process before its first thread is set up, with \<open>n\<close> tasks for each thread.\<close>

definition bare_process :: "int \<Rightarrow> unit process" where
  "bare_process n = demo_process\<lparr>gOptions := \<lparr>op_stack_size = 131072, op_task_per_thread = n\<rparr>,
     gEnv := Map.empty, coroutines := Map.empty, running := Map.empty\<rparr>"

lemma bare_process_start: "heap_ok (bare_process n)" "next_id (bare_process n) = 3" "\<forall>i. tasks (bare_process n) i = None"
  "gOptions (bare_process n) = \<lparr>op_stack_size = 131072, op_task_per_thread = n\<rparr>"
  "et_start (ep_timer (fst (alloc_epoll demo_kernel (bare_process n) 10240))) \<noteq> 0"
  unfolding alloc_epoll_start
  by (simp_all add: heap_ok_def bare_process_def demo_process_def do_epoll_create_def GetTickMS_def demo_kernel_def)

theorem thread_set_up_witness:
  "(\<exists>p' cof k. do_init_curr_thread_env demo_kernel 4 (bare_process 1) = Inr p' \<and> pool_ok p' 4 cof [3] [k] []) \<and>
    do_init_curr_thread_env demo_kernel 4 (bare_process 2) = Inl OutOfBounds"
proof -
  have s: "4 < gEnv_size" by (simp add: gEnv_size_def)
  have "\<exists>p' cof fs. do_init_curr_thread_env demo_kernel 4 (bare_process 1) = Inr p' \<and> pool_ok p' 4 cof [3] fs [] \<and>
      int (length fs) = 1"
    using thread_set_up [OF s bare_process_start(1) _ bare_process_start(5), of 1] by (simp add: bare_process_start)
  then have "\<exists>p' cof k. do_init_curr_thread_env demo_kernel 4 (bare_process 1) = Inr p' \<and> pool_ok p' 4 cof [3] [k] []"
    by (auto simp: length_Suc_conv)
  moreover have "do_init_curr_thread_env demo_kernel 4 (bare_process 2) = Inl OutOfBounds"
    using thread_set_up [OF s bare_process_start(1) _ bare_process_start(5), of 2] by (simp add: bare_process_start)
  ultimately show ?thesis ..
qed

text \<open>
  C34. The array that \<open>create_thread_taskpool\<close> allocates has room for one task, so that every pool of
  two tasks or more (the default is 1000) is written past the end of the array \<open>tasks\<close> while it
  is built.
\<close>

theorem taskpool_overflows:
  assumes "building p t cof m None []" and "2 \<le> n"
  shows "create_thread_taskpool p t n = Inl OutOfBounds"
  by (rule create_pool_overflow [OF assms])

theorem taskpool_overflows_witness:
  "create_thread_taskpool (demo_process\<lparr>tasks := Map.empty\<rparr>) 7 kDefaultTaskPerThread = Inl OutOfBounds"
  by (rule taskpool_overflows [OF demo_building]) (simp add: kDefaultTaskPerThread_def)

text \<open>
  C35. The timeout callback of a task is not given the argument of the task: \<open>task_main\<close> passes
  \<open>task->coroutine->arg\<close>, which is the task structure itself, for every task of the pool.
\<close>

theorem timeout_callback_argument:
  assumes "pool_ok p t cof xs fs ws" and "k \<in> set ws" and "tasks p k = Some tk"
  shows "task_main_ran p k =
    Inr (if tk_timeout tk then map_option (\<lambda>g. (g, TaskPtr k)) (at_timeout (tk_attr tk)) else None)"
proof -
  obtain co where "tk_coroutine tk = Some (cof k)" "coroutines p (cof k) = Some co" "co_arg co = TaskPtr k"
    using assms(3) by (rule_tac pool_ok_objects [OF assms(1), of k]) (use assms(2) in auto)
  with assms(3) show ?thesis
    by (cases "at_timeout (tk_attr tk)") (simp_all add: task_main_ran_def get_task_def get_co_def)
qed

text \<open>The same thread while task \<open>5\<close> runs its function, its time used up.\<close>

definition late_process :: "unit process" where
  "late_process = pool_process\<lparr>
     gEnv := [7 \<mapsto> demo_env\<lparr>ev_callstack := Some 0 # Some 2 # replicate 126 None, ev_callstacksize := 2,
       ev_pool := Some \<lparr>tp_tasks = [Some 4, Some 5], tp_free = Some 4, tp_size = 2, tp_working = 1\<rparr>\<rparr>],
     coroutines := (coroutines pool_process)(0 \<mapsto> (mark_saved zero_coroutine)\<lparr>co_env := 7, co_main := True\<rparr>),
     tasks := (tasks pool_process)(5 \<mapsto> zero_task\<lparr>tk_pool := 7, tk_coroutine := Some 2, tk_state := TASK_RUNNING,
       tk_arg := UserPtr 1, tk_attr := demo_attr, tk_timeout := True\<rparr>),
     running := [7 \<mapsto> 2]\<rparr>"

lemma late_process_ok: "pool_ok late_process 7 pool_cof [0, 2] [4] [5]"
proof -
  have "stack_ok late_process 7 [0, 2]"
    by (simp add: stack_ok_def late_process_def pool_process_def demo_process_def demo_env_def env_stack_def
        co_of_def saved_def gEnv_size_def kMaxCallStack_def pool_co_def zero_coroutine_def)
  then show ?thesis unfolding pool_ok_def
    by (intro conjI)
      (simp_all add: late_process_def pool_process_def demo_process_def demo_env_def pool_rep_def member_def saved_def
        pool_cof_def pool_co_def zero_coroutine_def zero_task_def)
qed

theorem timeout_callback_argument_witness:
  "task_main_ran late_process 5 = Inr (Some (UserFun 1, TaskPtr 5)) \<and> coroutine_arg late_process 7 = Inr (UserPtr 1)"
proof -
  let ?tk = "zero_task\<lparr>tk_pool := 7, tk_coroutine := Some 2, tk_state := TASK_RUNNING,
       tk_arg := UserPtr 1, tk_attr := demo_attr, tk_timeout := True\<rparr>"
  have tk: "tasks late_process 5 = Some ?tk" by (simp add: late_process_def)
  have "coroutine_self late_process 7 = Inr (Some 2)"
    using self_is_running(1) [OF pool_ok_parts(1) [OF late_process_ok]] by simp
  moreover have "coroutines late_process 2 = Some (pool_co 5)" by (simp add: late_process_def pool_process_def)
  ultimately have "coroutine_arg late_process 7 = Inr (UserPtr 1)"
    by (simp add: coroutine_arg_def get_co_def get_task_def tk pool_co_def)
  moreover have "task_main_ran late_process 5 = Inr (Some (UserFun 1, TaskPtr 5))"
    using timeout_callback_argument [OF late_process_ok _ tk] by (simp add: demo_attr_def)
  ultimately show ?thesis by simp
qed

end
