(* ===== verification/Poll.thy ===== *)
theory Poll
  imports Task_Pool
begin

unbundle bit_operations_syntax

text \<open>
  Waiting for file descriptors and time (\<^verbatim>\<open>src/src/coroutine_impl.c\<close>, lines 227 to 451 and 489 to
  491). \<open>poll_inner\<close> is split at the yield: \<open>poll_enter\<close> registers the descriptors and the
  timeout and gives up the processor, or returns at once; \<open>poll_leave\<close> is what the coroutine does
  when it is resumed.
\<close>

section \<open>Events\<close>

definition POLLIN :: "'a::len word" where "POLLIN = 1"
definition POLLOUT :: "'a::len word" where "POLLOUT = 4"
definition POLLERR :: "'a::len word" where "POLLERR = 8"
definition POLLHUP :: "'a::len word" where "POLLHUP = 16"

definition EPOLLIN :: u32 where "EPOLLIN = 1"
definition EPOLLOUT :: u32 where "EPOLLOUT = 4"
definition EPOLLERR :: u32 where "EPOLLERR = 8"
definition EPOLLHUP :: u32 where "EPOLLHUP = 16"

lemmas event_defs = POLLIN_def POLLOUT_def POLLERR_def POLLHUP_def
  EPOLLIN_def EPOLLOUT_def EPOLLERR_def EPOLLHUP_def

definition poll_event_to_epoll :: "16 word \<Rightarrow> u32" where
  "poll_event_to_epoll events =
     (let e = 0;
          e = (if events AND POLLIN \<noteq> 0 then e OR EPOLLIN else e);
          e = (if events AND POLLOUT \<noteq> 0 then e OR EPOLLOUT else e);
          e = (if events AND POLLHUP \<noteq> 0 then e OR EPOLLHUP else e);
          e = (if events AND POLLERR \<noteq> 0 then e OR EPOLLERR else e);
          e = (if events AND POLLIN \<noteq> 0 then e OR EPOLLIN else e);
          e = (if events AND POLLOUT \<noteq> 0 then e OR EPOLLOUT else e)
      in e)"

definition epoll_event_to_poll :: "u32 \<Rightarrow> 16 word" where
  "epoll_event_to_poll events =
     (let e = 0;
          e = (if events AND EPOLLIN \<noteq> 0 then e OR POLLIN else e);
          e = (if events AND EPOLLOUT \<noteq> 0 then e OR POLLOUT else e);
          e = (if events AND EPOLLHUP \<noteq> 0 then e OR POLLHUP else e);
          e = (if events AND EPOLLERR \<noteq> 0 then e OR POLLERR else e);
          e = (if events AND EPOLLIN \<noteq> 0 then e OR POLLIN else e);
          e = (if events AND EPOLLOUT \<noteq> 0 then e OR POLLOUT else e)
      in e)"

section \<open>The time a task has left\<close>

text \<open>
  The result is the timeout and whether the task has run out of time. The difference of the
  two clock values is truncated to an \<open>int\<close>.
\<close>

definition fix_coroutine_timeout ::
  "'k process \<Rightarrow> nat \<Rightarrow> nat option \<Rightarrow> int \<Rightarrow> (int \<times> bool \<times> 'k process) c_result" where
  "fix_coroutine_timeout p t c timeout =
     bindR (get_co p c) (\<lambda>co.
     let task = co_task co in
     bindR (get_task p task) (\<lambda>tk.
     if at_max_timeout_ms (tk_attr tk) = -1 then
       (let timeout = (if timeout = -1 \<or> timeout > kMaxTimeoutMs then kMaxTimeoutMs else timeout)
        in Inr (timeout, False, p))
     else if tk_timeout tk then Inr (0, True, p)
     else
       bindR (get_now p t) (\<lambda>now.
       let diff = int_of_u64 (now - tk_last tk);
           leftmsec = wrap32 (tk_leftmsec tk - diff)
       in
         bindR (set_task p task (\<lambda>tk. tk\<lparr>tk_leftmsec := leftmsec, tk_last := now\<rparr>)) (\<lambda>p.
         if leftmsec \<le> 0 then
           bindR (set_task p task (\<lambda>tk. tk\<lparr>tk_timeout := True\<rparr>)) (\<lambda>p. Inr (0, True, p))
         else
           let timeout = (if timeout = -1 then leftmsec
                          else if timeout > leftmsec then leftmsec else timeout);
               timeout = (if timeout = -1 \<or> timeout > kMaxTimeoutMs then kMaxTimeoutMs else timeout)
           in Inr (timeout, False, p)))))"

section \<open>The callbacks of the event loop\<close>

definition get_store :: "'k process \<Rightarrow> nat \<Rightarrow> timer_store c_result" where
  "get_store p t = bindR (get_env p t) (\<lambda>env. Inr (ep_store (ev_epoll env)))"

definition put_store :: "'k process \<Rightarrow> nat \<Rightarrow> timer_store \<Rightarrow> 'k process c_result" where
  "put_store p t s = set_env p t (\<lambda>env. env\<lparr>ev_epoll := (ev_epoll env)\<lparr>ep_store := s\<rparr>\<rparr>)"

definition on_store :: "'k process \<Rightarrow> nat \<Rightarrow> (timer_store \<Rightarrow> timer_store c_result) \<Rightarrow> 'k process c_result" where
  "on_store p t f = bindR (get_store p t) (\<lambda>s. bindR (f s) (\<lambda>s. put_store p t s))"

definition get_poll :: "'k process \<Rightarrow> nat \<Rightarrow> poll_context_t c_result" where
  "get_poll p pc = deref (polls p) (Some pc)"

definition set_poll :: "'k process \<Rightarrow> nat \<Rightarrow> (poll_context_t \<Rightarrow> poll_context_t) \<Rightarrow> 'k process c_result" where
  "set_poll p pc f = bindR (get_poll p pc) (\<lambda>P. Inr (p\<lparr>polls := (polls p)(pc \<mapsto> f P)\<rparr>))"

definition process_poll_event :: "'k process \<Rightarrow> nat \<Rightarrow> nat option \<Rightarrow> 'k process c_result" where
  "process_poll_event p t item =
     bindR (get_store p t) (\<lambda>s. bindR (get_item s item) (\<lambda>it. coroutine_resume p t (ti_coroutine it)))"

definition prepare_poll_event ::
  "'k process \<Rightarrow> nat \<Rightarrow> nat option \<Rightarrow> epoll_event \<Rightarrow> list_ref \<Rightarrow> 'k process c_result" where
  "prepare_poll_event p t item ev active =
     bindR (get_store p t) (\<lambda>s.
     bindR (get_item s item) (\<lambda>it.
     case ti_arg it of
       None \<Rightarrow> Inl NullDeref
     | Some (a, i) \<Rightarrow>
         bindR (get_poll p a) (\<lambda>P.
         bindR (array_get (pc_items P) (int i)) (\<lambda>poll_item.
         let pc = pi_poll poll_item in
         bindR (get_poll p pc) (\<lambda>P.
         bindR (array_get (pc_fds P) (int (pi_self poll_item))) (\<lambda>fd.
         bindR (array_set (pc_fds P) (int (pi_self poll_item)) (fd\<lparr>pf_revents := epoll_event_to_poll (ee_events ev)\<rparr>)) (\<lambda>fds.
         bindR (set_poll p pc (\<lambda>P. P\<lparr>pc_fds := fds, pc_raise_cnt := pc_raise_cnt P + 1\<rparr>)) (\<lambda>p.
         if \<not> pc_allEventDetatch P then
           bindR (set_poll p pc (\<lambda>P. P\<lparr>pc_allEventDetatch := True\<rparr>)) (\<lambda>p.
           bindR (on_store p t (\<lambda>s. remove_from_link s (Some (pc_time P)))) (\<lambda>p.
           on_store p t (\<lambda>s. add_tail s active (Some (pc_time P)))))
         else Inr p))))))))"

section \<open>Entering\<close>

definition EPERM :: int where "EPERM = 1"
definition EINVAL :: int where "EINVAL = 22"

text \<open>
  \<open>poll_inner\<close> returns a value with the descriptors, or waits with the context it has set up.
\<close>

datatype 'p poll_step = PollReturns int "pollfd list" 'p | PollWaits nat 'p

text \<open>
  The objects of the call: the context, which is a local variable, the block with the copies of the
  descriptors, the items, which are in a local array of two entries or in a block, and the timer items
  embedded in them, all zero but for the addresses.
\<close>

definition zero_pollfd :: pollfd where
  "zero_pollfd = \<lparr>pf_fd = 0, pf_events = 0, pf_revents = 0\<rparr>"

definition poll_alloc :: "'k process \<Rightarrow> nat \<Rightarrow> nat \<Rightarrow> nat option \<Rightarrow> (nat \<times> 'k process) c_result" where
  "poll_alloc p t nfds self =
     (let pc = next_id p;
          time = Suc pc;
          P = \<lparr>pc_fds = replicate nfds zero_pollfd, pc_nfds = nfds, pc_time = time,
               pc_items = map (\<lambda>i. \<lparr>pi_self = 0, pi_poll = 0, pi_time = Suc time + i, pi_event = zero_event\<rparr>) [0..<nfds],
               pc_items_malloc = (\<not> nfds < 2), pc_allEventDetatch = False, pc_raise_cnt = 0\<rparr>;
          it = zero_item\<lparr>ti_process := Some Process_poll_event, ti_coroutine := self\<rparr>;
          h = insert (FdsBlock pc) (heap p);
          h = (if nfds < 2 then h else insert (ItemsBlock pc) h);
          p = p\<lparr>next_id := Suc time + nfds, polls := (polls p)(pc \<mapsto> P), heap := h\<rparr>
      in
        bindR (on_store p t (\<lambda>s. Inr (s\<lparr>items := (fold (\<lambda>i I. I(Suc time + i \<mapsto> zero_item)) [0..<nfds] (items s))
                                            (time \<mapsto> it)\<rparr>))) (\<lambda>p. Inr (pc, p)))"

text \<open>The body of the loop that adds descriptor \<open>i\<close> to epoll; whether \<open>poll\<close> of the C library takes over.\<close>

definition poll_add ::
  "'k kernel \<Rightarrow> 'k process \<Rightarrow> nat \<Rightarrow> nat \<Rightarrow> nat option \<Rightarrow> int \<Rightarrow> pollfd list \<Rightarrow> nat \<Rightarrow> bool \<Rightarrow> nat
   \<Rightarrow> (bool \<times> 'k process) c_result" where
  "poll_add K p t pc self epfd fds nfds has_pollfunc i =
     bindR (get_poll p pc) (\<lambda>P.
     bindR (array_get (pc_items P) (int i)) (\<lambda>item.
     let time = pi_time item in
     bindR (on_store p t (\<lambda>s. set_item s (Some time) (\<lambda>it. it\<lparr>ti_prepare := Some Prepare_poll_event,
              ti_coroutine := self, ti_arg := Some (pc, i), ti_prev := None, ti_next := None\<rparr>))) (\<lambda>p.
     bindR (array_get fds (int i)) (\<lambda>fd.
     let item = item\<lparr>pi_self := i, pi_poll := pc\<rparr>;
         item = (if pf_fd fd > -1
                 then item\<lparr>pi_event := \<lparr>ee_events = poll_event_to_epoll (pf_events fd), ee_ptr = Some time\<rparr>\<rparr>
                 else item)
     in
       bindR (set_poll p pc (\<lambda>P. P\<lparr>pc_items := (pc_items P)[i := item]\<rparr>)) (\<lambda>p.
       if pf_fd fd > -1 then
         (let (ret, p) = do_epoll_ctl K t p epfd EPOLL_CTL_ADD (pf_fd fd) (Some (pi_event item))
          in Inr (ret < 0 \<and> c_errno p t = EPERM \<and> nfds = 1 \<and> has_pollfunc, p))
       else Inr (False, p))))))"

text \<open>The loop; it ends early when \<open>poll\<close> of the C library takes over.\<close>

fun poll_add_all ::
  "(nat \<Rightarrow> 'k process \<Rightarrow> (bool \<times> 'k process) c_result) \<Rightarrow> nat list \<Rightarrow> 'k process \<Rightarrow> (bool \<times> 'k process) c_result" where
  "poll_add_all body [] p = Inr (False, p)"
| "poll_add_all body (i # is) p =
     bindR (body i p) (\<lambda>(stop, p). if stop then Inr (True, p) else poll_add_all body is p)"

text \<open>
  Freeing a block that is not allocated is a fault. \<open>poll_free\<close> is the code that frees the blocks of the
  call, with the items when they are in one; \<open>poll_end\<close> is the return from \<open>poll_inner\<close>, with which its
  local variables cease to exist.
\<close>

definition free_block :: "'k process \<Rightarrow> block \<Rightarrow> 'k process c_result" where
  "free_block p b = (if b \<in> heap p then Inr (p\<lparr>heap := heap p - {b}\<rparr>) else Inl DeadPointer)"

definition drop_items :: "nat list \<Rightarrow> timer_store \<Rightarrow> timer_store c_result" where
  "drop_items xs s = Inr (s\<lparr>items := fold (\<lambda>x I. I(x := None)) xs (items s)\<rparr>)"

definition poll_free :: "'k process \<Rightarrow> nat \<Rightarrow> nat \<Rightarrow> 'k process c_result" where
  "poll_free p t pc =
     bindR (get_poll p pc) (\<lambda>P.
     bindR (if pc_items_malloc P
            then bindR (free_block p (ItemsBlock pc)) (\<lambda>p. on_store p t (drop_items (map pi_time (pc_items P))))
            else Inr p) (\<lambda>p.
     free_block p (FdsBlock pc)))"

definition poll_end :: "'k process \<Rightarrow> nat \<Rightarrow> nat \<Rightarrow> 'k process c_result" where
  "poll_end p t pc =
     bindR (get_poll p pc) (\<lambda>P.
     on_store (p\<lparr>polls := (polls p)(pc := None)\<rparr>) t
       (drop_items (pc_time P # (if pc_items_malloc P then [] else map pi_time (pc_items P)))))"

definition epoll_del :: "'k kernel \<Rightarrow> nat \<Rightarrow> int \<Rightarrow> pollfd list \<Rightarrow> 'k process \<Rightarrow> nat \<Rightarrow> 'k process c_result" where
  "epoll_del K t epfd fds p i =
     bindR (array_get fds (int i)) (\<lambda>fd.
     if pf_fd fd > -1 then Inr (snd (do_epoll_ctl K t p epfd EPOLL_CTL_DEL (pf_fd fd) None)) else Inr p)"

definition poll_enter ::
  "'k kernel \<Rightarrow> 'k process \<Rightarrow> nat \<Rightarrow> pollfd list \<Rightarrow> nat \<Rightarrow> int
   \<Rightarrow> (pollfd list \<Rightarrow> nat \<Rightarrow> int \<Rightarrow> 'k process \<Rightarrow> int \<times> pollfd list \<times> 'k process) option
   \<Rightarrow> 'k process poll_step c_result" where
  "poll_enter K p t fds nfds timeout pollfunc =
     bindR (coroutine_self p t) (\<lambda>self.
     bindR (fix_coroutine_timeout p t self timeout) (\<lambda>(timeout, istimeout, p).
     if istimeout then Inr (PollReturns (-1) fds p)
     else
       let timeout = (if timeout = -1 \<or> timeout > kMaxTimeoutMs then kMaxTimeoutMs else timeout) in
       bindR (get_env p t) (\<lambda>env.
       let epfd = ep_fd (ev_epoll env) in
       bindR (poll_alloc p t nfds self) (\<lambda>(pc, p).
       bindR (poll_add_all (\<lambda>i p. poll_add K p t pc self epfd fds nfds (pollfunc \<noteq> None) i) [0..<nfds] p) (\<lambda>(stop, p).
       if stop then
         bindR (poll_free p t pc) (\<lambda>p.
         let (ret, fds, p) = the pollfunc fds nfds timeout p in
         bindR (poll_end p t pc) (\<lambda>p. Inr (PollReturns ret fds p)))
       else
         let (now, p) = GetTickMS K p in
         bindR (get_poll p pc) (\<lambda>P.
         bindR (on_store p t (\<lambda>s. set_item s (Some (pc_time P)) (\<lambda>it. it\<lparr>ti_expire := now + u64_of_int timeout\<rparr>))) (\<lambda>p.
         bindR (get_env p t) (\<lambda>env.
         bindR (add_timeout (ep_store (ev_epoll env)) (ep_timer (ev_epoll env)) (Some (pc_time P)) now) (\<lambda>(ret, s, timer).
         bindR (set_env p t (\<lambda>env. env\<lparr>ev_epoll := (ev_epoll env)\<lparr>ep_store := s, ep_timer := timer\<rparr>\<rparr>)) (\<lambda>p.
         if ret \<noteq> 0 then
           let p = p\<lparr>c_errno := (c_errno p)(t := EINVAL)\<rparr> in
           bindR (poll_free p t pc) (\<lambda>p.
           bindR (foldR (epoll_del K t epfd fds) p [0..<nfds]) (\<lambda>p.
           bindR (poll_end p t pc) (\<lambda>p. Inr (PollReturns (-1) fds p))))
         else
           bindR (get_curr_thread_env p t) (\<lambda>_.
           bindR (yield_env p t t) (\<lambda>p. Inr (PollWaits pc p)))))))))))))"

section \<open>Leaving\<close>

text \<open>Descriptor \<open>i\<close> is taken out of epoll and its events are copied to the caller's array.\<close>

definition poll_collect ::
  "'k kernel \<Rightarrow> nat \<Rightarrow> int \<Rightarrow> nat \<Rightarrow> 'k process \<times> pollfd list \<Rightarrow> nat \<Rightarrow> ('k process \<times> pollfd list) c_result" where
  "poll_collect K t epfd pc pf i =
     (let (p, fds) = pf in
      bindR (epoll_del K t epfd fds p i) (\<lambda>p.
      bindR (get_poll p pc) (\<lambda>P.
      bindR (array_get (pc_fds P) (int i)) (\<lambda>own.
      bindR (array_get fds (int i)) (\<lambda>fd.
      bindR (array_set fds (int i) (fd\<lparr>pf_revents := pf_revents own\<rparr>)) (\<lambda>fds. Inr (p, fds)))))))"

definition poll_leave ::
  "'k kernel \<Rightarrow> 'k process \<Rightarrow> nat \<Rightarrow> nat \<Rightarrow> pollfd list \<Rightarrow> nat \<Rightarrow> (int \<times> pollfd list \<times> 'k process) c_result" where
  "poll_leave K p t pc fds nfds =
     bindR (coroutine_swap_back p t) (\<lambda>p.
     bindR (get_poll p pc) (\<lambda>P.
     bindR (get_env p t) (\<lambda>env.
     let epfd = ep_fd (ev_epoll env) in
     bindR (on_store p t (\<lambda>s. remove_from_link s (Some (pc_time P)))) (\<lambda>p.
     bindR (foldR (poll_collect K t epfd pc) (p, fds) [0..<nfds]) (\<lambda>(p, fds).
     bindR (get_poll p pc) (\<lambda>P.
     let raise_cnt = pc_raise_cnt P in
     bindR (poll_free p t pc) (\<lambda>p.
     bindR (poll_end p t pc) (\<lambda>p. Inr (raise_cnt, fds, p)))))))))"

definition coroutine_poll ::
  "'k kernel \<Rightarrow> 'k process \<Rightarrow> nat \<Rightarrow> pollfd list \<Rightarrow> nat \<Rightarrow> int \<Rightarrow> 'k process poll_step c_result" where
  "coroutine_poll K p t fds nfds timeout_ms = poll_enter K p t fds nfds timeout_ms None"

section \<open>Translation of events\<close>

lemma and_exp: "w AND 2 ^ n = (if bit w n then 2 ^ n else 0)" for w :: "'a::len word"
  by (rule bit_word_eqI) (auto simp: bit_simps)

lemma and_bits: "w AND 1 = (if bit w 0 then 1 else 0)" "w AND 4 = (if bit w 2 then 4 else 0)"
  "w AND 8 = (if bit w 3 then 8 else 0)" "w AND 16 = (if bit w 4 then 16 else 0)" for w :: "'a::len word"
  using and_exp [of w 0] and_exp [of w 2] and_exp [of w 3] and_exp [of w 4] by simp_all

lemma to_epoll_bits: "poll_event_to_epoll e = (if bit e 0 then 1 else 0) OR (if bit e 2 then 4 else 0) OR
    (if bit e 3 then 8 else 0) OR (if bit e 4 then 16 else 0)"
  unfolding poll_event_to_epoll_def event_defs and_bits Let_def
  by (cases "bit e 0"; cases "bit e 2"; cases "bit e 3"; cases "bit e 4"; simp)

lemma to_poll_bits: "epoll_event_to_poll e = (if bit e 0 then 1 else 0) OR (if bit e 2 then 4 else 0) OR
    (if bit e 3 then 8 else 0) OR (if bit e 4 then 16 else 0)"
  unfolding epoll_event_to_poll_def event_defs and_bits Let_def
  by (cases "bit e 0"; cases "bit e 2"; cases "bit e 3"; cases "bit e 4"; simp)

lemma known_bits: "w AND (1 OR 4 OR 8 OR 16) = (if bit w 0 then 1 else 0) OR (if bit w 2 then 4 else 0) OR
    (if bit w 3 then 8 else 0) OR (if bit w 4 then 16 else 0)" for w :: "'a::len word"
  unfolding bit.conj_disj_distrib and_bits by simp

text \<open>
  C28. Translating poll events to epoll events and back keeps exactly the four kinds the code
  knows (in, out, error, hang-up) and drops the rest, and so does the other round trip.
\<close>

theorem poll_events_roundtrip:
  "epoll_event_to_poll (poll_event_to_epoll e) = e AND (POLLIN OR POLLOUT OR POLLERR OR POLLHUP) \<and>
   poll_event_to_epoll (epoll_event_to_poll w) = w AND (EPOLLIN OR EPOLLOUT OR EPOLLERR OR EPOLLHUP)"
proof -
  have "epoll_event_to_poll (poll_event_to_epoll e) = e AND (1 OR 4 OR 8 OR 16)"
    unfolding known_bits to_epoll_bits to_poll_bits
    by (cases "bit e 0"; cases "bit e 2"; cases "bit e 3"; cases "bit e 4"; simp)
  moreover have "poll_event_to_epoll (epoll_event_to_poll w) = w AND (1 OR 4 OR 8 OR 16)"
    unfolding known_bits to_epoll_bits to_poll_bits
    by (cases "bit w 0"; cases "bit w 2"; cases "bit w 3"; cases "bit w 4"; simp)
  ultimately show ?thesis unfolding event_defs by simp
qed

section \<open>The budget of a task\<close>

text \<open>
  \<open>budget tk start\<close>: the task was given its budget at time \<open>start\<close>, and what is left of it is the
  budget less the time from then to \<open>last\<close>.
\<close>

definition budget :: "task_t \<Rightarrow> u64 \<Rightarrow> bool" where
  "budget tk start \<longleftrightarrow> \<not> tk_timeout tk \<and> start \<le> tk_last tk \<and> uint (tk_last tk) - uint start < 2 ^ 31 \<and>
     int32_range (at_max_timeout_ms (tk_attr tk)) \<and>
     tk_leftmsec tk = at_max_timeout_ms (tk_attr tk) - (uint (tk_last tk) - uint start)"

text \<open>The timeout a wait gets: at most \<open>kMaxTimeoutMs\<close>, at most what is left, at most what is asked for.\<close>

definition wait_bound :: "int \<Rightarrow> int option \<Rightarrow> int" where
  "wait_bound timeout left =
     (let t = (case left of None \<Rightarrow> timeout | Some l \<Rightarrow> if timeout = -1 then l else min timeout l)
      in if t = -1 then kMaxTimeoutMs else min t kMaxTimeoutMs)"

lemma wait_bound_le: "wait_bound timeout left \<le> kMaxTimeoutMs" "0 \<le> timeout \<Longrightarrow> wait_bound timeout None \<le> timeout"
  "0 < l \<Longrightarrow> wait_bound timeout (Some l) \<le> l" "0 < l \<Longrightarrow> 0 \<le> timeout \<Longrightarrow> wait_bound timeout (Some l) \<le> timeout"
  by (auto simp: wait_bound_def Let_def kMaxTimeoutMs_def split: option.splits)

lemma wait_bound_left:
  "0 < l \<Longrightarrow> wait_bound timeout (Some l) = min (if timeout = -1 then l else min timeout l) kMaxTimeoutMs"
  by (auto simp: wait_bound_def Let_def min_def)

lemma wait_bound_nonneg:
  "-1 \<le> timeout \<Longrightarrow> (case left of None \<Rightarrow> True | Some l \<Rightarrow> 0 < l) \<Longrightarrow> 0 \<le> wait_bound timeout left"
  by (auto simp: wait_bound_def Let_def kMaxTimeoutMs_def split: option.splits)

lemma fix_timeout_unlimited:
  assumes "coroutines p c = Some co" "co_task co = Some k" "tasks p k = Some tk" "at_max_timeout_ms (tk_attr tk) = -1"
  shows "fix_coroutine_timeout p t (Some c) timeout = Inr (wait_bound timeout None, False, p)"
  using assms by (simp add: fix_coroutine_timeout_def get_co_def get_task_def wait_bound_def)

lemma fix_timeout_budget:
  assumes o: "coroutines p c = Some co" "co_task co = Some k" "tasks p k = Some tk" "at_max_timeout_ms (tk_attr tk) \<noteq> -1"
    and now: "get_now p t = Inr now" "tk_last tk \<le> now" "uint now - uint start < 2 ^ 31" and b: "budget tk start"
    and big: "at_max_timeout_ms (tk_attr tk) \<ge> 0"
  defines "left \<equiv> at_max_timeout_ms (tk_attr tk) - (uint now - uint start)"
  shows "fix_coroutine_timeout p t (Some c) timeout =
    (if left \<le> 0 then Inr (0, True, p\<lparr>tasks := (tasks p)(k \<mapsto> tk\<lparr>tk_leftmsec := left, tk_last := now, tk_timeout := True\<rparr>)\<rparr>)
     else Inr (wait_bound timeout (Some left), False, p\<lparr>tasks := (tasks p)(k \<mapsto> tk\<lparr>tk_leftmsec := left, tk_last := now\<rparr>)\<rparr>))"
proof -
  have diff: "uint (now - tk_last tk) = uint now - uint (tk_last tk)" using now(2) by (rule uint_diff_le)
  have "uint start \<le> uint (tk_last tk)" "uint (tk_last tk) \<le> uint now"
    using b now(2) by (simp_all add: budget_def word_le_def)
  moreover from this now(3) diff have "int_of_u64 (now - tk_last tk) = uint now - uint (tk_last tk)"
    by (subst int_of_u64_small) simp_all
  ultimately have left: "wrap32 (tk_leftmsec tk - int_of_u64 (now - tk_last tk)) = left"
    using b now(3) big by (subst wrap32_id) (auto simp: budget_def int32_range_def left_def)
  with o now(1) b show ?thesis
    by (auto simp: fix_coroutine_timeout_def get_co_def set_task_def get_task_def budget_def wait_bound_def Let_def min_def)
qed

text \<open>
  A task that asks at the times \<open>now\<close> of the list (as the event loop sets the clock) how long it may
  wait, and for each time the wait it is given and whether it is told that its time is over.
\<close>

fun budget_checks ::
  "'k process \<Rightarrow> nat \<Rightarrow> nat \<Rightarrow> (u64 \<times> int) list \<Rightarrow> (int \<times> bool) list c_result" where
  "budget_checks p t c [] = Inr []"
| "budget_checks p t c ((now, timeout) # rest) =
     bindR (set_env p t (\<lambda>env. env\<lparr>ev_epoll := (ev_epoll env)\<lparr>ep_now := now\<rparr>\<rparr>)) (\<lambda>p.
     bindR (fix_coroutine_timeout p t (Some c) timeout) (\<lambda>(wait, late, p).
     bindR (budget_checks p t c rest) (\<lambda>waits. Inr ((wait, late) # waits))))"

lemma budget_checks_late:
  assumes "t < gEnv_size" "gEnv p t \<noteq> None" "coroutines p c = Some co" "co_task co = Some k" "tasks p k = Some tk"
    "at_max_timeout_ms (tk_attr tk) \<noteq> -1" "tk_timeout tk"
  shows "budget_checks p t c rs = Inr (map (\<lambda>_. (0, True)) rs)"
  using assms
  by (induction rs arbitrary: p) (auto simp: fix_coroutine_timeout_def get_co_def get_task_def get_env_def set_env_def)

text \<open>
  C20. The budget of a task is kept exactly, however often and with whatever timeouts it waits: a wait
  is told that the time is over exactly when the clock has advanced by \<open>max_timeout_ms\<close> since the budget
  was given, and until then it lasts as long as was asked for, cut to what is left of the budget and to
  \<open>kMaxTimeoutMs\<close> (clock values that do not decrease and stay within 2^31 ms).
\<close>

theorem budget_exact:
  assumes "t < gEnv_size" and "gEnv p t = Some env" and "coroutines p c = Some co" and "co_task co = Some k"
    and "tasks p k = Some tk" and "budget tk start" and "0 \<le> at_max_timeout_ms (tk_attr tk)"
    and "sorted (tk_last tk # map fst rs)" and "\<forall>(now, timeout) \<in> set rs. uint now - uint start < 2 ^ 31"
  shows "budget_checks p t c rs =
    Inr (map (\<lambda>(now, timeout). let left = at_max_timeout_ms (tk_attr tk) - (uint now - uint start) in
      if left \<le> 0 then (0, True)
      else (min (if timeout = -1 then left else min timeout left) kMaxTimeoutMs, False)) rs)"
  using assms
proof (induction rs arbitrary: p env tk)
  case (Cons r rs)
  obtain now timeout where r: "r = (now, timeout)" by fastforce
  let ?max = "at_max_timeout_ms (tk_attr tk)"
  let ?left = "?max - (uint now - uint start)"
  let ?p = "p\<lparr>gEnv := (gEnv p)(t \<mapsto> env\<lparr>ev_epoll := (ev_epoll env)\<lparr>ep_now := now\<rparr>\<rparr>)\<rparr>"
  have set: "set_env p t (\<lambda>env. env\<lparr>ev_epoll := (ev_epoll env)\<lparr>ep_now := now\<rparr>\<rparr>) = Inr ?p"
    using Cons.prems(2) by (simp add: set_env_def get_env_def)
  have now: "get_now ?p t = Inr now" using Cons.prems(1)
    by (simp add: get_now_def get_curr_thread_env_def get_env_def get_epoll_now_def)
  have le: "tk_last tk \<le> now" "uint now - uint start < 2 ^ 31" and rest: "sorted (now # map fst rs)"
    using Cons.prems(8,9) r by auto
  have fix': "fix_coroutine_timeout ?p t (Some c) timeout =
    (if ?left \<le> 0 then Inr (0, True, ?p\<lparr>tasks := (tasks p)(k \<mapsto> tk\<lparr>tk_leftmsec := ?left, tk_last := now, tk_timeout := True\<rparr>)\<rparr>)
     else Inr (wait_bound timeout (Some ?left), False, ?p\<lparr>tasks := (tasks p)(k \<mapsto> tk\<lparr>tk_leftmsec := ?left, tk_last := now\<rparr>)\<rparr>))"
    using fix_timeout_budget [of ?p c co k tk t now start timeout] Cons.prems(3-7) now le by simp
  show ?case
  proof (cases "?left \<le> 0")
    case True
    have "?max - (uint n - uint start) \<le> 0" if "(n, x) \<in> set rs" for n x
      using that rest True by (force simp: word_le_def)
    moreover have "budget_checks (?p\<lparr>tasks := (tasks p)(k \<mapsto> tk\<lparr>tk_leftmsec := ?left, tk_last := now, tk_timeout := True\<rparr>)\<rparr>) t c rs =
        Inr (map (\<lambda>_. (0, True)) rs)"
      by (rule budget_checks_late) (use Cons.prems in auto)
    ultimately show ?thesis using True r by (auto simp: set fix' Let_def)
  next
    case False
    let ?tk = "tk\<lparr>tk_leftmsec := ?left, tk_last := now\<rparr>"
    have "start \<le> now" using Cons.prems(6) le(1) by (auto simp: budget_def)
    then have "budget ?tk start" using Cons.prems(6) le by (simp add: budget_def)
    with Cons.IH [of "?p\<lparr>tasks := (tasks p)(k \<mapsto> ?tk)\<rparr>" _ ?tk] Cons.prems rest r
    have "budget_checks (?p\<lparr>tasks := (tasks p)(k \<mapsto> ?tk)\<rparr>) t c rs =
      Inr (map (\<lambda>(now, timeout). let left = ?max - (uint now - uint start) in
        if left \<le> 0 then (0, True)
        else (min (if timeout = -1 then left else min timeout left) kMaxTimeoutMs, False)) rs)" by simp
    with False r show ?thesis by (simp add: set fix' Let_def wait_bound_left)
  qed
qed simp

text \<open>A task that was given 100 ms at time 1000, in the thread of \<open>late_process\<close>.\<close>

definition timed_process :: "unit process" where
  "timed_process = late_process\<lparr>tasks := (tasks late_process)(5 \<mapsto> (the (tasks late_process 5))\<lparr>
     tk_timeout := False, tk_leftmsec := 100, tk_last := 1000\<rparr>)\<rparr>"

theorem budget_exact_witness:
  "budget_checks timed_process 7 2 [(1050, -1), (1097, 5), (1100, 3), (1200, -1)] =
    Inr [(10, False), (3, False), (0, True), (0, True)]"
proof -
  let ?tk = "(the (tasks late_process 5))\<lparr>tk_timeout := False, tk_leftmsec := 100, tk_last := 1000\<rparr>"
  have "budget ?tk 1000" "at_max_timeout_ms (tk_attr ?tk) = 100"
    by (simp_all add: budget_def late_process_def zero_task_def demo_attr_def int32_range_def)
  moreover have "gEnv timed_process 7 = Some (the (gEnv timed_process 7))" "tasks timed_process 5 = Some ?tk"
    "coroutines timed_process 2 = Some (pool_co 5)" "co_task (pool_co 5) = Some 5"
    by (simp_all add: timed_process_def late_process_def pool_process_def pool_co_def)
  ultimately show ?thesis
    using budget_exact [of 7 timed_process _ 2 "pool_co 5" 5 ?tk 1000 "[(1050, -1), (1097, 5), (1100, 3), (1200, -1)]"]
    by (simp add: gEnv_size_def kMaxTimeoutMs_def)
qed

section \<open>The state while descriptors are registered\<close>

text \<open>
  The process during \<open>poll_inner\<close>, as far as it changes: the poll context with its blocks, the timer
  store, the allocator, the world and \<open>errno\<close>.
\<close>

definition blocks_of :: "nat \<Rightarrow> poll_context_t \<Rightarrow> block set" where
  "blocks_of pc P = insert (FdsBlock pc) (if pc_items_malloc P then {ItemsBlock pc} else {})"

fun live_block :: "(nat \<rightharpoonup> poll_context_t) \<Rightarrow> block \<Rightarrow> bool" where
  "live_block M (FdsBlock pc) = (case M pc of None \<Rightarrow> False | Some P \<Rightarrow> FdsBlock pc \<in> blocks_of pc P)"
| "live_block M (ItemsBlock pc) = (case M pc of None \<Rightarrow> False | Some P \<Rightarrow> ItemsBlock pc \<in> blocks_of pc P)"

definition live_blocks :: "(nat \<rightharpoonup> poll_context_t) \<Rightarrow> block set" where
  "live_blocks M = Collect (live_block M)"

lemma mem_blocks_of [simp]:
  "FdsBlock a \<in> blocks_of pc P \<longleftrightarrow> a = pc" "ItemsBlock a \<in> blocks_of pc P \<longleftrightarrow> a = pc \<and> pc_items_malloc P"
  by (auto simp: blocks_of_def)

lemma block_set_eqI: "(\<And>a. FdsBlock a \<in> A \<longleftrightarrow> FdsBlock a \<in> B) \<Longrightarrow> (\<And>a. ItemsBlock a \<in> A \<longleftrightarrow> ItemsBlock a \<in> B) \<Longrightarrow> A = B"
  by (rule set_eqI, case_tac x) auto

lemma live_blocks_new: "M pc = None \<Longrightarrow> live_blocks (M(pc \<mapsto> P)) = live_blocks M \<union> blocks_of pc P"
  by (rule block_set_eqI) (auto simp: live_blocks_def split: option.splits)

lemma live_blocks_same: "M pc = Some P \<Longrightarrow> pc_items_malloc P' = pc_items_malloc P \<Longrightarrow> live_blocks (M(pc \<mapsto> P')) = live_blocks M"
  by (rule block_set_eqI) (auto simp: live_blocks_def split: option.splits)

lemma live_blocks_gone: "M pc = Some P \<Longrightarrow> live_blocks (M(pc := None)) = live_blocks M - blocks_of pc P"
  by (rule block_set_eqI) (auto simp: live_blocks_def split: option.splits)

lemma live_blocks_mem: "M pc = Some P \<Longrightarrow> blocks_of pc P \<subseteq> live_blocks M"
  by (rule subsetI, case_tac x) (auto simp: live_blocks_def)

definition poll_state ::
  "'k process \<Rightarrow> nat \<Rightarrow> env_t \<Rightarrow> nat \<Rightarrow> nat \<Rightarrow> poll_context_t \<Rightarrow> timer_store \<Rightarrow> 'k \<Rightarrow> (nat \<Rightarrow> int) \<Rightarrow> 'k process" where
  "poll_state p t env n pc P s w e = p\<lparr>next_id := n, polls := (polls p)(pc \<mapsto> P), heap := heap p \<union> blocks_of pc P,
     gEnv := (gEnv p)(t \<mapsto> env\<lparr>ev_epoll := (ev_epoll env)\<lparr>ep_store := s\<rparr>\<rparr>), world := w, c_errno := e\<rparr>"

lemma poll_state_ops [simp]:
  "get_env (poll_state p t env n pc P s w e) t = Inr (env\<lparr>ev_epoll := (ev_epoll env)\<lparr>ep_store := s\<rparr>\<rparr>)"
  "get_poll (poll_state p t env n pc P s w e) pc = Inr P"
  "pc_items_malloc (f P) = pc_items_malloc P \<Longrightarrow>
     set_poll (poll_state p t env n pc P s w e) pc f = Inr (poll_state p t env n pc (f P) s w e)"
  "get_store (poll_state p t env n pc P s w e) t = Inr s"
  "put_store (poll_state p t env n pc P s w e) t s' = Inr (poll_state p t env n pc P s' w e)"
  "world (poll_state p t env n pc P s w e) = w" "c_errno (poll_state p t env n pc P s w e) = e"
  "(poll_state p t env n pc P s w e)\<lparr>world := w'\<rparr> = poll_state p t env n pc P s w' e"
  "(poll_state p t env n pc P s w e)\<lparr>c_errno := e'\<rparr> = poll_state p t env n pc P s w e'"
  by (cases p; simp add: poll_state_def get_env_def get_poll_def set_poll_def get_store_def put_store_def set_env_def blocks_of_def)+

lemma poll_state_store [simp]:
  "on_store (poll_state p t env n pc P s w e) t f = bindR (f s) (\<lambda>s. Inr (poll_state p t env n pc P s w e))"
  by (simp add: on_store_def)

text \<open>The clock in a world, and the worlds that calls of \<open>epoll_ctl\<close> lead to.\<close>

definition clock_at :: "'k kernel \<Rightarrow> 'k \<Rightarrow> u64" where
  "clock_at K w = (case k_gettimeofday K w of ((sec, usec), _) \<Rightarrow> sec * 1000 + usec div 1000)"

definition ctl_step :: "'k kernel \<Rightarrow> 'k \<Rightarrow> 'k \<Rightarrow> bool" where
  "ctl_step K w w' \<longleftrightarrow> (\<exists>epfd op fd ev. w' = snd (k_epoll_ctl K epfd op fd ev w))"

definition ctl_world :: "'k kernel \<Rightarrow> 'k \<Rightarrow> 'k \<Rightarrow> bool" where
  "ctl_world K = (ctl_step K)\<^sup>*\<^sup>*"

lemma ctl_world_refl [simp]: "ctl_world K w w"
  by (simp add: ctl_world_def)

lemma ctl_world_trans: "ctl_world K w w' \<Longrightarrow> ctl_world K w' w'' \<Longrightarrow> ctl_world K w w''"
  unfolding ctl_world_def by (rule rtranclp_trans)

text \<open>The worlds after the calls that register the descriptors with epoll, and after those that take them out.\<close>

definition add_one :: "'k kernel \<Rightarrow> int \<Rightarrow> nat \<Rightarrow> pollfd \<Rightarrow> 'k \<Rightarrow> 'k" where
  "add_one K epfd x fd w = (if pf_fd fd > -1
     then snd (k_epoll_ctl K epfd EPOLL_CTL_ADD (pf_fd fd) (Some \<lparr>ee_events = poll_event_to_epoll (pf_events fd), ee_ptr = Some x\<rparr>) w)
     else w)"

definition del_one :: "'k kernel \<Rightarrow> int \<Rightarrow> pollfd \<Rightarrow> 'k \<Rightarrow> 'k" where
  "del_one K epfd fd w = (if pf_fd fd > -1 then snd (k_epoll_ctl K epfd EPOLL_CTL_DEL (pf_fd fd) None w) else w)"

definition add_world :: "'k kernel \<Rightarrow> int \<Rightarrow> nat \<Rightarrow> pollfd list \<Rightarrow> nat \<Rightarrow> 'k \<Rightarrow> 'k" where
  "add_world K epfd T fds n = fold (\<lambda>i. add_one K epfd (T + i) (fds ! i)) [0..<n]"

definition del_world :: "'k kernel \<Rightarrow> int \<Rightarrow> pollfd list \<Rightarrow> nat \<Rightarrow> 'k \<Rightarrow> 'k" where
  "del_world K epfd fds n = fold (\<lambda>i. del_one K epfd (fds ! i)) [0..<n]"

lemma ctl_world_step: "ctl_world K w (snd (k_epoll_ctl K epfd op fd ev w))"
  unfolding ctl_world_def by (rule r_into_rtranclp) (auto simp: ctl_step_def)

lemma ctl_world_fold: "(\<And>i w. ctl_world K w (f i w)) \<Longrightarrow> ctl_world K w (fold f is w)"
  by (induction "is" arbitrary: w) (auto intro: ctl_world_trans)

lemma ctl_world_add: "ctl_world K w (add_world K epfd T fds n w)"
  unfolding add_world_def by (rule ctl_world_fold) (simp add: add_one_def ctl_world_step)

lemma ctl_world_del: "ctl_world K w (del_world K epfd fds n w)"
  unfolding del_world_def by (rule ctl_world_fold) (simp add: del_one_def ctl_world_step)

lemma poll_state_kernel:
  "\<exists>ret e'. do_epoll_ctl K t (poll_state p t env n pc P s w e) epfd op fd ev =
     (ret, poll_state p t env n pc P s (snd (k_epoll_ctl K epfd op fd ev w)) e')"
  "GetTickMS K (poll_state p t env n pc P s w e) =
     (clock_at K w, poll_state p t env n pc P s (snd (k_gettimeofday K w)) e)"
  by (auto simp: do_epoll_ctl_def GetTickMS_def clock_at_def split_beta)

text \<open>
  \<open>poll_shape\<close> holds from the start: \<open>nfds\<close> items with timer items \<open>T + i\<close>, in no list. An item is
  \<open>item_ready\<close> once the loop has come to it.
\<close>

definition poll_shape :: "timer_store \<Rightarrow> poll_context_t \<Rightarrow> nat \<Rightarrow> nat \<Rightarrow> bool" where
  "poll_shape s P nfds T \<longleftrightarrow> length (pc_items P) = nfds \<and>
     (\<forall>i < nfds. pi_time (pc_items P ! i) = T + i \<and> (\<exists>it. items s (T + i) = Some it \<and> ti_parent it = None))"

definition item_ready :: "timer_store \<Rightarrow> nat \<Rightarrow> nat option \<Rightarrow> poll_context_t \<Rightarrow> nat \<Rightarrow> bool" where
  "item_ready s pc self P i \<longleftrightarrow> pi_self (pc_items P ! i) = i \<and> pi_poll (pc_items P ! i) = pc \<and>
     (\<exists>it. items s (pi_time (pc_items P ! i)) = Some it \<and> ti_prepare it = Some Prepare_poll_event \<and>
       ti_coroutine it = self \<and> ti_arg it = Some (pc, i) \<and> ti_parent it = None)"

text \<open>What the loop leaves alone.\<close>

definition poll_kept :: "timer_store \<Rightarrow> poll_context_t \<Rightarrow> timer_store \<Rightarrow> poll_context_t \<Rightarrow> nat \<Rightarrow> nat \<Rightarrow> bool" where
  "poll_kept s P s' P' nfds T \<longleftrightarrow> lists s' = lists s \<and> (\<forall>x. x \<notin> {T ..< T + nfds} \<longrightarrow> items s' x = items s x) \<and>
     P'\<lparr>pc_items := []\<rparr> = P\<lparr>pc_items := []\<rparr>"

lemma poll_add_step:
  assumes sh: "poll_shape s P nfds T" and i: "i < nfds" "nfds \<le> length fds"
  shows "\<exists>stop P' s' e'. poll_add K (poll_state p t env n pc P s w e) t pc self epfd fds nfds b i =
      Inr (stop, poll_state p t env n pc P' s' (add_one K epfd (T + i) (fds ! i) w) e') \<and> poll_shape s' P' nfds T \<and>
      poll_kept s P s' P' nfds T \<and>
      item_ready s' pc self P' i \<and> (\<forall>j < nfds. j \<noteq> i \<longrightarrow> item_ready s pc self P j \<longrightarrow> item_ready s' pc self P' j)"
proof -
  from sh i obtain it where it: "items s (T + i) = Some it" "ti_parent it = None" and
    len: "length (pc_items P) = nfds" and tm: "\<And>j. j < nfds \<Longrightarrow> pi_time (pc_items P ! j) = T + j"
    by (auto simp: poll_shape_def)
  let ?it = "it\<lparr>ti_prepare := Some Prepare_poll_event, ti_coroutine := self, ti_arg := Some (pc, i), ti_prev := None, ti_next := None\<rparr>"
  let ?s = "s\<lparr>items := (items s)(T + i \<mapsto> ?it)\<rparr>" and ?fd = "fds ! i"
  let ?item0 = "(pc_items P ! i)\<lparr>pi_self := i, pi_poll := pc\<rparr>"
  define item where "item = (if pf_fd ?fd > -1
     then ?item0\<lparr>pi_event := \<lparr>ee_events = poll_event_to_epoll (pf_events ?fd), ee_ptr = Some (T + i)\<rparr>\<rparr> else ?item0)"
  let ?P = "P\<lparr>pc_items := (pc_items P)[i := item]\<rparr>"
  have item: "pi_self item = i" "pi_poll item = pc" "pi_time item = T + i"
    using tm [OF i(1)] by (simp_all add: item_def)
  obtain ret e' where ctl: "do_epoll_ctl K t (poll_state p t env n pc ?P ?s w e) epfd EPOLL_CTL_ADD (pf_fd ?fd) (Some (pi_event item)) =
      (ret, poll_state p t env n pc ?P ?s (snd (k_epoll_ctl K epfd EPOLL_CTL_ADD (pf_fd ?fd) (Some (pi_event item)) w)) e')"
    using poll_state_kernel(1) by metis
  have "\<exists>stop e'. poll_add K (poll_state p t env n pc P s w e) t pc self epfd fds nfds b i =
      Inr (stop, poll_state p t env n pc ?P ?s (add_one K epfd (T + i) ?fd w) e')"
    using i len it tm [OF i(1)] ctl
    by (cases "pf_fd ?fd > -1") (auto simp: poll_add_def Let_def set_item_def get_item_def item_def add_one_def)
  moreover have "poll_shape ?s ?P nfds T"
    using sh it item i by (auto simp: poll_shape_def nth_list_update)
  moreover have "poll_kept s P ?s ?P nfds T" using i by (simp add: poll_kept_def)
  moreover have "item_ready ?s pc self ?P i" using item i len it by (simp add: item_ready_def)
  moreover have "item_ready ?s pc self ?P j" if "j < nfds" "j \<noteq> i" "item_ready s pc self P j" for j
    using that tm by (simp add: item_ready_def)
  ultimately show ?thesis by blast
qed

lemma poll_add_loop:
  assumes "poll_shape s P nfds T" and "nfds \<le> length fds" and "set is \<subseteq> {..<nfds}" and "D \<subseteq> {..<nfds}"
    and "\<forall>i \<in> D. item_ready s pc self P i"
  shows "\<exists>stop P' s' w' e'. poll_add_all (\<lambda>i p. poll_add K p t pc self epfd fds nfds b i) is (poll_state p t env n pc P s w e) =
      Inr (stop, poll_state p t env n pc P' s' w' e') \<and> poll_shape s' P' nfds T \<and> poll_kept s P s' P' nfds T \<and>
      (\<not> stop \<longrightarrow> (\<forall>i \<in> D \<union> set is. item_ready s' pc self P' i) \<and> w' = fold (\<lambda>i. add_one K epfd (T + i) (fds ! i)) is w)"
  using assms
proof (induction "is" arbitrary: P s w e D)
  case Nil
  then show ?case
    by (intro exI [of _ False] exI [of _ P] exI [of _ s] exI [of _ w] exI [of _ e]) (simp add: poll_kept_def)
next
  case (Cons i "is")
  from poll_add_step [OF Cons.prems(1) _ Cons.prems(2), of i K p t env n pc w e self epfd b] Cons.prems(3)
  obtain stop P1 s1 e1 where one: "poll_add K (poll_state p t env n pc P s w e) t pc self epfd fds nfds b i =
      Inr (stop, poll_state p t env n pc P1 s1 (add_one K epfd (T + i) (fds ! i) w) e1)" "poll_shape s1 P1 nfds T" "poll_kept s P s1 P1 nfds T"
      "item_ready s1 pc self P1 i" "\<forall>j < nfds. j \<noteq> i \<longrightarrow> item_ready s pc self P j \<longrightarrow> item_ready s1 pc self P1 j" by auto
  let ?w1 = "add_one K epfd (T + i) (fds ! i) w"
  show ?case
  proof (cases stop)
    case True
    with one show ?thesis
      by (intro exI [of _ True] exI [of _ P1] exI [of _ s1] exI [of _ ?w1] exI [of _ e1]) simp
  next
    case False
    have "\<forall>j \<in> insert i D. item_ready s1 pc self P1 j" using one(4,5) Cons.prems(4,5) by blast
    moreover have "insert i D \<subseteq> {..<nfds}" "set is \<subseteq> {..<nfds}" using Cons.prems(3,4) by auto
    ultimately obtain stop' P2 s2 w2 e2 where "poll_add_all (\<lambda>i p. poll_add K p t pc self epfd fds nfds b i) is
        (poll_state p t env n pc P1 s1 ?w1 e1) = Inr (stop', poll_state p t env n pc P2 s2 w2 e2)"
      "poll_shape s2 P2 nfds T" "poll_kept s1 P1 s2 P2 nfds T"
      "\<not> stop' \<longrightarrow> (\<forall>i \<in> insert i D \<union> set is. item_ready s2 pc self P2 i) \<and>
        w2 = fold (\<lambda>i. add_one K epfd (T + i) (fds ! i)) is ?w1"
      using Cons.IH [OF one(2) Cons.prems(2), of "insert i D" ?w1 e1] by meson
    with one(1,3) False show ?thesis
      by (intro exI [of _ stop'] exI [of _ P2] exI [of _ s2] exI [of _ w2] exI [of _ e2]) (simp add: poll_kept_def)
  qed
qed

section \<open>Waiting\<close>

lemma fold_new: "fold (\<lambda>i I. I(T + i \<mapsto> v)) [0..<n] I x = (if T \<le> x \<and> x < T + n then Some v else I x)"
  by (induction n) auto

lemma fold_none: "fold (\<lambda>x I. I(x := None)) xs I = (\<lambda>y. if y \<in> set xs then None else I y)"
  by (induction xs arbitrary: I) auto

text \<open>
  A thread in which every object is below \<open>next_id\<close>, in a process that has no blocks but those of the poll
  contexts that are alive: none is lost.
\<close>

definition poll_fresh :: "'k process \<Rightarrow> timer_store \<Rightarrow> bool" where
  "poll_fresh p s \<longleftrightarrow> (\<forall>i \<ge> next_id p. polls p i = None \<and> items s i = None) \<and> heap p = live_blocks (polls p)"

text \<open>
  The poll context of a coroutine that waits: descriptors and items are in place, the timer item will
  resume the coroutine (\<open>poll_live\<close>); at the beginning no event has been seen (\<open>poll_ready\<close>).
\<close>

definition poll_live :: "timer_store \<Rightarrow> nat \<Rightarrow> nat \<Rightarrow> poll_context_t \<Rightarrow> nat \<Rightarrow> bool" where
  "poll_live s pc c P nfds \<longleftrightarrow> length (pc_fds P) = nfds \<and> length (pc_items P) = nfds \<and>
     (\<exists>it. items s (pc_time P) = Some it \<and> ti_process it = Some Process_poll_event \<and> ti_coroutine it = Some c) \<and>
     (\<forall>i < nfds. item_ready s pc (Some c) P i \<and> pi_time (pc_items P ! i) \<noteq> pc_time P)"

definition poll_ready :: "timer_store \<Rightarrow> nat \<Rightarrow> nat \<Rightarrow> poll_context_t \<Rightarrow> nat \<Rightarrow> bool" where
  "poll_ready s pc c P nfds \<longleftrightarrow> poll_live s pc c P nfds \<and> pc_raise_cnt P = 0 \<and> \<not> pc_allEventDetatch P \<and>
     (\<forall>i < nfds. pf_revents (pc_fds P ! i) = 0)"

text \<open>
  What the clock promises while the thread is not held up for longer than the wheel is wide: once the
  descriptors are registered it is not behind the wheel's start, and the longest wait still fits on the wheel.
\<close>

definition clock_ok :: "'k kernel \<Rightarrow> 'k \<Rightarrow> epoll_timer_t \<Rightarrow> bool" where
  "clock_ok K w timer \<longleftrightarrow> (\<forall>w'. ctl_world K w w' \<longrightarrow> et_start timer \<le> clock_at K w' \<and>
     uint (clock_at K w') + kMaxTimeoutMs < uint (et_start timer) + et_size timer) \<and>
     uint (et_start timer) + et_size timer < 2 ^ 64"

lemma poll_alloc_state:
  assumes env: "gEnv p t = Some env" and fr: "poll_fresh p (ep_store (ev_epoll env))"
    and inv: "wheel_inv (ep_store (ev_epoll env)) A timer"
  obtains P s where "poll_alloc p t nfds self = Inr (next_id p,
      poll_state p t env (Suc (Suc (next_id p)) + nfds) (next_id p) P s (world p) (c_errno p))"
    "poll_shape s P nfds (Suc (Suc (next_id p)))" "wheel_inv s A timer" "pc_time P = Suc (next_id p)"
    "items s (pc_time P) = Some (zero_item\<lparr>ti_process := Some Process_poll_event, ti_coroutine := self\<rparr>)"
    "pc_fds P = replicate nfds zero_pollfd" "pc_raise_cnt P = 0" "\<not> pc_allEventDetatch P"
    "\<forall>i \<ge> Suc (Suc (next_id p)) + nfds. items s i = None"
    "\<forall>i < next_id p. items s i = items (ep_store (ev_epoll env)) i"
proof -
  let ?s = "ep_store (ev_epoll env)" and ?pc = "next_id p"
  let ?P = "\<lparr>pc_fds = replicate nfds zero_pollfd, pc_nfds = nfds, pc_time = Suc ?pc,
     pc_items = map (\<lambda>i. \<lparr>pi_self = 0, pi_poll = 0, pi_time = Suc (Suc ?pc) + i, pi_event = zero_event\<rparr>) [0..<nfds],
     pc_items_malloc = (\<not> nfds < 2), pc_allEventDetatch = False, pc_raise_cnt = 0\<rparr>"
  let ?it = "zero_item\<lparr>ti_process := Some Process_poll_event, ti_coroutine := self\<rparr>"
  define I where "I = (fold (\<lambda>i I. I(Suc (Suc ?pc) + i \<mapsto> zero_item)) [0..<nfds] (items ?s))(Suc ?pc \<mapsto> ?it)"
  have I: "I x = (if x = Suc ?pc then Some ?it else if Suc (Suc ?pc) \<le> x \<and> x < Suc (Suc ?pc) + nfds then Some zero_item
      else items ?s x)" for x unfolding I_def fun_upd_apply fold_new by simp
  have old: "x < ?pc" if "x \<in> set (A l)" for x l
  proof (rule ccontr)
    assume "\<not> x < ?pc"
    then have "items ?s x = None" using fr by (simp add: poll_fresh_def)
    with that inv show False by (auto simp: wheel_inv_def dest!: wf_mem)
  qed
  have alloc: "poll_alloc p t nfds self = Inr (?pc, poll_state p t env (Suc (Suc ?pc) + nfds) ?pc ?P (?s\<lparr>items := I\<rparr>) (world p) (c_errno p))"
    using env by (cases p) (simp add: poll_alloc_def Let_def on_store_def get_store_def put_store_def set_env_def get_env_def
        poll_state_def blocks_of_def I_def insert_commute)
  have "wheel_inv (?s\<lparr>items := I\<rparr>) A timer"
  proof (rule wheel_inv_items [OF inv])
    show "items (?s\<lparr>items := I\<rparr>) x = items ?s x" if "x \<in> set (A l)" for x l using old [OF that] by (simp add: I)
    show "ti_parent it = None" if "items (?s\<lparr>items := I\<rparr>) x = Some it" "\<forall>l. x \<notin> set (A l)" for x it
      using that inv wf_parent [of ?s A x it] by (cases "ti_parent it") (auto simp: I zero_item_def wheel_inv_def split: if_splits)
  qed simp
  moreover have "poll_shape (?s\<lparr>items := I\<rparr>) ?P nfds (Suc (Suc ?pc))" by (simp add: poll_shape_def I zero_item_def)
  moreover have "\<forall>i \<ge> Suc (Suc ?pc) + nfds. I i = None" using fr by (auto simp: I poll_fresh_def)
  ultimately show thesis using that [OF alloc] by (simp add: I)
qed

lemma stack_ok_poll_state:
  assumes "stack_ok p t xs" and "gEnv p t = Some env"
  shows "stack_ok (poll_state p t env n pc P s w e) t xs"
  using assms by (auto simp: stack_ok_def env_stack_def co_of_def saved_def poll_state_def)

lemma wheel_inv_kept:
  assumes inv: "wheel_inv s A timer" and k: "poll_kept s P s' P' nfds T" and sh: "poll_shape s' P' nfds T"
    and free: "\<And>x l. x \<in> set (A l) \<Longrightarrow> x < T"
  shows "wheel_inv s' A timer"
proof (rule wheel_inv_items [OF inv])
  show "ti_parent it = None" if it: "items s' x = Some it" "\<forall>l. x \<notin> set (A l)" for x it
  proof (cases "x \<in> {T ..< T + nfds}")
    case True
    then obtain i where "x = T + i" "i < nfds" by (metis atLeastLessThan_iff le_Suc_ex nat_add_left_cancel_less)
    with sh it show ?thesis by (auto simp: poll_shape_def)
  next
    case False
    with k it(1) have "items s x = Some it" by (simp add: poll_kept_def)
    with inv it(2) show ?thesis by (cases "ti_parent it") (auto simp: wheel_inv_def dest: wf_parent)
  qed
  show "items s' x = items s x" if "x \<in> set (A l)" for x l
    using free [OF that] k by (simp add: poll_kept_def)
qed (use k in \<open>simp add: poll_kept_def\<close>)

lemma poll_kept_fields: "poll_kept s P s' P' nfds T \<Longrightarrow>
    pc_fds P' = pc_fds P \<and> pc_time P' = pc_time P \<and> pc_raise_cnt P' = pc_raise_cnt P \<and> pc_allEventDetatch P' = pc_allEventDetatch P"
  by (cases P; cases P') (simp add: poll_kept_def)

lemma uint_plus_small:
  assumes "0 \<le> r" and "uint now + r < 2 ^ 64"
  shows "uint (now + u64_of_int r) = uint now + r"
proof -
  have "r < 2 ^ 64" using assms(2) uint_ge_0 [of now] by linarith
  then have r: "uint (u64_of_int r) = r"
    using assms(1) by (simp add: u64_of_int_def uint_word_of_int_eq take_bit_int_eq_self)
  with assms show ?thesis by (simp add: uint_word_arith_bintrs(1) take_bit_int_eq_self)
qed

text \<open>Epoll does not take one of the descriptors, because it is not of a kind that can be waited for.\<close>

definition refuses :: "'k kernel \<Rightarrow> int \<Rightarrow> pollfd list \<Rightarrow> bool" where
  "refuses K epfd fds \<longleftrightarrow> (\<exists>fd \<in> set fds. \<exists>ev w ret w'. k_epoll_ctl K epfd EPOLL_CTL_ADD (pf_fd fd) ev w = ((ret, EPERM), w') \<and> ret < 0)"

lemma array_get_mem: "array_get xs i = Inr x \<Longrightarrow> x \<in> set xs"
  by (auto simp: array_get_def split: if_splits)

lemma poll_add_stop:
  assumes "poll_add K p t pc self epfd fds nfds b i = Inr (True, p')"
  shows "b \<and> nfds = 1 \<and> refuses K epfd fds"
proof -
  obtain fd q ev where fd: "fd \<in> set fds" and b: "b" "nfds = 1"
    and ctl: "fst (do_epoll_ctl K t q epfd EPOLL_CTL_ADD (pf_fd fd) ev) < 0" "c_errno (snd (do_epoll_ctl K t q epfd EPOLL_CTL_ADD (pf_fd fd) ev)) t = EPERM"
    using assms unfolding poll_add_def Let_def split_beta
    by (auto simp: bindR_eq_Inr split: if_splits dest!: array_get_mem)
  obtain ret err w' where k: "k_epoll_ctl K epfd EPOLL_CTL_ADD (pf_fd fd) ev (world q) = ((ret, err), w')" by (metis surj_pair)
  with ctl have "ret < 0" "err = EPERM" by (auto simp: do_epoll_ctl_def)
  with fd b k show ?thesis unfolding refuses_def by blast
qed

lemma poll_add_all_stop:
  "poll_add_all body is p = Inr (True, p') \<Longrightarrow> (\<And>i p p'. body i p = Inr (True, p') \<Longrightarrow> Q) \<Longrightarrow> Q"
  by (induction "is" arbitrary: p) (auto simp: bindR_eq_Inr split: if_splits)

lemma linked_fresh:
  assumes "wheel_inv s A timer" and "poll_fresh p s" and "x \<in> set (A l)"
  shows "x < next_id p"
proof (rule ccontr)
  assume "\<not> x < next_id p"
  then have "items s x = None" using assms(2) by (simp add: poll_fresh_def)
  with assms(1,3) show False by (auto simp: wheel_inv_def dest!: wf_mem)
qed

text \<open>The state when all descriptors are registered, or the C library's \<open>poll\<close> is to take over.\<close>

lemma poll_register:
  assumes env: "gEnv p t = Some env" and fr: "poll_fresh p (ep_store (ev_epoll env))"
    and inv: "wheel_inv (ep_store (ev_epoll env)) A timer" and len: "nfds \<le> length fds"
  obtains stop P s w e where
    "bindR (poll_alloc p t nfds (Some c)) (\<lambda>(pc, p).
       bindR (poll_add_all (\<lambda>i p. poll_add K p t pc (Some c) epfd fds nfds b i) [0..<nfds] p) (\<lambda>(stop, p). Inr (pc, stop, p))) =
     Inr (next_id p, stop, poll_state p t env (Suc (Suc (next_id p)) + nfds) (next_id p) P s w e)"
    "wheel_inv s A timer" "stop \<longrightarrow> b \<and> nfds = 1 \<and> refuses K epfd fds" "\<not> stop \<longrightarrow> poll_ready s (next_id p) c P nfds"
    "pc_time P = Suc (next_id p)" "poll_shape s P nfds (Suc (Suc (next_id p)))" "\<forall>i \<ge> Suc (Suc (next_id p)) + nfds. items s i = None"
    "\<exists>it. items s (pc_time P) = Some it \<and> ti_parent it = None" "\<forall>i < next_id p. items s i = items (ep_store (ev_epoll env)) i"
    "\<not> stop \<longrightarrow> w = add_world K epfd (Suc (Suc (next_id p))) fds nfds (world p)"
proof -
  let ?n = "next_id p" and ?T = "Suc (Suc (next_id p))"
  obtain P s where a: "poll_alloc p t nfds (Some c) = Inr (?n, poll_state p t env (?T + nfds) ?n P s (world p) (c_errno p))"
    "poll_shape s P nfds ?T" "wheel_inv s A timer" "pc_time P = Suc ?n"
    "items s (pc_time P) = Some (zero_item\<lparr>ti_process := Some Process_poll_event, ti_coroutine := Some c\<rparr>)"
    "pc_fds P = replicate nfds zero_pollfd" "pc_raise_cnt P = 0" "\<not> pc_allEventDetatch P" "\<forall>i \<ge> ?T + nfds. items s i = None"
    "\<forall>i < ?n. items s i = items (ep_store (ev_epoll env)) i"
    by (rule poll_alloc_state [OF env fr inv])
  obtain stop P' s' w' e' where l: "poll_add_all (\<lambda>i p. poll_add K p t ?n (Some c) epfd fds nfds b i) [0..<nfds]
      (poll_state p t env (?T + nfds) ?n P s (world p) (c_errno p)) = Inr (stop, poll_state p t env (?T + nfds) ?n P' s' w' e')"
    "poll_shape s' P' nfds ?T" "poll_kept s P s' P' nfds ?T"
    "\<not> stop \<longrightarrow> (\<forall>i \<in> {} \<union> set [0..<nfds]. item_ready s' ?n (Some c) P' i) \<and> w' = add_world K epfd ?T fds nfds (world p)"
  proof -
    have "set [0..<nfds] \<subseteq> {..<nfds}" "\<forall>i \<in> {}. item_ready s ?n (Some c) P i" by auto
    from poll_add_loop [OF a(2) len this(1) empty_subsetI this(2), where K = K and t = t and epfd = epfd and b = b
        and p = p and env = env and n = "?T + nfds" and w = "world p" and e = "c_errno p"] that
    show thesis unfolding add_world_def by blast
  qed
  have old: "x < ?T" if "x \<in> set (A l)" for x l using linked_fresh [OF inv fr that] by simp
  have inv': "wheel_inv s' A timer" by (rule wheel_inv_kept [OF a(3) l(3,2) old])
  have time: "items s' (pc_time P') = items s (pc_time P)" "pc_time P' = Suc ?n"
    using l(3) a(4) poll_kept_fields [OF l(3)] by (simp_all add: poll_kept_def)
  have ready: "\<not> stop \<longrightarrow> poll_ready s' ?n c P' nfds"
    using l(2,4) time a(5-8) poll_kept_fields [OF l(3)] by (auto simp: poll_ready_def poll_live_def poll_shape_def zero_pollfd_def)
  have "\<forall>i \<ge> ?T + nfds. items s' i = None" "\<forall>i < ?n. items s' i = items (ep_store (ev_epoll env)) i"
    using a(9,10) l(3) by (auto simp: poll_kept_def)
  moreover have "stop \<longrightarrow> b \<and> nfds = 1 \<and> refuses K epfd fds"
  proof
    assume stop
    with l(1) have "poll_add_all (\<lambda>i p. poll_add K p t ?n (Some c) epfd fds nfds b i) [0..<nfds]
      (poll_state p t env (?T + nfds) ?n P s (world p) (c_errno p)) = Inr (True, poll_state p t env (?T + nfds) ?n P' s' w' e')"
      by simp
    then show "b \<and> nfds = 1 \<and> refuses K epfd fds" by (rule poll_add_all_stop) (rule poll_add_stop)
  qed
  ultimately show thesis
    using that [of stop P' s' w' e'] a(1,5) l(1,2,4) inv' time ready by (simp add: zero_item_def)
qed

text \<open>What \<open>poll_enter\<close> does once it has the timeout, in terms of the state above.\<close>

lemma poll_enter_registered:
  assumes st: "stack_ok p t (xs @ [a, c])"
    and fix': "fix_coroutine_timeout p t (Some c) timeout = Inr (r, False, q)" and q: "q = p\<lparr>tasks := T\<rparr>" and r: "r \<noteq> -1" "r \<le> kMaxTimeoutMs"
    and env: "gEnv p t = Some env" and len: "nfds \<le> length fds"
    and reg: "bindR (poll_alloc q t nfds (Some c)) (\<lambda>(pc, p).
       bindR (poll_add_all (\<lambda>i p. poll_add K p t pc (Some c) (ep_fd (ev_epoll env)) fds nfds (pollfunc \<noteq> None) i) [0..<nfds] p)
         (\<lambda>(stop, p). Inr (pc, stop, p))) = Inr (pc, False, poll_state q t env n pc P s w e)"
    and tick: "GetTickMS K (poll_state q t env n pc P s w e) = (now, poll_state q t env n pc P s w' e)"
    and time: "items s (pc_time P) = Some it"
    and add: "add_timeout (s\<lparr>items := (items s)(pc_time P \<mapsto> it\<lparr>ti_expire := now + u64_of_int r\<rparr>)\<rparr>) (ep_timer (ev_epoll env))
       (Some (pc_time P)) now = Inr (0, s', timer)"
  shows "poll_enter K p t fds nfds timeout pollfunc = Inr (PollWaits pc
      (yielded (poll_state q t (env\<lparr>ev_epoll := (ev_epoll env)\<lparr>ep_timer := timer\<rparr>\<rparr>) n pc P s' w' e) t (xs @ [a, c])))"
proof -
  have self: "coroutine_self p t = Inr (Some c)" using self_is_running(1) [OF st] by simp
  from reg obtain pc0 p0 where alloc: "poll_alloc q t nfds (Some c) = Inr (pc, p0)"
    "poll_add_all (\<lambda>i p. poll_add K p t pc (Some c) (ep_fd (ev_epoll env)) fds nfds (pollfunc \<noteq> None) i) [0..<nfds] p0 =
       Inr (False, poll_state q t env n pc P s w e)"
    by (auto simp: bindR_eq_Inr)
  let ?env = "env\<lparr>ev_epoll := (ev_epoll env)\<lparr>ep_timer := timer\<rparr>\<rparr>"
  let ?p = "poll_state q t ?env n pc P s' w' e"
  have stq: "stack_ok q t (xs @ [a, c])" using st unfolding q by (auto simp: stack_ok_def co_of_def saved_def)
  have "stack_ok ?p t (xs @ [a, c])"
    using st env unfolding q by (auto simp: stack_ok_def env_stack_def co_of_def saved_def poll_state_def)
  note y = yield_env_yielded(1) [OF this]
  have set: "set_env (poll_state q t env n pc P s'' w' e) t (\<lambda>env. env\<lparr>ev_epoll := (ev_epoll env)\<lparr>ep_store := s', ep_timer := timer\<rparr>\<rparr>) = Inr ?p"
    for s'' by (cases q; cases env; cases "ev_epoll env") (simp add: set_env_def get_env_def poll_state_def)
  have bound: "get_curr_thread_env ?p t = Inr (gEnv ?p t)"
    using stack_ok_bound [OF st] by (simp add: get_curr_thread_env_def)
  have genv: "get_env q t = Inr env" using env by (simp add: q get_env_def)
  let ?s = "s\<lparr>items := (items s)(pc_time P \<mapsto> it\<lparr>ti_expire := now + u64_of_int r\<rparr>)\<rparr>"
  have item: "set_item s (Some (pc_time P)) (\<lambda>it. it\<lparr>ti_expire := now + u64_of_int r\<rparr>) = Inr ?s"
    using time by (simp add: set_item_def get_item_def)
  have r': "(if r = -1 \<or> r > kMaxTimeoutMs then kMaxTimeoutMs else r) = r" using r by simp
  show ?thesis
    by (simp add: poll_enter_def Let_def self fix' r' genv alloc tick item add set bound y
        del: not_None_eq)
qed

lemma fix_timeout_result:
  assumes "fix_coroutine_timeout p t c timeout = Inr (r, False, q)"
  shows "\<exists>T. q = p\<lparr>tasks := T\<rparr>" and "r \<le> kMaxTimeoutMs" and "r \<noteq> -1" and "-1 \<le> timeout \<Longrightarrow> 0 \<le> r"
proof -
  have id: "\<exists>T. p = p\<lparr>tasks := T\<rparr>" by (rule exI [of _ "tasks p"]) simp
  show "\<exists>T. q = p\<lparr>tasks := T\<rparr>"
    using assms id by (auto simp: fix_coroutine_timeout_def bindR_eq_Inr set_task_def Let_def split: if_splits)
  show "r \<le> kMaxTimeoutMs" "r \<noteq> -1" "-1 \<le> timeout \<Longrightarrow> 0 \<le> r"
    using assms by (auto simp: fix_coroutine_timeout_def bindR_eq_Inr kMaxTimeoutMs_def Let_def split: if_splits)
qed

text \<open>What an item carries besides its links and the mark of a timeout.\<close>

definition core :: "timer_store \<Rightarrow> nat \<rightharpoonup> timer_item_t" where
  "core s x = map_option (\<lambda>it. it\<lparr>ti_timeout := False\<rparr>) (payload s x)"

lemma core_payload: "payload s' = payload s \<Longrightarrow> core s' = core s"
  by (simp add: core_def fun_eq_iff)

lemma core_item:
  assumes "core s' = core s" and "items s x = Some it"
  obtains it' where "items s' x = Some it'" "ti_expire it' = ti_expire it" "ti_prepare it' = ti_prepare it"
    "ti_process it' = ti_process it" "ti_coroutine it' = ti_coroutine it" "ti_arg it' = ti_arg it"
proof -
  from fun_cong [OF assms(1), of x] assms(2) obtain it' where "items s' x = Some it'"
    "it'\<lparr>ti_prev := None, ti_next := None, ti_parent := None, ti_timeout := False\<rparr> =
     it\<lparr>ti_prev := None, ti_next := None, ti_parent := None, ti_timeout := False\<rparr>"
    by (auto simp: core_def payload_def)
  with that show thesis by (cases it; cases it') simp
qed

lemma poll_live_core:
  assumes r: "poll_live s pc c P nfds" and pl: "core s' = core s" and wf: "wf_store s' A"
    and free: "\<And>i l. i < nfds \<Longrightarrow> pi_time (pc_items P ! i) \<notin> set (A l)"
  shows "poll_live s' pc c P nfds"
proof -
  have item: "item_ready s' pc (Some c) P i" if "i < nfds" for i
  proof -
    let ?x = "pi_time (pc_items P ! i)"
    from r that obtain it where it: "items s ?x = Some it" "ti_prepare it = Some Prepare_poll_event"
      "ti_coroutine it = Some c" "ti_arg it = Some (pc, i)" and "pi_self (pc_items P ! i) = i" "pi_poll (pc_items P ! i) = pc"
      by (auto simp: poll_live_def item_ready_def)
    moreover obtain it' where it': "items s' ?x = Some it'" "ti_prepare it' = ti_prepare it"
      "ti_coroutine it' = ti_coroutine it" "ti_arg it' = ti_arg it" by (rule core_item [OF pl it(1)])
    moreover have "ti_parent it' = None"
      using wf_parent [OF wf it'(1)] free [OF that] by (cases "ti_parent it'") auto
    ultimately show ?thesis by (simp add: item_ready_def)
  qed
  from r obtain it where it: "items s (pc_time P) = Some it" "ti_process it = Some Process_poll_event" "ti_coroutine it = Some c"
    by (auto simp: poll_live_def)
  obtain it' where "items s' (pc_time P) = Some it'" "ti_process it' = ti_process it" "ti_coroutine it' = ti_coroutine it"
    by (rule core_item [OF pl it(1)])
  with it r item show ?thesis by (simp add: poll_live_def)
qed

lemmas poll_live_payload = poll_live_core [OF _ core_payload]

lemma poll_ready_payload:
  assumes "poll_ready s pc c P nfds" and "payload s' = payload s" and "wf_store s' A"
    and "\<And>i l. i < nfds \<Longrightarrow> pi_time (pc_items P ! i) \<notin> set (A l)"
  shows "poll_ready s' pc c P nfds"
  using assms poll_live_payload [OF _ assms(2-4)] by (simp add: poll_ready_def)

text \<open>Arming the timer of the poll context.\<close>

lemma poll_arm:
  assumes inv: "wheel_inv s A timer" and x: "items s x = Some it" "\<forall>l. x \<notin> set (A l)"
    and c: "et_start timer \<le> now" "uint now + kMaxTimeoutMs < uint (et_start timer) + et_size timer"
      "uint (et_start timer) + et_size timer < 2 ^ 64" and r: "0 \<le> r" "r \<le> kMaxTimeoutMs"
  obtains s' A' where
    "add_timeout (s\<lparr>items := (items s)(x \<mapsto> it\<lparr>ti_expire := now + u64_of_int r\<rparr>)\<rparr>) timer (Some x) now = Inr (0, s', timer)"
    "wheel_inv s' A' timer" "payload s' = payload (s\<lparr>items := (items s)(x \<mapsto> it\<lparr>ti_expire := now + u64_of_int r\<rparr>)\<rparr>)"
    "\<exists>i. A' = A(WheelSlot i := A (WheelSlot i) @ [x])" "deadline s' x = uint now + r"
proof -
  let ?it = "it\<lparr>ti_expire := now + u64_of_int r\<rparr>" and ?s = "s\<lparr>items := (items s)(x \<mapsto> it\<lparr>ti_expire := now + u64_of_int r\<rparr>)\<rparr>"
  have wf: "wf_store s A" using inv by (simp add: wheel_inv_def)
  have free: "ti_parent it = None" using wf_parent [OF wf x(1)] x(2) by (cases "ti_parent it") auto
  have inv': "wheel_inv ?s A timer"
  proof (rule wheel_inv_items [OF inv])
    show "ti_parent j = None" if "items ?s y = Some j" "\<forall>l. y \<notin> set (A l)" for y j
      using that free wf_parent [OF wf, of y j] by (cases "ti_parent j") (auto split: if_splits)
  qed (use x(2) in auto)
  have e: "uint (ti_expire ?it) = uint now + r" using uint_plus_small [OF r(1)] c(2,3) r(2) by simp
  have le: "now \<le> ti_expire ?it" using e r(1) by (simp add: word_le_def)
  have lt: "uint (ti_expire ?it) < uint (et_start timer) + et_size timer" using e r(2) c(2) by simp
  have x': "items ?s x = Some ?it" by simp
  from add_timeout_ok [OF inv' x' x(2) c(1) le lt] obtain s' i where s': "add_timeout ?s timer (Some x) now = Inr (0, s', timer)"
    "wheel_inv s' (A(WheelSlot i := A (WheelSlot i) @ [x])) timer" "payload s' = payload ?s" by blast
  moreover have "deadline s' x = uint now + r"
    using e deadline_payload [OF s'(3)] deadline_item [OF x'] by simp
  ultimately show thesis using that by blast
qed

text \<open>
  The poll context \<open>pc\<close> of coroutine \<open>c\<close> in thread \<open>t\<close>, whose wheel and lists represent \<open>A\<close>, with its
  timer item \<open>x\<close>.
\<close>

definition poll_in ::
  "'k process \<Rightarrow> nat \<Rightarrow> (list_ref \<Rightarrow> nat list) \<Rightarrow> nat \<Rightarrow> nat \<Rightarrow> nat \<Rightarrow> nat \<Rightarrow> bool" where
  "poll_in p t A pc c nfds x \<longleftrightarrow> (\<exists>env P. gEnv p t = Some env \<and> polls p pc = Some P \<and> pc_time P = x \<and>
     wheel_inv (ep_store (ev_epoll env)) A (ep_timer (ev_epoll env)) \<and> poll_fresh p (ep_store (ev_epoll env)) \<and>
     poll_ready (ep_store (ev_epoll env)) pc c P nfds)"

definition store_of :: "'k process \<Rightarrow> nat \<Rightarrow> timer_store" where
  "store_of p t = ep_store (ev_epoll (the (gEnv p t)))"

definition timer_of :: "'k process \<Rightarrow> nat \<Rightarrow> epoll_timer_t" where
  "timer_of p t = ep_timer (ev_epoll (the (gEnv p t)))"

text \<open>
  Everything a successful wait does: the new context \<open>P\<close>, the item of its timer at the end of one slot,
  and the items, contexts and coroutines that are as before.
\<close>

lemma poll_enter_waits:
  assumes "stack_ok p t (xs @ [a, c])" and "gEnv p t = Some env" and "poll_fresh p (ep_store (ev_epoll env))"
    and "wheel_inv (ep_store (ev_epoll env)) A (ep_timer (ev_epoll env))" and "clock_ok K (world p) (ep_timer (ev_epoll env))"
    and "nfds \<le> length fds" and "-1 \<le> timeout"
    and "fix_coroutine_timeout p t (Some c) timeout = Inr (r, False, q)" and "nfds \<noteq> 1 \<or> pollfunc = None \<or> \<not> refuses K (ep_fd (ev_epoll env)) fds"
  obtains p' A' P w where "poll_enter K p t fds nfds timeout pollfunc = Inr (PollWaits (next_id p) p')"
    "stack_ok p' t (xs @ [a])" "poll_in p' t A' (next_id p) c nfds (Suc (next_id p))"
    "\<exists>i. A' = A(WheelSlot i := A (WheelSlot i) @ [Suc (next_id p)])" "polls p' = (polls p)(next_id p \<mapsto> P)"
    "pc_time P = Suc (next_id p)" "w = add_world K (ep_fd (ev_epoll env)) (Suc (Suc (next_id p))) fds nfds (world p)" "deadline (store_of p' t) (Suc (next_id p)) = uint (clock_at K w) + r"
    "0 \<le> r" "r \<le> kMaxTimeoutMs" "\<forall>y < next_id p. payload (store_of p' t) y = payload (ep_store (ev_epoll env)) y"
    "timer_of p' t = ep_timer (ev_epoll env)" "\<forall>d. ready p t d \<longrightarrow> ready p' t d" "ready p' t c"
    "world p' = snd (k_gettimeofday K w)" "\<exists>env'. gEnv p' t = Some env' \<and> ep_result (ev_epoll env') = ep_result (ev_epoll env) \<and>
      ep_size (ev_epoll env') = ep_size (ev_epoll env)"
    "tasks p' = tasks q" "\<forall>d. map_option co_static (coroutines p' d) = map_option co_static (coroutines p d)"
    "heap p' = heap p \<union> blocks_of (next_id p) P"
proof -
  let ?s = "ep_store (ev_epoll env)" and ?timer = "ep_timer (ev_epoll env)" and ?n = "next_id p"
  obtain T where q: "q = p\<lparr>tasks := T\<rparr>" using fix_timeout_result(1) [OF assms(8)] by blast
  have r: "0 \<le> r" "r \<le> kMaxTimeoutMs" "r \<noteq> -1" using fix_timeout_result(2-4) [OF assms(8)] assms(7) by auto
  have env: "gEnv q t = Some env" and fr: "poll_fresh q ?s" and n: "next_id q = ?n"
    using assms(2,3) by (simp_all add: q poll_fresh_def)
  obtain stop P s w e where reg: "bindR (poll_alloc q t nfds (Some c)) (\<lambda>(pc, p).
       bindR (poll_add_all (\<lambda>i p. poll_add K p t pc (Some c) (ep_fd (ev_epoll env)) fds nfds (pollfunc \<noteq> None) i) [0..<nfds] p)
         (\<lambda>(stop, p). Inr (pc, stop, p))) =
     Inr (?n, stop, poll_state q t env (Suc (Suc ?n) + nfds) ?n P s w e)"
    "wheel_inv s A ?timer" "stop \<longrightarrow> pollfunc \<noteq> None \<and> nfds = 1 \<and> refuses K (ep_fd (ev_epoll env)) fds" "\<not> stop \<longrightarrow> poll_ready s ?n c P nfds"
    "pc_time P = Suc ?n" "poll_shape s P nfds (Suc (Suc ?n))" "\<forall>i \<ge> Suc (Suc ?n) + nfds. items s i = None"
    "\<exists>it. items s (pc_time P) = Some it \<and> ti_parent it = None" "\<forall>i < ?n. items s i = items ?s i"
    "\<not> stop \<longrightarrow> w = add_world K (ep_fd (ev_epoll env)) (Suc (Suc ?n)) fds nfds (world p)"
    by (rule poll_register [OF env fr assms(4,6), where c = c and K = K and epfd = "ep_fd (ev_epoll env)" and b = "pollfunc \<noteq> None"])
      (auto simp: n q)
  have nostop: "stop = False" using reg(3) assms(9) by auto
  then have w: "w = add_world K (ep_fd (ev_epoll env)) (Suc (Suc ?n)) fds nfds (world p)" using reg(10) by simp
  from reg(8) obtain it where it: "items s (pc_time P) = Some it" by blast
  have old: "\<And>x l. x \<in> set (A l) \<Longrightarrow> x < ?n" using linked_fresh [OF assms(4,3)] by blast
  then have free: "\<forall>l. pc_time P \<notin> set (A l)" "\<And>i l. i < nfds \<Longrightarrow> pi_time (pc_items P ! i) \<notin> set (A l)"
    using reg(5,6) by (fastforce simp: poll_shape_def)+
  define now w' where "now = clock_at K w" and "w' = snd (k_gettimeofday K w)"
  have tick: "GetTickMS K (poll_state q t env (Suc (Suc ?n) + nfds) ?n P s w e) =
      (now, poll_state q t env (Suc (Suc ?n) + nfds) ?n P s w' e)" unfolding now_def w'_def by (rule poll_state_kernel(2))
  have c: "et_start ?timer \<le> now" "uint now + kMaxTimeoutMs < uint (et_start ?timer) + et_size ?timer"
    "uint (et_start ?timer) + et_size ?timer < 2 ^ 64"
    using assms(5) ctl_world_add [of K "world p"] by (auto simp: clock_ok_def now_def w)
  obtain s' A' where arm: "add_timeout (s\<lparr>items := (items s)(pc_time P \<mapsto> it\<lparr>ti_expire := now + u64_of_int r\<rparr>)\<rparr>) ?timer
      (Some (pc_time P)) now = Inr (0, s', ?timer)" "wheel_inv s' A' ?timer"
    "payload s' = payload (s\<lparr>items := (items s)(pc_time P \<mapsto> it\<lparr>ti_expire := now + u64_of_int r\<rparr>)\<rparr>)"
    "\<exists>i. A' = A(WheelSlot i := A (WheelSlot i) @ [pc_time P])" "deadline s' (pc_time P) = uint now + r"
    by (rule poll_arm [OF reg(2) it free(1) c r(1,2)])
  let ?p = "poll_state q t (env\<lparr>ev_epoll := (ev_epoll env)\<lparr>ep_timer := ?timer\<rparr>\<rparr>) (Suc (Suc ?n) + nfds) ?n P s' w' e"
  have run: "poll_enter K p t fds nfds timeout pollfunc = Inr (PollWaits ?n (yielded ?p t (xs @ [a, c])))"
    by (rule poll_enter_registered [OF assms(1,8) q r(3,2) assms(2,6) reg(1) [unfolded nostop] tick it arm(1)])
  have stp: "stack_ok ?p t (xs @ [a, c])"
    using assms(1,2) unfolding q by (auto simp: stack_ok_def env_stack_def co_of_def saved_def poll_state_def)
  define p' where "p' = yielded ?p t (xs @ [a, c])"
  have p': "\<exists>env'. gEnv p' t = Some env' \<and> ep_store (ev_epoll env') = s' \<and> ep_timer (ev_epoll env') = ?timer"
    "polls p' = (polls p)(?n \<mapsto> P)" "next_id p' = Suc (Suc ?n) + nfds" "heap p' = heap p \<union> blocks_of ?n P"
    by (simp_all add: p'_def yielded_def poll_state_def pop_env_def q)
  have "poll_ready (s\<lparr>items := (items s)(pc_time P \<mapsto> it\<lparr>ti_expire := now + u64_of_int r\<rparr>)\<rparr>) ?n c P nfds"
    using reg(4) nostop it by (auto simp: poll_ready_def poll_live_def item_ready_def)
  moreover have wf: "wf_store s' A'" using arm(2) by (simp add: wheel_inv_def)
  moreover have "pi_time (pc_items P ! i) \<notin> set (A' l)" if "i < nfds" for i l
    using that arm(4) free(2) [OF that] reg(5,6) by (auto simp: poll_shape_def split: if_splits)
  ultimately have ready: "poll_ready s' ?n c P nfds" by (rule poll_ready_payload [OF _ arm(3)])
  have "items s' i = None" if "i \<ge> Suc (Suc ?n) + nfds" for i
    using fun_cong [OF arm(3), of i] reg(5,7) that by (simp add: payload_def)
  moreover have "polls p ?n = None" "heap p = live_blocks (polls p)" using assms(3) by (simp_all add: poll_fresh_def)
  ultimately have "poll_fresh p' s'" using assms(3) p' live_blocks_new [of "polls p" ?n P] by (simp add: poll_fresh_def)
  with p' ready arm(2) have "poll_in p' t A' ?n c nfds (pc_time P)" by (auto simp: poll_in_def)
  moreover have "deadline (store_of p' t) (pc_time P) = uint now + r" "timer_of p' t = ?timer"
    using p'(1) arm(5) by (auto simp: store_of_def timer_of_def)
  moreover have "payload (store_of p' t) y = payload ?s y" if "y < ?n" for y
    using that p'(1) reg(5,9) fun_cong [OF arm(3), of y] by (auto simp: store_of_def payload_def)
  moreover have "\<forall>d. ready p t d \<longrightarrow> ready p' t d"
    unfolding p'_def by (intro allI impI, rule yielded_frame(2) [OF stp]) (simp add: ready_def poll_state_def q)
  moreover have "ready p' t c"
    using stack_ok_last [OF assms(1)] by (auto simp: p'_def yielded_def ready_def poll_state_def q)
  moreover have "world p' = w'" "\<exists>env'. gEnv p' t = Some env' \<and> ep_result (ev_epoll env') = ep_result (ev_epoll env) \<and>
      ep_size (ev_epoll env') = ep_size (ev_epoll env)"
    by (simp_all add: p'_def yielded_def poll_state_def pop_env_def)
  moreover have "tasks p' = tasks q" by (simp add: p'_def yielded_def poll_state_def)
  moreover have "\<forall>d. map_option co_static (coroutines p' d) = map_option co_static (coroutines p d)"
    using yielded_frame(1) [OF stp, folded p'_def] by (simp add: switch_frame_def poll_state_def q)
  ultimately show thesis
    using that [of p' A' P w] run [folded p'_def] yield_env_yielded(2) [OF stp, folded p'_def] r p'(2,4) arm(4) reg(5) w
    by (simp add: now_def w'_def)
qed


text \<open>
  The thread of \<open>timed_process\<close> with a wheel of 20 slots that starts at time 5000, which is what
  the clock of \<open>demo_kernel\<close> shows.
\<close>

definition wait_timer :: epoll_timer_t where
  "wait_timer = \<lparr>et_size = 20, et_start = 5000, et_start_idx = 0\<rparr>"

definition wait_store :: timer_store where
  "wait_store = \<lparr>items = Map.empty,
     lists = (\<lambda>l. case l of WheelSlot i \<Rightarrow> if i < 20 then Some empty_list else None | _ \<Rightarrow> Some empty_list)\<rparr>"

definition wait_env :: env_t where
  "wait_env = (the (gEnv late_process 7))\<lparr>ev_epoll := \<lparr>ep_fd = 3, ep_size = 10240, ep_now = 1050,
     ep_timer = wait_timer, ep_store = wait_store, ep_result = None\<rparr>\<rparr>"

definition wait_process :: "unit process" where
  "wait_process = timed_process\<lparr>gEnv := [7 \<mapsto> wait_env]\<rparr>"

lemma wait_inv: "wheel_inv wait_store (\<lambda>_. []) wait_timer"
  by (auto simp: wheel_inv_def wf_store_def dlist_def has_list_def wait_store_def wait_timer_def empty_list_def
      split: list_ref.splits if_splits)

lemma wait_stack: "stack_ok wait_process 7 [0, 2]"
proof -
  have "stack_ok late_process 7 [0, 2]" by (rule pool_ok_parts(1) [OF late_process_ok])
  then show ?thesis
    by (auto simp: stack_ok_def env_stack_def co_of_def saved_def wait_process_def wait_env_def timed_process_def)
qed

lemma wait_clock: "clock_ok demo_kernel w wait_timer"
  by (simp add: clock_ok_def clock_at_def demo_kernel_def wait_timer_def kMaxTimeoutMs_def)

lemma wait_fix: "\<exists>q. fix_coroutine_timeout wait_process 7 (Some 2) (-1) = Inr (10, False, q)"
proof -
  let ?tk = "(the (tasks late_process 5))\<lparr>tk_timeout := False, tk_leftmsec := 100, tk_last := 1000\<rparr>"
  have "budget ?tk 1000" "at_max_timeout_ms (tk_attr ?tk) = 100"
    by (simp_all add: budget_def late_process_def zero_task_def demo_attr_def int32_range_def)
  moreover have "tasks wait_process 5 = Some ?tk" "coroutines wait_process 2 = Some (pool_co 5)" "co_task (pool_co 5) = Some 5"
    "get_now wait_process 7 = Inr 1050"
    by (simp_all add: wait_process_def timed_process_def late_process_def pool_process_def pool_co_def wait_env_def
        get_now_def get_curr_thread_env_def gEnv_size_def get_env_def get_epoll_now_def)
  ultimately show ?thesis
    using fix_timeout_budget [of wait_process 2 "pool_co 5" 5 ?tk 7 1050 1000 "-1"]
    by (simp add: wait_bound_def kMaxTimeoutMs_def)
qed


section \<open>Events arrive\<close>

lemma poll_state_self:
  assumes "gEnv p t = Some env" and "polls p pc = Some P" and "blocks_of pc P \<subseteq> heap p"
  shows "poll_state p t env (next_id p) pc P (ep_store (ev_epoll env)) (world p) (c_errno p) = p"
proof -
  have "(gEnv p)(t \<mapsto> env) = gEnv p" "(polls p)(pc \<mapsto> P) = polls p" "heap p \<union> blocks_of pc P = heap p" using assms by auto
  then show ?thesis by (cases p; cases env; cases "ev_epoll env") (simp add: poll_state_def)
qed

definition seen :: "poll_context_t \<Rightarrow> nat \<Rightarrow> epoll_event \<Rightarrow> poll_context_t" where
  "seen P i ev = P\<lparr>pc_fds := (pc_fds P)[i := (pc_fds P ! i)\<lparr>pf_revents := epoll_event_to_poll (ee_events ev)\<rparr>],
     pc_raise_cnt := pc_raise_cnt P + 1\<rparr>"

lemma poll_live_item:
  assumes "poll_live s pc c P nfds" and "i < nfds"
  shows "\<exists>it. items s (pi_time (pc_items P ! i)) = Some it \<and> ti_prepare it = Some Prepare_poll_event \<and> ti_arg it = Some (pc, i)"
    and "pi_self (pc_items P ! i) = i" and "pi_poll (pc_items P ! i) = pc"
    and "length (pc_fds P) = nfds" and "length (pc_items P) = nfds"
  using assms by (auto simp: poll_live_def item_ready_def)

lemma poll_live_seen [simp]: "poll_live s pc c (seen P i ev) nfds = poll_live s pc c P nfds"
  "poll_live s pc c (P\<lparr>pc_allEventDetatch := b\<rparr>) nfds = poll_live s pc c P nfds"
  by (simp_all add: poll_live_def item_ready_def seen_def)

text \<open>An event for a poll context that has been seen before, and the first one.\<close>

lemma prepare_again:
  assumes live: "poll_live s pc c P nfds" and i: "i < nfds" and d: "pc_allEventDetatch P"
  shows "prepare_poll_event (poll_state p t env n pc P s w e) t (Some (pi_time (pc_items P ! i))) ev ActiveList =
    Inr (poll_state p t env n pc (seen P i ev) s w e)"
  using poll_live_item [OF live i] d i
  by (auto simp: prepare_poll_event_def get_item_def Let_def seen_def)

lemma prepare_first:
  assumes live: "poll_live s pc c P nfds" and i: "i < nfds" and d: "\<not> pc_allEventDetatch P"
    and inv: "wheel_inv s A timer" and x: "pc_time P \<in> set (A (WheelSlot j))"
  obtains s' where "prepare_poll_event (poll_state p t env n pc P s w e) t (Some (pi_time (pc_items P ! i))) ev ActiveList =
      Inr (poll_state p t env n pc ((seen P i ev)\<lparr>pc_allEventDetatch := True\<rparr>) s' w e)"
    "wheel_inv s' (A(WheelSlot j := remove1 (pc_time P) (A (WheelSlot j)), ActiveList := A ActiveList @ [pc_time P])) timer"
    "payload s' = payload s"
proof -
  let ?x = "pc_time P"
  have wf: "wf_store s A" and act: "has_list s ActiveList" using inv by (simp_all add: wheel_inv_def)
  from tl.unlink_law [OF wf x] obtain s1 where s1: "remove_from_link s (Some ?x) = Inr s1"
    "wf_store s1 (A(WheelSlot j := remove1 ?x (A (WheelSlot j))))" "payload s1 = payload s" "has_list s1 = has_list s" by blast
  have out: "\<forall>l. ?x \<notin> set ((A(WheelSlot j := remove1 ?x (A (WheelSlot j)))) l)"
  proof
    fix l show "?x \<notin> set ((A(WheelSlot j := remove1 ?x (A (WheelSlot j)))) l)"
      using wf_disjoint [OF wf x, of l] wf_distinct [OF wf, of "WheelSlot j"] by (auto simp: set_remove1_eq)
  qed
  have "payload s1 ?x \<noteq> None" "has_list s1 ActiveList" using tl.in_list [OF wf x] s1(3,4) act by simp_all
  moreover have same: "(A(WheelSlot j := remove1 ?x (A (WheelSlot j)))) ActiveList = A ActiveList" by simp
  ultimately obtain s2 where s2: "add_tail s1 ActiveList (Some ?x) = Inr s2"
    "wf_store s2 (A(WheelSlot j := remove1 ?x (A (WheelSlot j)), ActiveList := A ActiveList @ [?x]))"
    "payload s2 = payload s1" "has_list s2 = has_list s1"
    using tl.push_law [OF s1(2) _ _ out, of ActiveList] unfolding same by blast
  have "wheel_inv s2 (A(WheelSlot j := remove1 ?x (A (WheelSlot j)), ActiveList := A ActiveList @ [?x])) timer"
    by (rule wheel_inv_shrink [OF inv s2(2)]) (use s1 s2 in \<open>auto dest: subsetD [OF set_remove1_subset]\<close>)
  moreover have "prepare_poll_event (poll_state p t env n pc P s w e) t (Some (pi_time (pc_items P ! i))) ev ActiveList =
      Inr (poll_state p t env n pc ((seen P i ev)\<lparr>pc_allEventDetatch := True\<rparr>) s2 w e)"
    using poll_live_item [OF live i] d i s1(1) s2(1)
    by (auto simp: prepare_poll_event_def get_item_def Let_def seen_def)
  ultimately show thesis using that s1(3) s2(3) by simp
qed

section \<open>Leaving\<close>

lemma epoll_del_state:
  assumes "i < length fds"
  shows "\<exists>e'. epoll_del K t epfd fds (poll_state p t env n pc P s w e) i =
    Inr (poll_state p t env n pc P s (del_one K epfd (fds ! i) w) e')"
proof -
  obtain ret e' where "do_epoll_ctl K t (poll_state p t env n pc P s w e) epfd EPOLL_CTL_DEL (pf_fd (fds ! i)) None =
      (ret, poll_state p t env n pc P s (snd (k_epoll_ctl K epfd EPOLL_CTL_DEL (pf_fd (fds ! i)) None w)) e')"
    using poll_state_kernel(1) by metis
  with assms show ?thesis by (cases "pf_fd (fds ! i) > -1") (auto simp: epoll_del_def del_one_def)
qed

definition with_revents :: "poll_context_t \<Rightarrow> pollfd list \<Rightarrow> nat \<Rightarrow> pollfd list" where
  "with_revents P fds n = map (\<lambda>i. if i < n then (fds ! i)\<lparr>pf_revents := pf_revents (pc_fds P ! i)\<rparr> else fds ! i) [0..<length fds]"

lemma poll_collect_loop:
  assumes "n \<le> length fds" and "n \<le> length (pc_fds P)"
  shows "\<exists>e'. foldR (poll_collect K t epfd pc) (poll_state p t env m pc P s w e, fds) [0..<n] =
    Inr (poll_state p t env m pc P s (del_world K epfd fds n w) e', with_revents P fds n)"
  using assms
proof (induction n)
  case 0
  have "with_revents P fds 0 = fds" by (simp add: with_revents_def map_nth)
  then show ?case by (intro exI [of _ e]) (simp add: del_world_def)
next
  case (Suc n)
  let ?fds = "with_revents P fds n" and ?w1 = "del_world K epfd fds n w"
  from Suc obtain e1 where ih: "foldR (poll_collect K t epfd pc) (poll_state p t env m pc P s w e, fds) [0..<n] =
      Inr (poll_state p t env m pc P s ?w1 e1, ?fds)" by auto
  have len: "length ?fds = length fds" "?fds ! n = fds ! n" using Suc.prems by (simp_all add: with_revents_def)
  obtain e2 where del: "epoll_del K t epfd ?fds (poll_state p t env m pc P s ?w1 e1) n =
      Inr (poll_state p t env m pc P s (del_world K epfd fds (Suc n) w) e2)"
    using epoll_del_state [of n ?fds K t epfd p env m pc P s ?w1 e1] Suc.prems len by (auto simp: del_world_def)
  have "?fds[n := (?fds ! n)\<lparr>pf_revents := pf_revents (pc_fds P ! n)\<rparr>] = with_revents P fds (Suc n)"
    using Suc.prems by (auto simp: with_revents_def nth_list_update intro!: nth_equalityI)
  with del Suc.prems len have "poll_collect K t epfd pc (poll_state p t env m pc P s ?w1 e1, ?fds) n =
      Inr (poll_state p t env m pc P s (del_world K epfd fds (Suc n) w) e2, with_revents P fds (Suc n))"
    by (simp add: poll_collect_def)
  with ih show ?case by (auto simp: foldR_append)
qed

lemma poll_free_state:
  "bindR (poll_free (poll_state p t env n pc P s w e) t pc) (\<lambda>p. poll_end p t pc) =
   Inr ((poll_state p t env n pc P
      (s\<lparr>items := \<lambda>y. if y \<in> set (pc_time P # map pi_time (pc_items P)) then None else items s y\<rparr>) w e)
      \<lparr>polls := (polls p)(pc := None), heap := heap p - blocks_of pc P\<rparr>)"
  by (cases p; cases "pc_items_malloc P")
    (auto simp: poll_free_def poll_end_def poll_state_def on_store_def get_store_def put_store_def set_env_def get_env_def
      get_poll_def free_block_def drop_items_def blocks_of_def fold_none fun_eq_iff)

text \<open>Taking an item out of whatever list it is in.\<close>

lemma unlink_any:
  assumes inv: "wheel_inv s A timer" and x: "items s x = Some it"
  obtains s' where "remove_from_link s (Some x) = Inr s'" "wheel_inv s' (\<lambda>l. removeAll x (A l)) timer"
    "payload s' = payload s"
proof -
  have wf: "wf_store s A" using inv by (simp add: wheel_inv_def)
  have shrink: "set (removeAll x (A (WheelSlot i))) \<subseteq> set (A (WheelSlot i))" for i by auto
  show thesis
  proof (cases "\<exists>l. x \<in> set (A l)")
    case True
    then obtain l where l: "x \<in> set (A l)" by blast
    have "x \<notin> set (A k)" if "k \<noteq> l" for k using wf_disjoint [OF wf l, of k] that by auto
    then have eq: "A(l := remove1 x (A l)) = (\<lambda>l. removeAll x (A l))"
      using wf_distinct [OF wf, of l] by (auto simp: fun_eq_iff distinct_remove1_removeAll)
    from tl.unlink_law [OF wf l] obtain s' where s': "remove_from_link s (Some x) = Inr s'"
      "wf_store s' (\<lambda>l. removeAll x (A l))" "payload s' = payload s" "has_list s' = has_list s" unfolding eq by blast
    with wheel_inv_shrink [OF inv s'(2-4) shrink] that show thesis by blast
  next
    case False
    then have "(\<lambda>l. removeAll x (A l)) = A" by (simp add: fun_eq_iff)
    moreover have "remove_from_link s (Some x) = Inr s"
      using tl.unlink_free_law [OF wf] x False by (simp add: payload_def)
    ultimately show thesis using that inv by simp
  qed
qed

lemma free_dead_items:
  assumes inv: "wheel_inv s A timer" and it: "items s' = (\<lambda>y. if y \<in> D then None else items s y)" and li: "lists s' = lists s"
    and D: "\<And>x l. x \<in> D \<Longrightarrow> x \<notin> set (A l)"
  shows "wheel_inv s' A timer" and "payload s' = (\<lambda>y. if y \<in> D then None else payload s y)"
proof -
  have wf: "wf_store s A" using inv by (simp add: wheel_inv_def)
  show "wheel_inv s' A timer"
  proof (rule wheel_inv_items [OF inv li])
    show "items s' x = items s x" if "x \<in> set (A l)" for x l using that D [of x l] by (auto simp: it)
    show "ti_parent i = None" if "items s' x = Some i" "\<forall>l. x \<notin> set (A l)" for x i
      using that wf_unlinked [OF wf, of x i] by (auto simp: it split: if_splits)
  qed
  show "payload s' = (\<lambda>y. if y \<in> D then None else payload s y)" by (auto simp: payload_def it)
qed

text \<open>Everything the return from a wait does.\<close>

lemma poll_leave_returns:
  assumes "stack_ok p t (xs @ [c])" and "gEnv p t = Some env" and "polls p pc = Some P"
    and "wheel_inv (ep_store (ev_epoll env)) A (ep_timer (ev_epoll env))"
    and "poll_live (ep_store (ev_epoll env)) pc c P nfds" and "nfds \<le> length fds" and "blocks_of pc P \<subseteq> heap p"
  obtains p' w e s where "poll_leave K p t pc fds nfds = Inr (pc_raise_cnt P, with_revents P fds nfds, p')"
    "stack_ok p' t (xs @ [c])" "wheel_inv s (\<lambda>l. removeAll (pc_time P) (A l)) (ep_timer (ev_epoll env))"
    "p' = p\<lparr>polls := (polls p)(pc := None), heap := heap p - blocks_of pc P,
       gEnv := (gEnv p)(t \<mapsto> env\<lparr>ev_epoll := (ev_epoll env)\<lparr>ep_store := s\<rparr>\<rparr>), world := w, c_errno := e\<rparr>"
    "payload s = (\<lambda>y. if y \<in> set (pc_time P # map pi_time (pc_items P)) then None else payload (ep_store (ev_epoll env)) y)"
    "w = del_world K (ep_fd (ev_epoll env)) fds nfds (world p)"
proof -
  let ?s = "ep_store (ev_epoll env)" and ?x = "pc_time P" and ?n = "next_id p" and ?timer = "ep_timer (ev_epoll env)"
  let ?dead = "set (?x # map pi_time (pc_items P))" and ?A = "\<lambda>l. removeAll ?x (A l)"
  have self: "p = poll_state p t env ?n pc P ?s (world p) (c_errno p)" using poll_state_self [OF assms(2,3,7)] by simp
  from assms(5) obtain it where it: "items ?s ?x = Some it" by (auto simp: poll_live_def)
  obtain s1 where s1: "remove_from_link ?s (Some ?x) = Inr s1" "wheel_inv s1 ?A ?timer" "payload s1 = payload ?s"
    by (rule unlink_any [OF assms(4) it])
  define S where "S = (\<lambda>s w e. poll_state p t env ?n pc P s w e)"
  have len: "nfds \<le> length (pc_fds P)" using assms(5) by (simp add: poll_live_def)
  define w where "w = del_world K (ep_fd (ev_epoll env)) fds nfds (world p)"
  from poll_collect_loop [OF assms(6) len, of K t "ep_fd (ev_epoll env)" pc p env ?n s1 "world p" "c_errno p"] obtain e
    where col: "foldR (poll_collect K t (ep_fd (ev_epoll env)) pc) (S s1 (world p) (c_errno p), fds) [0..<nfds] =
      Inr (S s1 w e, with_revents P fds nfds)" unfolding S_def w_def by blast
  define s2 where "s2 = s1\<lparr>items := \<lambda>y. if y \<in> ?dead then None else items s1 y\<rparr>"
  have s2: "items s2 = (\<lambda>y. if y \<in> ?dead then None else items s1 y)" "lists s2 = lists s1"
    unfolding s2_def by simp_all
  define p' where "p' = (S s2 w e)\<lparr>polls := (polls p)(pc := None), heap := heap p - blocks_of pc P\<rparr>"
  have "bindR (poll_free (S s1 w e) t pc) (\<lambda>p. poll_end p t pc) = Inr p'"
    unfolding S_def p'_def s2_def by (rule poll_free_state)
  then obtain p1 where free: "poll_free (S s1 w e) t pc = Inr p1" "poll_end p1 t pc = Inr p'" by (auto simp: bindR_eq_Inr)
  have "back": "coroutine_swap_back p t = Inr p" by (rule swap_back_id [OF assms(1)])
  have ops: "get_poll p pc = Inr P" "get_env p t = Inr env" "get_store p t = Inr ?s"
    using assms(2,3) by (simp_all add: get_poll_def get_store_def get_env_def)
  have "put_store (poll_state p t env ?n pc P ?s (world p) (c_errno p)) t s1 = Inr (S s1 (world p) (c_errno p))"
    by (simp add: S_def)
  then have put: "put_store p t s1 = Inr (S s1 (world p) (c_errno p))" using self by simp
  have "get_poll (S s1 w e) pc = Inr P" by (simp add: S_def)
  with "back" ops put s1(1) col free have run: "poll_leave K p t pc fds nfds = Inr (pc_raise_cnt P, with_revents P fds nfds, p')"
    by (simp add: poll_leave_def on_store_def)
  have wf: "wf_store ?s A" using assms(4) by (simp add: wheel_inv_def)
  have "x \<notin> set (?A l)" if "x \<in> ?dead" for x l
  proof (cases "x = ?x")
    case False
    with that assms(5) obtain i where "i < nfds" "x = pi_time (pc_items P ! i)" by (auto simp: in_set_conv_nth poll_live_def)
    with assms(5) obtain j where "items ?s x = Some j" "ti_parent j = None" by (auto simp: poll_live_def item_ready_def)
    then show ?thesis using wf_unlinked [OF wf] by auto
  qed simp
  from free_dead_items [OF s1(2) s2 this] have inv: "wheel_inv s2 ?A ?timer"
    "payload s2 = (\<lambda>y. if y \<in> ?dead then None else payload ?s y)" by (simp_all only: s1(3))
  let ?env = "env\<lparr>ev_epoll := (ev_epoll env)\<lparr>ep_store := s2\<rparr>\<rparr>"
  have p': "gEnv p' t = Some ?env" "running p' = running p" "coroutines p' = coroutines p" "polls p' = (polls p)(pc := None)"
    by (simp_all add: p'_def S_def poll_state_def)
  have "env_stack ?env (xs @ [c])" using stack_ok_env [OF assms(1)] assms(2) by (simp add: env_stack_def)
  then have "stack_ok p' t (xs @ [c])" using p'
    by (intro stack_ok_cong [OF assms(1) p'(1)]) (simp_all add: co_of_def saved_def)
  moreover have "p' = p\<lparr>polls := (polls p)(pc := None), heap := heap p - blocks_of pc P, gEnv := (gEnv p)(t \<mapsto> ?env),
      world := w, c_errno := e\<rparr>"
    by (simp add: p'_def S_def poll_state_def)
  ultimately show thesis using that [where p' = p' and s = s2 and w = w and e = e] run inv w_def by simp
qed

text \<open>
  C9. A coroutine that is resumed from its wait returns the number of events seen, with the events of each
  descriptor in the caller's array, and leaves nothing of the call behind: the kernel has been told to
  forget every descriptor the call had registered, and nothing else; the blocks of the call are freed, and
  no others; the context and its items are gone, and the timer is on no list any more. The timers of others
  stay where they are.
\<close>

theorem poll_returns:
  assumes "stack_ok p t (xs @ [c])" and "gEnv p t = Some env" and "polls p pc = Some P"
    and "wheel_inv (ep_store (ev_epoll env)) A (ep_timer (ev_epoll env))"
    and "poll_live (ep_store (ev_epoll env)) pc c P nfds" and "nfds \<le> length fds" and "blocks_of pc P \<subseteq> heap p"
  shows "\<exists>p' A'. poll_leave K p t pc fds nfds = Inr (pc_raise_cnt P, with_revents P fds nfds, p') \<and> stack_ok p' t (xs @ [c]) \<and>
    wheel_inv (store_of p' t) A' (timer_of p' t) \<and> (\<forall>l. A' l = removeAll (pc_time P) (A l)) \<and>
    polls p' = (polls p)(pc := None) \<and> heap p' = heap p - blocks_of pc P \<and>
    world p' = del_world K (ep_fd (ev_epoll env)) fds nfds (world p) \<and>
    (\<forall>y. payload (store_of p' t) y = (if y \<in> set (pc_time P # map pi_time (pc_items P)) then None
       else payload (ep_store (ev_epoll env)) y))"
proof -
  let ?A = "\<lambda>l. removeAll (pc_time P) (A l)"
  obtain p' w e s where *: "poll_leave K p t pc fds nfds = Inr (pc_raise_cnt P, with_revents P fds nfds, p')"
    "stack_ok p' t (xs @ [c])" "wheel_inv s ?A (ep_timer (ev_epoll env))"
    "p' = p\<lparr>polls := (polls p)(pc := None), heap := heap p - blocks_of pc P,
       gEnv := (gEnv p)(t \<mapsto> env\<lparr>ev_epoll := (ev_epoll env)\<lparr>ep_store := s\<rparr>\<rparr>), world := w, c_errno := e\<rparr>"
    "payload s = (\<lambda>y. if y \<in> set (pc_time P # map pi_time (pc_items P)) then None else payload (ep_store (ev_epoll env)) y)"
    "w = del_world K (ep_fd (ev_epoll env)) fds nfds (world p)"
    by (rule poll_leave_returns [OF assms])
  have "store_of p' t = s" "timer_of p' t = ep_timer (ev_epoll env)" "polls p' = (polls p)(pc := None)"
    "heap p' = heap p - blocks_of pc P" "world p' = w"
    by (simp_all add: *(4) store_of_def timer_of_def)
  with * show ?thesis by (intro exI [of _ p'] exI [of _ ?A]) simp
qed

definition back_context :: poll_context_t where
  "back_context = \<lparr>pc_fds = [\<lparr>pf_fd = 9, pf_events = POLLIN, pf_revents = POLLIN\<rparr>], pc_nfds = 1, pc_time = 7,
     pc_items = [\<lparr>pi_self = 0, pi_poll = 6, pi_time = 8, pi_event = \<lparr>ee_events = EPOLLIN, ee_ptr = Some 8\<rparr>\<rparr>],
     pc_items_malloc = False, pc_allEventDetatch = True, pc_raise_cnt = 1\<rparr>"

definition back_store :: timer_store where
  "back_store = wait_store\<lparr>items := [7 \<mapsto> zero_item\<lparr>ti_process := Some Process_poll_event, ti_coroutine := Some 2\<rparr>,
     8 \<mapsto> zero_item\<lparr>ti_prepare := Some Prepare_poll_event, ti_coroutine := Some 2, ti_arg := Some (6, 0)\<rparr>]\<rparr>"

definition back_env :: env_t where
  "back_env = wait_env\<lparr>ev_epoll := (ev_epoll wait_env)\<lparr>ep_store := back_store\<rparr>\<rparr>"

definition back_process :: "unit process" where
  "back_process = wait_process\<lparr>gEnv := [7 \<mapsto> back_env], polls := [6 \<mapsto> back_context], heap := {FdsBlock 6},
     next_id := 9\<rparr>"

theorem poll_returns_witness:
  "\<exists>p'. poll_leave demo_kernel back_process 7 6 [\<lparr>pf_fd = 9, pf_events = POLLIN, pf_revents = 0\<rparr>] 1 =
      Inr (1, [\<lparr>pf_fd = 9, pf_events = POLLIN, pf_revents = POLLIN\<rparr>], p') \<and> running p' 7 = Some 2 \<and> polls p' = Map.empty \<and> heap p' = {}"
proof -
  have env: "gEnv back_process 7 = Some back_env" "polls back_process 6 = Some back_context"
    "ep_store (ev_epoll back_env) = back_store" "ep_timer (ev_epoll back_env) = wait_timer"
    by (simp_all add: back_process_def back_env_def wait_env_def)
  have "stack_ok back_process 7 ([0] @ [2])" using wait_stack
    by (auto simp: stack_ok_def env_stack_def co_of_def saved_def back_process_def back_env_def wait_process_def)
  moreover have "wheel_inv back_store (\<lambda>_. []) wait_timer"
    by (rule wheel_inv_items [OF wait_inv]) (auto simp: back_store_def zero_item_def split: if_splits)
  moreover have "poll_live back_store 6 2 back_context 1"
    by (simp add: poll_live_def item_ready_def back_store_def back_context_def zero_item_def)
  moreover have "blocks_of 6 back_context \<subseteq> heap back_process" "heap back_process - blocks_of 6 back_context = {}"
    by (simp_all add: blocks_of_def back_context_def back_process_def)
  ultimately show ?thesis
    using poll_returns [of back_process 7 "[0]" 2 back_env 6 back_context "\<lambda>_. []" 1
      "[\<lparr>pf_fd = 9, pf_events = POLLIN, pf_revents = 0\<rparr>]" demo_kernel]
    by (auto simp: env stack_ok_def with_revents_def back_context_def back_process_def)
qed

end
