(* ===== verification/Event_Loop.thy ===== *)
theory Event_Loop
  imports Poll
begin

text \<open>
  The event loop (\<^verbatim>\<open>src/src/epoll.c\<close>, lines 204 to 268). One turn of the loop collects the
  events of epoll and the timers that are due in the active list, and then resumes the coroutine of every
  item of that list. What a resumed coroutine does until the processor is back in the loop is the parameter
  \<open>run\<close> of the model; the properties say what the loop needs from it.
\<close>

section \<open>Operations\<close>

definition ensure_env :: "'k kernel \<Rightarrow> 'k process \<Rightarrow> nat \<Rightarrow> 'k process c_result" where
  "ensure_env K p t =
     bindR (get_curr_thread_env p t) (\<lambda>env.
     bindR (if env = None then do_init_curr_thread_env K t p else Inr p) (\<lambda>p.
     bindR (get_curr_thread_env p t) (\<lambda>_. Inr p)))"

definition coroutine_init_eventloop :: "'k kernel \<Rightarrow> 'k process \<Rightarrow> nat \<Rightarrow> vptr \<Rightarrow> 'k process c_result" where
  "coroutine_init_eventloop K p t arg =
     bindR (ensure_env K p t) (\<lambda>p. set_env p t (\<lambda>env. env\<lparr>ev_arg := arg\<rparr>))"

definition set_epoll :: "'k process \<Rightarrow> nat \<Rightarrow> (epoll_context_t \<Rightarrow> epoll_context_t) \<Rightarrow> 'k process c_result" where
  "set_epoll p t f = set_env p t (\<lambda>env. env\<lparr>ev_epoll := f (ev_epoll env)\<rparr>)"

text \<open>What \<open>coroutine_eventloop\<close> does before the loop.\<close>

definition eventloop_start :: "'k kernel \<Rightarrow> 'k process \<Rightarrow> nat \<Rightarrow> 'k process c_result" where
  "eventloop_start K p t =
     bindR (ensure_env K p t) (\<lambda>p.
     let (now, p) = GetTickMS K p in
     bindR (set_epoll p t (\<lambda>epoll. epoll\<lparr>ep_now := now\<rparr>)) (\<lambda>p.
     bindR (get_env p t) (\<lambda>env.
     if ep_result (ev_epoll env) = None
     then set_epoll p t (\<lambda>epoll. epoll\<lparr>ep_result := Some (alloc_epoll_result (ep_size epoll))\<rparr>)
     else Inr p)))"

text \<open>The event at index \<open>i\<close> of the result array.\<close>

definition handle_event :: "nat \<Rightarrow> epoll_result_t \<Rightarrow> 'k process \<Rightarrow> nat \<Rightarrow> 'k process c_result" where
  "handle_event t result p i =
     bindR (array_get (er_events result) (int i)) (\<lambda>ev.
     let item = ee_ptr ev in
     bindR (get_store p t) (\<lambda>s.
     bindR (get_item s item) (\<lambda>it.
     case ti_prepare it of
       Some Prepare_poll_event \<Rightarrow> prepare_poll_event p t item ev ActiveList
     | None \<Rightarrow> on_store p t (\<lambda>s. add_tail s ActiveList item))))"

text \<open>The loop that marks the items of the timeout list walks the \<open>next\<close> pointers.\<close>

partial_function (option) mark_timeouts :: "timer_store \<Rightarrow> nat option \<Rightarrow> timer_store c_result option" where
  "mark_timeouts s item =
     (if item = None then Some (Inr s)
      else case set_item s item (\<lambda>it. it\<lparr>ti_timeout := True\<rparr>) of
        Inl e \<Rightarrow> Some (Inl e)
      | Inr s' \<Rightarrow>
          (case get_item s' item of Inl e \<Rightarrow> Some (Inl e) | Inr it \<Rightarrow> mark_timeouts s' (ti_next it)))"

definition take_timeouts :: "'k process \<Rightarrow> nat \<Rightarrow> u64 \<Rightarrow> 'k process c_result" where
  "take_timeouts p t now =
     bindR (get_env p t) (\<lambda>env.
     bindR (takeAllTimeout (ep_store (ev_epoll env)) (ep_timer (ev_epoll env)) now TimeoutList) (\<lambda>(s, timer).
     bindR (get_list s TimeoutList) (\<lambda>L.
     bindR (case mark_timeouts s (tl_head L) of None \<Rightarrow> Inl Diverges | Some r \<Rightarrow> r) (\<lambda>s.
     bindR (join s ActiveList TimeoutList) (\<lambda>s.
     set_epoll p t (\<lambda>epoll. epoll\<lparr>ep_store := s, ep_timer := timer\<rparr>))))))"

text \<open>The first half of a turn: everything up to the loop over the active list.\<close>

definition collect :: "'k kernel \<Rightarrow> 'k process \<Rightarrow> nat \<Rightarrow> 'k process c_result" where
  "collect K p t =
     bindR (get_env p t) (\<lambda>env.
     case ep_result (ev_epoll env) of None \<Rightarrow> Inl NullDeref | Some result \<Rightarrow>
     bindR (do_epoll_wait K t p (ep_fd (ev_epoll env)) result (ep_size (ev_epoll env)) 1) (\<lambda>(ret, result, p).
     bindR (set_epoll p t (\<lambda>epoll. epoll\<lparr>ep_result := Some result\<rparr>)) (\<lambda>p.
     bindR (on_store p t (\<lambda>s. set_list s TimeoutList (\<lambda>_. empty_list))) (\<lambda>p.
     bindR (foldR (handle_event t result) p [0..<nat ret]) (\<lambda>p.
     let (now, p) = GetTickMS K p in
     bindR (set_epoll p t (\<lambda>epoll. epoll\<lparr>ep_now := now\<rparr>)) (\<lambda>p.
     take_timeouts p t now))))))"

text \<open>
  The second half. \<open>process_head\<close> is the body of the loop for the item at the head; after
  \<open>coroutine_resume\<close> the resumed coroutine runs, and the rest of \<open>coroutine_swap\<close> follows when the
  processor is back.
\<close>

definition active_head :: "'k process \<Rightarrow> nat \<Rightarrow> nat option c_result" where
  "active_head p t = bindR (get_store p t) (\<lambda>s. bindR (get_list s ActiveList) (\<lambda>L. Inr (tl_head L)))"

definition process_head ::
  "(nat \<Rightarrow> 'k process \<Rightarrow> 'k process c_result) \<Rightarrow> nat \<Rightarrow> 'k process \<Rightarrow> nat \<Rightarrow> 'k process c_result" where
  "process_head run t p item =
     bindR (on_store p t (\<lambda>s. popHead s ActiveList)) (\<lambda>p.
     bindR (get_store p t) (\<lambda>s.
     bindR (get_item s (Some item)) (\<lambda>it.
     case ti_process it of
       None \<Rightarrow> Inr p
     | Some Process_poll_event \<Rightarrow>
         bindR (process_poll_event p t (Some item)) (\<lambda>p.
         bindR (run item p) (\<lambda>p. coroutine_swap_back p t)))))"

partial_function (option) drain ::
  "(nat \<Rightarrow> 'k process \<Rightarrow> 'k process c_result) \<Rightarrow> nat \<Rightarrow> 'k process \<Rightarrow> 'k process c_result option" where
  "drain run t p =
     (case active_head p t of
        Inl e \<Rightarrow> Some (Inl e)
      | Inr None \<Rightarrow> Some (Inr p)
      | Inr (Some item) \<Rightarrow>
          (case process_head run t p item of Inl e \<Rightarrow> Some (Inl e) | Inr p \<Rightarrow> drain run t p))"

definition eventloop_turn ::
  "'k kernel \<Rightarrow> (nat \<Rightarrow> 'k process \<Rightarrow> 'k process c_result) \<Rightarrow> nat \<Rightarrow> 'k process \<Rightarrow> 'k process c_result" where
  "eventloop_turn K run t p =
     bindR (collect K p t) (\<lambda>p. case drain run t p of None \<Rightarrow> Inl Diverges | Some r \<Rightarrow> r)"

text \<open>The state after \<open>n\<close> turns of the loop, which never ends.\<close>

definition coroutine_eventloop ::
  "'k kernel \<Rightarrow> (nat \<Rightarrow> 'k process \<Rightarrow> 'k process c_result) \<Rightarrow> nat \<Rightarrow> 'k process \<Rightarrow> nat \<Rightarrow> 'k process c_result" where
  "coroutine_eventloop K run t p n =
     bindR (eventloop_start K p t) (\<lambda>p. foldR (\<lambda>p _. eventloop_turn K run t p) p [0..<n])"

section \<open>The invariant of a thread\<close>

text \<open>
  \<open>W\<close> tells which coroutines wait, and in which poll context; \<open>A\<close> is what the lists of the thread
  represent. A waiting coroutine is ready to be resumed, its poll context is intact and its timer is in
  one of the lists; conversely every item of a list is the timer of a waiting coroutine.
\<close>

definition parked ::
  "(nat \<rightharpoonup> poll_context_t) \<Rightarrow> timer_store \<Rightarrow> (list_ref \<Rightarrow> nat list) \<Rightarrow> nat \<Rightarrow> nat \<Rightarrow> bool" where
  "parked PL s A c pc \<longleftrightarrow> (\<exists>P. PL pc = Some P \<and> poll_live s pc c P (length (pc_fds P)) \<and> (\<exists>l. pc_time P \<in> set (A l)))"

definition thread_ok ::
  "'k process \<Rightarrow> nat \<Rightarrow> nat list \<Rightarrow> (nat \<rightharpoonup> nat) \<Rightarrow> (list_ref \<Rightarrow> nat list) \<Rightarrow> bool" where
  "thread_ok p t xs W A \<longleftrightarrow> stack_ok p t xs \<and> poll_fresh p (store_of p t) \<and> wheel_inv (store_of p t) A (timer_of p t) \<and>
     (\<forall>c pc. W c = Some pc \<longrightarrow> c \<notin> set xs \<and> ready p t c \<and> parked (polls p) (store_of p t) A c pc) \<and>
     (\<forall>l. \<forall>x \<in> set (A l). \<exists>c pc P. W c = Some pc \<and> polls p pc = Some P \<and> pc_time P = x)"

lemma thread_ok_parts:
  assumes "thread_ok p t xs W A"
  shows "stack_ok p t xs" "poll_fresh p (store_of p t)" "wheel_inv (store_of p t) A (timer_of p t)"
    "wf_store (store_of p t) A"
  using assms by (simp_all add: thread_ok_def wheel_inv_def)

lemma thread_ok_waiting:
  assumes "thread_ok p t xs W A" and "W c = Some pc"
  obtains P where "polls p pc = Some P" "poll_live (store_of p t) pc c P (length (pc_fds P))" "\<exists>l. pc_time P \<in> set (A l)"
    "c \<notin> set xs" "ready p t c"
  using assms unfolding thread_ok_def parked_def by blast

lemma thread_ok_linked:
  assumes "thread_ok p t xs W A" and "x \<in> set (A l)"
  obtains c pc P where "W c = Some pc" "polls p pc = Some P" "pc_time P = x"
    "poll_live (store_of p t) pc c P (length (pc_fds P))" "c \<notin> set xs" "ready p t c"
proof -
  from assms obtain c pc P where *: "W c = Some pc" "polls p pc = Some P" "pc_time P = x" unfolding thread_ok_def by blast
  from thread_ok_waiting [OF assms(1) *(1)] *(2) have "poll_live (store_of p t) pc c P (length (pc_fds P))" "c \<notin> set xs" "ready p t c"
    by auto
  with * that show thesis by blast
qed

text \<open>The items of different coroutines are different, since each carries its coroutine.\<close>

lemma poll_live_coroutine:
  assumes "poll_live s pc c P n" and "x = pc_time P \<or> (\<exists>i < n. x = pi_time (pc_items P ! i))"
  shows "\<exists>it. items s x = Some it \<and> ti_coroutine it = Some c"
  using assms by (auto simp: poll_live_def item_ready_def)

lemma poll_live_inj:
  assumes "poll_live s pc c P n" and "poll_live s pc' c' P' n'" and "x = pc_time P \<or> (\<exists>i < n. x = pi_time (pc_items P ! i))"
    and "x = pc_time P' \<or> (\<exists>i < n'. x = pi_time (pc_items P' ! i))"
  shows "c = c'"
  using poll_live_coroutine [OF assms(1,3)] poll_live_coroutine [OF assms(2,4)] by auto

lemma poll_live_unlinked: "poll_live s pc c P n \<Longrightarrow> wf_store s A \<Longrightarrow> i < n \<Longrightarrow> pi_time (pc_items P ! i) \<notin> set (A l)"
  using wf_unlinked by (fastforce simp: poll_live_def item_ready_def)

lemma item_unlinked:
  assumes "thread_ok p t xs W A" and "W c = Some pc" and "polls p pc = Some P" and "i < length (pc_fds P)"
  shows "pi_time (pc_items P ! i) \<notin> set (A l)"
proof -
  obtain P' where "polls p pc = Some P'" "poll_live (store_of p t) pc c P' (length (pc_fds P'))"
    by (rule thread_ok_waiting [OF assms(1,2)])
  with assms(3,4) poll_live_unlinked [OF _ thread_ok_parts(4) [OF assms(1)]] show ?thesis by simp
qed

text \<open>What the loop itself does keeps the invariant: events change, items move between lists.\<close>

definition same_shape :: "poll_context_t \<Rightarrow> poll_context_t \<Rightarrow> bool" where
  "same_shape P P' \<longleftrightarrow> pc_time P' = pc_time P \<and> pc_items P' = pc_items P \<and> length (pc_fds P') = length (pc_fds P) \<and>
     pc_items_malloc P' = pc_items_malloc P"

lemma same_shape_refl [simp]: "same_shape P P"
  by (simp add: same_shape_def)

lemma poll_live_shape: "same_shape P P' \<Longrightarrow> poll_live s pc c P' n = poll_live s pc c P n"
  by (simp add: same_shape_def poll_live_def item_ready_def)

lemma live_blocks_shape:
  assumes "\<And>pc. rel_option same_shape (M pc) (M' pc)"
  shows "live_blocks M' = live_blocks M"
proof (rule block_set_eqI)
  fix a show "(FdsBlock a \<in> live_blocks M') = (FdsBlock a \<in> live_blocks M)" "(ItemsBlock a \<in> live_blocks M') = (ItemsBlock a \<in> live_blocks M)"
    using assms [of a] by (cases "M a"; cases "M' a"; simp add: live_blocks_def same_shape_def)+
qed

lemma thread_ok_evolve:
  assumes ok: "thread_ok p t xs W A"
    and p': "gEnv p' t = Some env'" "env_stack env' xs" "running p' t = running p t" "coroutines p' = coroutines p"
      "next_id p' = next_id p" "heap p' = heap p"
    and s': "wheel_inv (store_of p' t) A' (timer_of p' t)" "core (store_of p' t) = core (store_of p t)"
    and linked: "\<And>x. (\<exists>l. x \<in> set (A' l)) \<longleftrightarrow> (\<exists>l. x \<in> set (A l))"
    and PL: "\<And>pc. rel_option same_shape (polls p pc) (polls p' pc)"
  shows "thread_ok p' t xs W A'"
proof -
  have "stack_ok p' t xs"
    by (rule stack_ok_cong [OF thread_ok_parts(1) [OF ok] p'(1-3)]) (simp_all add: co_of_def saved_def p'(4))
  moreover have "poll_fresh p' (store_of p' t)"
  proof -
    have "polls p' i = None" "items (store_of p' t) i = None" if "i \<ge> next_id p" for i
      using that thread_ok_parts(2) [OF ok] PL [of i] fun_cong [OF s'(2), of i]
      by (auto simp: poll_fresh_def core_def payload_def)
    moreover have "heap p = live_blocks (polls p)" using thread_ok_parts(2) [OF ok] by (simp add: poll_fresh_def)
    ultimately show ?thesis using live_blocks_shape [OF PL] by (simp add: poll_fresh_def p'(5,6))
  qed
  moreover have "c \<notin> set xs \<and> ready p' t c \<and> parked (polls p') (store_of p' t) A' c pc" if c: "W c = Some pc" for c pc
  proof -
    obtain P where P: "polls p pc = Some P" "poll_live (store_of p t) pc c P (length (pc_fds P))" "\<exists>l. pc_time P \<in> set (A l)"
      "c \<notin> set xs" "ready p t c" by (rule thread_ok_waiting [OF ok c])
    with PL [of pc] obtain P' where P': "polls p' pc = Some P'" "same_shape P P'" by (auto simp: option_rel_Some1)
    have wf': "wf_store (store_of p' t) A'" using s'(1) by (simp add: wheel_inv_def)
    have "pi_time (pc_items P ! i) \<notin> set (A' l)" if "i < length (pc_fds P)" for i l
      using item_unlinked [OF ok c P(1) that] linked by auto
    then have "poll_live (store_of p' t) pc c P (length (pc_fds P))" by (rule poll_live_core [OF P(2) s'(2) wf'])
    with P' P(3-5) linked show ?thesis
      by (auto simp: parked_def poll_live_shape ready_def p'(4)) (auto simp: same_shape_def)
  qed
  moreover have "\<exists>c pc P. W c = Some pc \<and> polls p' pc = Some P \<and> pc_time P = x" if "x \<in> set (A' l)" for x l
  proof -
    from that linked obtain k where "x \<in> set (A k)" by auto
    then obtain c pc P where c: "W c = Some pc" "polls p pc = Some P" "pc_time P = x" by (rule thread_ok_linked [OF ok])
    with PL [of pc] obtain P' where "polls p' pc = Some P'" "same_shape P P'" by (auto simp: option_rel_Some1)
    with c show ?thesis by (auto simp: same_shape_def)
  qed
  ultimately show ?thesis using s'(1) by (simp add: thread_ok_def)
qed

section \<open>Collecting events\<close>

text \<open>Between events a poll context is marked exactly when its timer is in the active list.\<close>

definition flags :: "(nat \<rightharpoonup> poll_context_t) \<Rightarrow> (nat \<rightharpoonup> nat) \<Rightarrow> (list_ref \<Rightarrow> nat list) \<Rightarrow> bool" where
  "flags PL W A \<longleftrightarrow> (\<forall>c pc P. W c = Some pc \<longrightarrow> PL pc = Some P \<longrightarrow>
     (pc_allEventDetatch P \<longleftrightarrow> pc_time P \<in> set (A ActiveList)))"

text \<open>What an event for descriptor \<open>j\<close> does to its poll context and to the lists.\<close>

definition hit :: "poll_context_t \<Rightarrow> nat \<Rightarrow> epoll_event \<Rightarrow> poll_context_t" where
  "hit P j ev = (seen P j ev)\<lparr>pc_allEventDetatch := True\<rparr>"

definition to_active :: "nat \<Rightarrow> (list_ref \<Rightarrow> nat list) \<Rightarrow> list_ref \<Rightarrow> nat list" where
  "to_active x A = (if x \<in> set (A ActiveList) then A
     else (\<lambda>l. removeAll x (A l))(ActiveList := A ActiveList @ [x]))"

lemma hit_shape [simp]: "same_shape P (hit P j ev)" "pc_time (hit P j ev) = pc_time P" "pc_allEventDetatch (hit P j ev)"
  by (simp_all add: hit_def seen_def same_shape_def)

lemma to_active_mem: "y \<in> set (to_active x A k) \<longleftrightarrow>
    (if x \<in> set (A ActiveList) then y \<in> set (A k) else if y = x then k = ActiveList else y \<in> set (A k))"
  by (auto simp: to_active_def)

lemma to_active_linked: "x \<in> set (A l) \<Longrightarrow> (\<exists>l. y \<in> set (to_active x A l)) \<longleftrightarrow> (\<exists>l. y \<in> set (A l))"
  unfolding to_active_mem by auto

definition ev_state :: "'k process \<Rightarrow> nat \<Rightarrow> env_t \<Rightarrow> (nat \<rightharpoonup> poll_context_t) \<Rightarrow> timer_store \<Rightarrow> 'k process" where
  "ev_state p t env PL s = p\<lparr>polls := PL, gEnv := (gEnv p)(t \<mapsto> env\<lparr>ev_epoll := (ev_epoll env)\<lparr>ep_store := s\<rparr>\<rparr>)\<rparr>"

lemma ev_state_simps [simp]:
  "polls (ev_state p t env PL s) = PL" "store_of (ev_state p t env PL s) t = s"
  "timer_of (ev_state p t env PL s) t = ep_timer (ev_epoll env)"
  "gEnv (ev_state p t env PL s) t = Some (env\<lparr>ev_epoll := (ev_epoll env)\<lparr>ep_store := s\<rparr>\<rparr>)"
  "ev_state (ev_state p t env PL s) t (env\<lparr>ev_epoll := (ev_epoll env)\<lparr>ep_store := s\<rparr>\<rparr>) PL' s' = ev_state p t env PL' s'"
  "running (ev_state p t env PL s) = running p" "coroutines (ev_state p t env PL s) = coroutines p"
  "next_id (ev_state p t env PL s) = next_id p" "world (ev_state p t env PL s) = world p"
  "heap (ev_state p t env PL s) = heap p"
  by (simp_all add: ev_state_def store_of_def timer_of_def)

lemma ev_state_poll:
  "blocks_of pc P \<subseteq> heap p \<Longrightarrow>
   poll_state p t env (next_id p) pc P s (world p) (c_errno p) = ev_state p t env ((polls p)(pc \<mapsto> P)) s"
  by (cases p) (simp add: poll_state_def ev_state_def Un_absorb2)

lemma ev_state_ok:
  assumes ok: "thread_ok p t xs W A" and env: "gEnv p t = Some env"
    and s': "wheel_inv s' A' (ep_timer (ev_epoll env))" "payload s' = payload (ep_store (ev_epoll env))"
    and linked: "\<And>x. (\<exists>l. x \<in> set (A' l)) \<longleftrightarrow> (\<exists>l. x \<in> set (A l))"
    and PL: "\<And>pc. rel_option same_shape (polls p pc) (PL pc)"
  shows "thread_ok (ev_state p t env PL s') t xs W A'"
proof (rule thread_ok_evolve [OF ok _ _ _ _ _ _ _ _ linked])
  show "env_stack (env\<lparr>ev_epoll := (ev_epoll env)\<lparr>ep_store := s'\<rparr>\<rparr>) xs"
    using stack_ok_env [OF thread_ok_parts(1) [OF ok]] env by (simp add: env_stack_def)
  show "core (store_of (ev_state p t env PL s') t) = core (store_of p t)"
    using core_payload [OF s'(2)] env by (simp add: store_of_def)
qed (use s'(1) PL in simp_all)

lemma handle_event_ok:
  assumes ok: "thread_ok p t xs W A" and fl: "flags (polls p) W A" and idle: "A TimeoutList = []" and env: "gEnv p t = Some env"
    and i: "i < length (er_events result)" "er_events result ! i = ev"
    and c: "W c = Some pc" "polls p pc = Some P" "j < length (pc_fds P)" "ee_ptr ev = Some (pi_time (pc_items P ! j))"
  obtains s' where "handle_event t result p i = Inr (ev_state p t env ((polls p)(pc \<mapsto> hit P j ev)) s')"
    "thread_ok (ev_state p t env ((polls p)(pc \<mapsto> hit P j ev)) s') t xs W (to_active (pc_time P) A)"
    "payload s' = payload (ep_store (ev_epoll env))"
proof -
  let ?x = "pc_time P" and ?s = "ep_store (ev_epoll env)" and ?timer = "ep_timer (ev_epoll env)"
  have s: "store_of p t = ?s" "timer_of p t = ?timer" using env by (simp_all add: store_of_def timer_of_def)
  obtain l where live: "poll_live ?s pc c P (length (pc_fds P))" and l: "?x \<in> set (A l)"
    using thread_ok_waiting [OF ok c(1)] c(2) unfolding s by auto
  have inv: "wheel_inv ?s A ?timer" and wf: "wf_store ?s A" using thread_ok_parts(3,4) [OF ok] unfolding s .
  have heap: "blocks_of pc Q \<subseteq> heap p" if "pc_items_malloc Q = pc_items_malloc P" for Q
    using that live_blocks_mem [of "polls p", OF c(2)] thread_ok_parts(2) [OF ok] by (auto simp: poll_fresh_def blocks_of_def)
  have self: "poll_state p t env (next_id p) pc P ?s (world p) (c_errno p) = p" by (rule poll_state_self [OF env c(2) heap]) simp
  have hit: "poll_state p t env (next_id p) pc (hit P j ev) s (world p) (c_errno p) = ev_state p t env ((polls p)(pc \<mapsto> hit P j ev)) s" for s
    by (rule ev_state_poll [OF heap]) (simp add: hit_def seen_def)
  have "handle_event t result p i = prepare_poll_event p t (Some (pi_time (pc_items P ! j))) ev ActiveList"
    using i c(4) env poll_live_item(1) [OF live c(3)] by (auto simp: handle_event_def get_store_def get_env_def get_item_def)
  then have run: "handle_event t result p i = prepare_poll_event (poll_state p t env (next_id p) pc P ?s (world p) (c_errno p)) t
      (Some (pi_time (pc_items P ! j))) ev ActiveList" unfolding self .
  have "\<exists>s'. handle_event t result p i = Inr (ev_state p t env ((polls p)(pc \<mapsto> hit P j ev)) s') \<and>
      wheel_inv s' (to_active ?x A) ?timer \<and> payload s' = payload ?s"
  proof (cases "pc_allEventDetatch P")
    case True
    then have "seen P j ev = hit P j ev" by (cases P) (simp add: hit_def seen_def)
    moreover have "?x \<in> set (A ActiveList)" using fl c True by (auto simp: flags_def)
    ultimately show ?thesis using prepare_again [OF live c(3) True, of p t env "next_id p" "world p" "c_errno p" ev] inv
      unfolding run hit [symmetric]
      by (intro exI [of _ ?s]) (simp add: to_active_def)
  next
    case False
    then have out: "?x \<notin> set (A ActiveList)" using fl c by (auto simp: flags_def)
    with l idle obtain k where k: "?x \<in> set (A (WheelSlot k))" by (cases l) auto
    have "?x \<notin> set (A m)" if "m \<noteq> WheelSlot k" for m using wf_disjoint [OF wf k, of m] that by auto
    then have eq: "A(WheelSlot k := remove1 ?x (A (WheelSlot k)), ActiveList := A ActiveList @ [?x]) = to_active ?x A"
      using out wf_distinct [OF wf, of "WheelSlot k"] by (auto simp: to_active_def fun_eq_iff distinct_remove1_removeAll)
    obtain s' where "prepare_poll_event (poll_state p t env (next_id p) pc P ?s (world p) (c_errno p)) t
        (Some (pi_time (pc_items P ! j))) ev ActiveList =
        Inr (poll_state p t env (next_id p) pc ((seen P j ev)\<lparr>pc_allEventDetatch := True\<rparr>) s' (world p) (c_errno p))"
      "wheel_inv s' (A(WheelSlot k := remove1 ?x (A (WheelSlot k)), ActiveList := A ActiveList @ [?x])) ?timer"
      "payload s' = payload ?s" by (rule prepare_first [OF live c(3) False inv k])
    then show ?thesis unfolding run eq hit [symmetric] unfolding hit_def by blast
  qed
  then obtain s' where s': "handle_event t result p i = Inr (ev_state p t env ((polls p)(pc \<mapsto> hit P j ev)) s')"
    "wheel_inv s' (to_active ?x A) ?timer" "payload s' = payload ?s" by blast
  moreover have "thread_ok (ev_state p t env ((polls p)(pc \<mapsto> hit P j ev)) s') t xs W (to_active ?x A)"
    by (rule ev_state_ok [OF ok env s'(2,3) to_active_linked [where A = A, OF l]])
      (use c(2) in \<open>auto simp: option.rel_refl\<close>)
  ultimately show thesis using that by blast
qed

text \<open>
  A list of events, each with the poll context and the index of the descriptor it was registered for.
  epoll reports what was registered for descriptors of waiting coroutines.
\<close>

type_synonym target = "(nat \<times> nat) \<times> epoll_event"

definition registered :: "(nat \<rightharpoonup> poll_context_t) \<Rightarrow> (nat \<rightharpoonup> nat) \<Rightarrow> target \<Rightarrow> bool" where
  "registered PL W = (\<lambda>((pc, j), ev). \<exists>c P. W c = Some pc \<and> PL pc = Some P \<and> j < length (pc_fds P) \<and>
     ee_ptr ev = Some (pi_time (pc_items P ! j)))"

definition hit_at :: "target \<Rightarrow> (nat \<rightharpoonup> poll_context_t) \<Rightarrow> nat \<rightharpoonup> poll_context_t" where
  "hit_at = (\<lambda>((pc, j), ev) PL. PL(pc := map_option (\<lambda>P. hit P j ev) (PL pc)))"

definition time_at :: "(nat \<rightharpoonup> poll_context_t) \<Rightarrow> target \<Rightarrow> nat" where
  "time_at PL = (\<lambda>((pc, j), ev). pc_time (the (PL pc)))"

lemma hit_at_simp: "hit_at ((pc, j), ev) PL = PL(pc := map_option (\<lambda>P. hit P j ev) (PL pc))"
  by (simp add: hit_at_def)

lemma same_shape_trans: "same_shape P Q \<Longrightarrow> same_shape Q R \<Longrightarrow> same_shape P R"
  by (simp add: same_shape_def)

lemma hits_shape: "rel_option same_shape (PL pc) (fold hit_at tes PL pc)"
proof (induction tes rule: rev_induct)
  case (snoc x tes)
  obtain q j ev where x: "x = ((q, j), ev)" by (metis prod.collapse)
  show ?case
  proof (cases "fold hit_at tes PL pc")
    case (Some Q)
    with snoc obtain P where "PL pc = Some P" "same_shape P Q" by (auto simp: option_rel_Some2)
    with Some same_shape_trans [of P Q "hit Q j ev"] show ?thesis by (cases "pc = q") (simp_all add: x hit_at_simp)
  qed (use snoc in \<open>auto simp: x hit_at_simp\<close>)
qed (simp add: option.rel_refl)

lemma flags_hit:
  assumes ok: "thread_ok p t xs W A" and fl: "flags (polls p) W A" and c: "W c = Some pc" "polls p pc = Some P"
  shows "flags ((polls p)(pc \<mapsto> hit P j ev)) W (to_active (pc_time P) A)"
proof -
  have "pc_allEventDetatch P' \<longleftrightarrow> pc_time P' \<in> set (to_active (pc_time P) A ActiveList)"
    if c': "W c' = Some pc'" "polls p pc' = Some P'" "pc' \<noteq> pc" for c' pc' P'
  proof -
    obtain P1 where "polls p pc = Some P1" "poll_live (store_of p t) pc c P1 (length (pc_fds P1))" by (rule thread_ok_waiting [OF ok c(1)])
    moreover obtain P2 where "polls p pc' = Some P2" "poll_live (store_of p t) pc' c' P2 (length (pc_fds P2))" by (rule thread_ok_waiting [OF ok c'(1)])
    ultimately have "pc_time P' \<noteq> pc_time P" using poll_live_inj [of "store_of p t" pc c P "length (pc_fds P)" pc' c' P' "length (pc_fds P')" "pc_time P"] c c' by auto
    with fl c' show ?thesis by (auto simp: flags_def to_active_mem)
  qed
  then show ?thesis by (auto simp: flags_def to_active_mem split: if_splits)
qed

lemma to_active_timeouts: "A TimeoutList = [] \<Longrightarrow> to_active x A TimeoutList = []"
  by (simp add: to_active_def)

lemma handle_events:
  assumes ok: "thread_ok p t xs W A" and fl: "flags (polls p) W A" and idle: "A TimeoutList = []" and env: "gEnv p t = Some env"
    and reg: "\<forall>x \<in> set tes. registered (polls p) W x" and res: "length tes \<le> length (er_events result)"
      "\<forall>i < length tes. er_events result ! i = snd (tes ! i)"
  shows "n \<le> length tes \<Longrightarrow> \<exists>s'. let PL = fold hit_at (take n tes) (polls p); q = ev_state p t env PL s';
      A' = fold to_active (map (time_at (polls p)) (take n tes)) A in
    foldR (handle_event t result) p [0..<n] = Inr q \<and> thread_ok q t xs W A' \<and> flags PL W A' \<and> A' TimeoutList = [] \<and>
    payload s' = payload (ep_store (ev_epoll env))"
proof (induction n)
  case 0
  have "ev_state p t env (polls p) (ep_store (ev_epoll env)) = p" using env
    by (cases p; cases env; cases "ev_epoll env") (auto simp: ev_state_def)
  with ok fl idle show ?case by (intro exI [of _ "ep_store (ev_epoll env)"]) simp
next
  case (Suc n)
  let ?PL = "fold hit_at (take n tes) (polls p)" and ?A = "fold to_active (map (time_at (polls p)) (take n tes)) A"
  from Suc obtain s' where ih: "foldR (handle_event t result) p [0..<n] = Inr (ev_state p t env ?PL s')"
    "thread_ok (ev_state p t env ?PL s') t xs W ?A" "flags ?PL W ?A" "?A TimeoutList = []"
    "payload s' = payload (ep_store (ev_epoll env))" by (auto simp: Let_def)
  obtain pc j ev where e: "tes ! n = ((pc, j), ev)" by (metis prod.collapse)
  from reg Suc.prems have "registered (polls p) W (tes ! n)" by simp
  then obtain c P where c: "W c = Some pc" "polls p pc = Some P" "j < length (pc_fds P)" "ee_ptr ev = Some (pi_time (pc_items P ! j))"
    by (auto simp: registered_def e)
  from hits_shape [of "polls p" pc "take n tes"] c(2) obtain Q where Q: "?PL pc = Some Q" "same_shape P Q"
    by (auto simp: option_rel_Some1)
  let ?env = "env\<lparr>ev_epoll := (ev_epoll env)\<lparr>ep_store := s'\<rparr>\<rparr>"
  have "flags (polls (ev_state p t env ?PL s')) W ?A" using ih(3) by simp
  moreover have "er_events result ! n = ev" "n < length (er_events result)" using res Suc.prems e by auto
  moreover have "polls (ev_state p t env ?PL s') pc = Some Q" "j < length (pc_fds Q)" "ee_ptr ev = Some (pi_time (pc_items Q ! j))"
    using Q c(3,4) by (auto simp: same_shape_def)
  ultimately obtain s2 where s2: "handle_event t result (ev_state p t env ?PL s') n =
      Inr (ev_state (ev_state p t env ?PL s') t ?env (?PL(pc \<mapsto> hit Q j ev)) s2)"
    "thread_ok (ev_state (ev_state p t env ?PL s') t ?env (?PL(pc \<mapsto> hit Q j ev)) s2) t xs W (to_active (pc_time Q) ?A)"
    "payload s2 = payload s'"
    using handle_event_ok [OF ih(2) _ ih(4), of ?env n result ev c pc Q j] c(1) by auto
  have PL: "fold hit_at (take (Suc n) tes) (polls p) = ?PL(pc \<mapsto> hit Q j ev)"
    using Suc.prems e Q(1) by (simp add: take_Suc_conv_app_nth hit_at_simp)
  have A: "fold to_active (map (time_at (polls p)) (take (Suc n) tes)) A = to_active (pc_time Q) ?A"
    using Suc.prems e c(2) Q(2) by (simp add: take_Suc_conv_app_nth time_at_def same_shape_def)
  have "flags (?PL(pc \<mapsto> hit Q j ev)) W (to_active (pc_time Q) ?A)"
    using flags_hit [OF ih(2) _ c(1), of Q j ev] ih(3) Q(1) by simp
  moreover have "to_active (pc_time Q) ?A TimeoutList = []" by (rule to_active_timeouts [of ?A, OF ih(4)])
  ultimately show ?case unfolding PL A Let_def using s2 ih(1,5)
    by (intro exI [of _ s2]) (simp add: foldR_append)
qed

section \<open>Collecting timeouts\<close>

definition marked :: "(nat \<rightharpoonup> timer_item_t) \<Rightarrow> nat list \<Rightarrow> nat \<rightharpoonup> timer_item_t" where
  "marked h xs = (\<lambda>x. if x \<in> set xs then map_option (\<lambda>it. it\<lparr>ti_timeout := True\<rparr>) (h x) else h x)"

lemma marked_Cons: "h x = Some it \<Longrightarrow> x \<notin> set xs \<Longrightarrow> marked (h(x \<mapsto> it\<lparr>ti_timeout := True\<rparr>)) xs = marked h (x # xs)"
  by (auto simp: marked_def)

lemma dseg_marked [simp]: "dseg (marked h ys) l p xs q = dseg h l p xs q"
  by (induction xs arbitrary: p) (auto simp: node_ok_def marked_def split: option.splits)

lemma mark_timeouts_dseg:
  "dseg (items s) l p xs None \<Longrightarrow> distinct xs \<Longrightarrow>
   mark_timeouts s (hd_or xs None) = Some (Inr (s\<lparr>items := marked (items s) xs\<rparr>))"
proof (induction xs arbitrary: s p)
  case Nil
  have "marked (items s) [] = items s" by (simp add: marked_def)
  then show ?case by (simp add: mark_timeouts.simps)
next
  case (Cons x xs)
  then obtain it where x: "items s x = Some it" "ti_next it = hd_or xs None" by (auto simp: node_ok_Some)
  let ?s = "s\<lparr>items := (items s)(x \<mapsto> it\<lparr>ti_timeout := True\<rparr>)\<rparr>"
  have "dseg (items ?s) l (Some x) xs None" using Cons.prems by simp
  then have "mark_timeouts ?s (hd_or xs None) = Some (Inr (?s\<lparr>items := marked (items ?s) xs\<rparr>))"
    by (rule Cons.IH) (use Cons.prems(2) in simp)
  also have "?s\<lparr>items := marked (items ?s) xs\<rparr> = s\<lparr>items := marked ((items s)(x \<mapsto> it\<lparr>ti_timeout := True\<rparr>)) xs\<rparr>" by simp
  also have "marked ((items s)(x \<mapsto> it\<lparr>ti_timeout := True\<rparr>)) xs = marked (items s) (x # xs)"
    by (rule marked_Cons) (use x Cons.prems(2) in simp_all)
  finally have "mark_timeouts ?s (hd_or xs None) = Some (Inr (s\<lparr>items := marked (items s) (x # xs)\<rparr>))" .
  then show ?case using x by (subst mark_timeouts.simps) (simp add: access_defs)
qed

lemma core_marked: "core (s\<lparr>items := marked (items s) xs\<rparr>) = core s"
  by (auto simp: core_def payload_def marked_def fun_eq_iff option.map_comp comp_def)

lemma deadline_core: "core s' = core s \<Longrightarrow> deadline s' = deadline s"
proof
  fix x assume "core s' = core s"
  from fun_cong [OF this, of x] show "deadline s' x = deadline s x"
    by (cases "items s x"; cases "items s' x") (auto simp: core_def payload_def deadline_def dest: arg_cong [where f = ti_expire])
qed

lemma wheel_inv_marked:
  assumes "wheel_inv s A timer"
  shows "wheel_inv (s\<lparr>items := marked (items s) xs\<rparr>) A timer"
proof -
  let ?s = "s\<lparr>items := marked (items s) xs\<rparr>"
  have "x \<in> set (A l)" if "items ?s x = Some it" "ti_parent it = Some l" for x it l
    using that assms by (auto simp: marked_def wheel_inv_def wf_store_def split: if_splits)
  moreover have "dlist ?s l ys = dlist s l ys" for l ys by (simp add: dlist_def)
  ultimately have "wf_store ?s A" using assms unfolding wheel_inv_def wf_store_def by auto
  then show ?thesis using assms deadline_core [OF core_marked, of s xs] by (simp add: wheel_inv_def has_list_def)
qed

lemma linked_iff: "(\<exists>l. x \<in> set (A l)) \<longleftrightarrow> x \<in> set (A ActiveList) \<or> x \<in> set (A TimeoutList) \<or> x \<in> pending A"
proof
  assume "\<exists>l. x \<in> set (A l)"
  then obtain l where "x \<in> set (A l)" by blast
  then show "x \<in> set (A ActiveList) \<or> x \<in> set (A TimeoutList) \<or> x \<in> pending A" by (cases l) (auto simp: pending_def)
qed (auto simp: pending_def)

lemma take_mark_join:
  assumes inv: "wheel_inv s A timer" and idle: "A TimeoutList = []"
    and now: "et_start timer \<le> now" "uint now - uint (et_start timer) < 2 ^ 31 - 1"
  obtains s1 timer' L s2 s3 due A' where "takeAllTimeout s timer now TimeoutList = Inr (s1, timer')"
    "get_list s1 TimeoutList = Inr L" "mark_timeouts s1 (tl_head L) = Some (Inr s2)" "join s2 ActiveList TimeoutList = Inr s3"
    "wheel_inv s3 A' timer'" "core s3 = core s" "et_start timer' = now" "et_size timer' = et_size timer"
    "A' ActiveList = A ActiveList @ due" "A' TimeoutList = []" "pending A' = {x \<in> pending A. uint now < deadline s x}"
    "set due = {x \<in> pending A. deadline s x \<le> uint now}" "sorted (map (deadline s) due)"
proof -
  let ?B = "after_take A timer (due_slots timer now) TimeoutList"
  have res: "\<forall>i. TimeoutList \<noteq> WheelSlot i" by simp
  obtain s1 timer' due where t: "takeAllTimeout s timer now TimeoutList = Inr (s1, timer')" "wheel_inv s1 ?B timer'"
    "et_start timer' = now" "et_size timer' = et_size timer" "?B TimeoutList = due"
    "set due = {x \<in> pending A. deadline s x \<le> uint now}" "sorted (map (deadline s) due)" "payload s1 = payload s"
    using takeAllTimeout_ok [OF inv _ now, of TimeoutList] idle by auto
  have act: "?B ActiveList = A ActiveList" by (auto simp: after_take_def visited_def)
  have d: "dlist s1 TimeoutList due" using t(2,5) wf_dlist [of s1 ?B TimeoutList] by (auto simp: wheel_inv_def)
  then have L: "get_list s1 TimeoutList = Inr \<lparr>tl_head = hd_or due None, tl_tail = last_or None due\<rparr>"
    by (simp add: dlist_def get_list_def)
  let ?s2 = "s1\<lparr>items := marked (items s1) due\<rparr>"
  have mark: "mark_timeouts s1 (hd_or due None) = Some (Inr ?s2)"
    by (rule mark_timeouts_dseg) (use d in \<open>auto simp: dlist_def\<close>)
  have inv2: "wheel_inv ?s2 ?B timer'" by (rule wheel_inv_marked [OF t(2)])
  let ?A = "?B(ActiveList := ?B ActiveList @ ?B TimeoutList, TimeoutList := [])"
  from inv2 tl.move_law [of ?s2 ?B ActiveList TimeoutList] obtain s3 where s3: "join ?s2 ActiveList TimeoutList = Inr s3"
    "wf_store s3 ?A" "payload s3 = payload ?s2" "has_list s3 = has_list ?s2" by (auto simp: wheel_inv_def)
  have inv3: "wheel_inv s3 ?A timer'" by (rule wheel_inv_shrink [OF inv2 s3(2-4)]) simp
  have "core s3 = core s" using core_payload [OF s3(3)] core_marked core_payload [OF t(8)] by simp
  moreover have "pending ?A = pending ?B" by (simp add: pending_def)
  ultimately show thesis
    using that [OF t(1) L _ s3(1) inv3] mark t pending_after_take [OF inv now(1) res] act by simp
qed

lemma take_timeouts_ok:
  assumes ok: "thread_ok p t xs W A" and idle: "A TimeoutList = []" and env: "gEnv p t = Some env"
    and now: "et_start (ep_timer (ev_epoll env)) \<le> now" "uint now - uint (et_start (ep_timer (ev_epoll env))) < 2 ^ 31 - 1"
  obtains p' s' timer' A' due where "take_timeouts p t now = Inr p'" "thread_ok p' t xs W A'"
    "p' = p\<lparr>gEnv := (gEnv p)(t \<mapsto> env\<lparr>ev_epoll := (ev_epoll env)\<lparr>ep_store := s', ep_timer := timer'\<rparr>\<rparr>)\<rparr>"
    "core s' = core (ep_store (ev_epoll env))" "et_start timer' = now" "et_size timer' = et_size (ep_timer (ev_epoll env))"
    "A' ActiveList = A ActiveList @ due" "A' TimeoutList = []"
    "pending A' = {x \<in> pending A. uint now < deadline (ep_store (ev_epoll env)) x}"
    "set due = {x \<in> pending A. deadline (ep_store (ev_epoll env)) x \<le> uint now}"
    "sorted (map (deadline (ep_store (ev_epoll env))) due)"
proof -
  let ?s = "ep_store (ev_epoll env)" and ?timer = "ep_timer (ev_epoll env)"
  have s: "store_of p t = ?s" "timer_of p t = ?timer" using env by (simp_all add: store_of_def timer_of_def)
  have inv: "wheel_inv ?s A ?timer" using thread_ok_parts(3) [OF ok] unfolding s .
  obtain s1 timer' L s2 s3 due A' where *: "takeAllTimeout ?s ?timer now TimeoutList = Inr (s1, timer')"
    "get_list s1 TimeoutList = Inr L" "mark_timeouts s1 (tl_head L) = Some (Inr s2)" "join s2 ActiveList TimeoutList = Inr s3"
    "wheel_inv s3 A' timer'" "core s3 = core ?s" "et_start timer' = now" "et_size timer' = et_size ?timer"
    "A' ActiveList = A ActiveList @ due" "A' TimeoutList = []" "pending A' = {x \<in> pending A. uint now < deadline ?s x}"
    "set due = {x \<in> pending A. deadline ?s x \<le> uint now}" "sorted (map (deadline ?s) due)"
    by (rule take_mark_join [OF inv idle now])
  let ?env = "env\<lparr>ev_epoll := (ev_epoll env)\<lparr>ep_store := s3, ep_timer := timer'\<rparr>\<rparr>"
  define p' where "p' = p\<lparr>gEnv := (gEnv p)(t \<mapsto> ?env)\<rparr>"
  have run: "take_timeouts p t now = Inr p'"
    using env *(1-4) by (simp add: take_timeouts_def set_epoll_def set_env_def get_env_def p'_def)
  have "thread_ok p' t xs W A'"
  proof (rule thread_ok_evolve [OF ok])
    show "gEnv p' t = Some ?env" by (simp add: p'_def)
    show "env_stack ?env xs" using stack_ok_env [OF thread_ok_parts(1) [OF ok]] env by (simp add: env_stack_def)
    show "(\<exists>l. x \<in> set (A' l)) \<longleftrightarrow> (\<exists>l. x \<in> set (A l))" for x
      unfolding linked_iff using *(9-12) idle by auto
    show "core (store_of p' t) = core (store_of p t)" using *(6) s by (simp add: p'_def store_of_def)
  qed (use *(5) in \<open>simp_all add: p'_def store_of_def timer_of_def option.rel_refl\<close>)
  then show thesis by (rule that [OF run _ p'_def *(6-13)])
qed

section \<open>One turn collects what is ready\<close>

text \<open>The elements of a list in the order of their first occurrences.\<close>

definition first_occ :: "'a list \<Rightarrow> 'a list" where
  "first_occ xs = rev (remdups (rev xs))"

lemma first_occ_snoc: "first_occ (xs @ [x]) = (if x \<in> set xs then first_occ xs else first_occ xs @ [x])"
  by (simp add: first_occ_def)

lemma first_occ_set [simp]: "set (first_occ xs) = set xs" "distinct (first_occ xs)"
  by (simp_all add: first_occ_def)

lemma fold_to_active:
  assumes "A ActiveList = []"
  shows "fold to_active xs A ActiveList = first_occ xs"
    and "l \<noteq> ActiveList \<Longrightarrow> fold to_active xs A l = filter (\<lambda>y. y \<notin> set xs) (A l)"
proof (induction xs rule: rev_induct)
  case Nil
  case 1 then show ?case using assms by (simp add: first_occ_def)
  case 2 then show ?case by simp
next
  case (snoc x xs)
  case 1 then show ?case using snoc(1) by (simp add: to_active_def first_occ_snoc)
  case 2
  from snoc(2) [OF 2] snoc(1) show ?case
    by (auto simp: to_active_def removeAll_filter_not_eq 2 intro!: filter_cong)
qed

lemma pending_to_active: "A ActiveList = [] \<Longrightarrow> pending (fold to_active xs A) = pending A - set xs"
  by (auto simp: pending_def fold_to_active)

text \<open>
  The world at the start of a turn: epoll is ready to report the events \<open>tes\<close>, no more than there is
  room for, and when it has, the clock is not behind the wheel and not further ahead than an \<open>int\<close>
  can tell. \<open>awake\<close> is the time the turn sees.
\<close>

definition awake :: "'k kernel \<Rightarrow> 'k process \<Rightarrow> nat \<Rightarrow> u64" where
  "awake K p t = (let ep = ev_epoll (the (gEnv p t)) in
     clock_at K (snd (k_epoll_wait K (ep_fd ep) (ep_size ep) 1 (world p))))"

definition reports :: "'k kernel \<Rightarrow> 'k process \<Rightarrow> nat \<Rightarrow> (nat \<rightharpoonup> nat) \<Rightarrow> target list \<Rightarrow> bool" where
  "reports K p t W tes \<longleftrightarrow> (let ep = ev_epoll (the (gEnv p t)) in
     (case fst (k_epoll_wait K (ep_fd ep) (ep_size ep) 1 (world p)) of Inl _ \<Rightarrow> tes = [] | Inr evs \<Rightarrow> evs = map snd tes) \<and>
     int (length tes) \<le> ep_size ep \<and> (\<forall>x \<in> set tes. registered (polls p) W x))"

definition clock_near :: "epoll_timer_t \<Rightarrow> u64 \<Rightarrow> bool" where
  "clock_near timer now \<longleftrightarrow> et_start timer \<le> now \<and> uint now - uint (et_start timer) < 2 ^ 31 - 1"

text \<open>
  The thread during a turn: only poll contexts whose timer is active are marked, and there is a result
  array of the promised size. Between two turns nothing is active.
\<close>

definition turn_ok :: "'k process \<Rightarrow> nat \<Rightarrow> nat list \<Rightarrow> (nat \<rightharpoonup> nat) \<Rightarrow> (list_ref \<Rightarrow> nat list) \<Rightarrow> bool" where
  "turn_ok p t xs W A \<longleftrightarrow> thread_ok p t xs W A \<and> A TimeoutList = [] \<and>
     (\<forall>c pc P. W c = Some pc \<longrightarrow> polls p pc = Some P \<longrightarrow> pc_allEventDetatch P \<longrightarrow> pc_time P \<in> set (A ActiveList)) \<and>
     (\<exists>r. ep_result (ev_epoll (the (gEnv p t))) = Some r \<and> length (er_events r) = nat (ep_size (ev_epoll (the (gEnv p t)))))"

definition between :: "'k process \<Rightarrow> nat \<Rightarrow> nat \<Rightarrow> (nat \<rightharpoonup> nat) \<Rightarrow> (list_ref \<Rightarrow> nat list) \<Rightarrow> bool" where
  "between p t m W A \<longleftrightarrow> turn_ok p t [m] W A \<and> A ActiveList = []"

lemma memset_timeouts:
  assumes "wheel_inv s A timer" and "A TimeoutList = []"
  shows "set_list s TimeoutList (\<lambda>_. empty_list) = Inr s"
proof -
  have "lists s TimeoutList = Some empty_list"
    using assms wf_dlist [of s A TimeoutList] by (auto simp: wheel_inv_def dlist_def empty_list_def)
  then show ?thesis by (cases s) (auto simp: set_list_def get_list_def)
qed

lemma collect_events:
  assumes b: "between p t m W A" and rep: "reports K p t W tes" and env: "gEnv p t = Some env"
  obtains q env2 r where "collect K p t = (let (now, p) = GetTickMS K q in
      bindR (set_epoll p t (\<lambda>epoll. epoll\<lparr>ep_now := now\<rparr>)) (\<lambda>p. take_timeouts p t now))"
    "gEnv q t = Some env2" "thread_ok q t [m] W (fold to_active (map (time_at (polls p)) tes) A)"
    "fold to_active (map (time_at (polls p)) tes) A TimeoutList = []"
    "polls q = fold hit_at tes (polls p)" "payload (ep_store (ev_epoll env2)) = payload (ep_store (ev_epoll env))"
    "world q = snd (k_epoll_wait K (ep_fd (ev_epoll env)) (ep_size (ev_epoll env)) 1 (world p))"
    "ev_epoll env2 = (ev_epoll env)\<lparr>ep_result := Some r, ep_store := ep_store (ev_epoll env2)\<rparr>"
    "length (er_events r) = nat (ep_size (ev_epoll env))"
    "coroutines q = coroutines p" "tasks q = tasks p" "next_id q = next_id p" "running q = running p"
    "flags (polls q) W (fold to_active (map (time_at (polls p)) tes) A)"
proof -
  let ?ep = "ev_epoll env" and ?times = "map (time_at (polls p)) tes"
  let ?s = "ep_store ?ep" and ?timer = "ep_timer ?ep"
  have s: "store_of p t = ?s" "timer_of p t = ?timer" using env by (simp_all add: store_of_def timer_of_def)
  obtain r where ok: "thread_ok p t [m] W A" and idle: "A ActiveList = []" "A TimeoutList = []" and fl: "flags (polls p) W A"
    and r: "ep_result ?ep = Some r" "length (er_events r) = nat (ep_size ?ep)" using b env by (auto simp: between_def turn_ok_def flags_def)
  define w where "w = snd (k_epoll_wait K (ep_fd ?ep) (ep_size ?ep) 1 (world p))"
  define r' where "r' = r\<lparr>er_events := map snd tes @ drop (length tes) (er_events r)\<rparr>"
  have tes: "length tes \<le> length (er_events r)" and reg: "\<forall>x \<in> set tes. registered (polls p) W x"
    using rep r(2) env by (auto simp: reports_def Let_def)
  define env1 where "env1 = env\<lparr>ev_epoll := ?ep\<lparr>ep_result := Some r'\<rparr>\<rparr>"
  have same: "\<exists>e. p\<lparr>world := x\<rparr> = p\<lparr>world := x, c_errno := e\<rparr>" for x by (rule exI [of _ "c_errno p"]) (cases p, simp)
  have "\<exists>ret e. do_epoll_wait K t p (ep_fd ?ep) r (ep_size ?ep) 1 = Inr (ret, r', p\<lparr>world := w, c_errno := e\<rparr>) \<and> nat ret = length tes"
    using rep env tes
    by (auto simp: do_epoll_wait_def reports_def Let_def w_def r'_def split: sum.splits prod.splits intro: same)
  then obtain ret e where ret: "do_epoll_wait K t p (ep_fd ?ep) r (ep_size ?ep) 1 = Inr (ret, r', p\<lparr>world := w, c_errno := e\<rparr>)"
    "nat ret = length tes" by blast
  define p1 where "p1 = p\<lparr>world := w, c_errno := e, gEnv := (gEnv p)(t \<mapsto> env1)\<rparr>"
  have env1: "gEnv p1 t = Some env1" "ep_store (ev_epoll env1) = ?s" "ep_timer (ev_epoll env1) = ?timer" "polls p1 = polls p"
    by (simp_all add: p1_def env1_def)
  have ok1: "thread_ok p1 t [m] W A"
  proof (rule thread_ok_evolve [OF ok env1(1)])
    show "env_stack env1 [m]" using stack_ok_env [OF thread_ok_parts(1) [OF ok]] env by (simp add: env_stack_def env1_def)
    show "wheel_inv (store_of p1 t) A (timer_of p1 t)" using thread_ok_parts(3) [OF ok] s env1 by (simp add: store_of_def timer_of_def)
  qed (use s env1 in \<open>simp_all add: p1_def store_of_def option.rel_refl\<close>)
  have inv: "wheel_inv ?s A ?timer" using thread_ok_parts(3) [OF ok] unfolding s .
  have start: "bindR (set_epoll (p\<lparr>world := w, c_errno := e\<rparr>) t (\<lambda>epoll. epoll\<lparr>ep_result := Some r'\<rparr>)) (\<lambda>p.
      on_store p t (\<lambda>s. set_list s TimeoutList (\<lambda>_. empty_list))) = Inr p1"
    using env memset_timeouts [OF inv idle(2)]
    by (cases p) (simp add: set_epoll_def set_env_def get_env_def on_store_def get_store_def put_store_def p1_def env1_def)
  have res: "length tes \<le> length (er_events r')" "\<forall>i < length tes. er_events r' ! i = snd (tes ! i)"
    using tes by (auto simp: r'_def nth_append)
  have "flags (polls p1) W A" "\<forall>x \<in> set tes. registered (polls p1) W x" using fl reg env1(4) by simp_all
  from handle_events [OF ok1 this(1) idle(2) env1(1) this(2) res, of "length tes"] obtain s2 where
    ev: "foldR (handle_event t r') p1 [0..<length tes] = Inr (ev_state p1 t env1 (fold hit_at tes (polls p)) s2)"
      "thread_ok (ev_state p1 t env1 (fold hit_at tes (polls p)) s2) t [m] W (fold to_active ?times A)"
      "fold to_active ?times A TimeoutList = []" "payload s2 = payload ?s"
      "flags (fold hit_at tes (polls p)) W (fold to_active ?times A)" using env1(2,4) by (auto simp: Let_def)
  let ?q = "ev_state p1 t env1 (fold hit_at tes (polls p)) s2"
  have "collect K p t = (let (now, p) = GetTickMS K ?q in
      bindR (set_epoll p t (\<lambda>epoll. epoll\<lparr>ep_now := now\<rparr>)) (\<lambda>p. take_timeouts p t now))"
    using env r(1) ret start [unfolded bindR_eq_Inr] ev(1) by (auto simp: collect_def get_env_def)
  then show thesis
    by (rule that [where r = r', OF _ ev_state_simps(4) ev(2,3)])
      (use ev(4,5) r(2) tes in \<open>simp_all add: env1_def p1_def w_def r'_def ev_state_def\<close>)
qed

lemma collect_run:
  assumes b: "between p t m W A" and rep: "reports K p t W tes" and cl: "clock_near (timer_of p t) (awake K p t)"
    and env: "gEnv p t = Some env"
  obtains p' A' due where "collect K p t = Inr p'" "turn_ok p' t [m] W A'"
    "A' ActiveList = first_occ (map (time_at (polls p)) tes) @ due" "sorted (map (deadline (store_of p t)) due)"
    "set due = {x \<in> pending A. deadline (store_of p t) x \<le> uint (awake K p t)} - set (map (time_at (polls p)) tes)"
    "pending A' = {x \<in> pending A. uint (awake K p t) < deadline (store_of p t) x} - set (map (time_at (polls p)) tes)"
    "polls p' = fold hit_at tes (polls p)" "core (store_of p' t) = core (store_of p t)"
    "et_start (timer_of p' t) = awake K p t" "et_size (timer_of p' t) = et_size (timer_of p t)"
    "world p' = snd (k_gettimeofday K (snd (k_epoll_wait K (ep_fd (ev_epoll env)) (ep_size (ev_epoll env)) 1 (world p))))"
    "ep_size (ev_epoll (the (gEnv p' t))) = ep_size (ev_epoll env)" "ep_fd (ev_epoll (the (gEnv p' t))) = ep_fd (ev_epoll env)"
    "coroutines p' = coroutines p" "tasks p' = tasks p" "next_id p' = next_id p"
proof -
  let ?ep = "ev_epoll env" and ?now = "awake K p t" and ?times = "map (time_at (polls p)) tes"
  let ?A = "fold to_active ?times A"
  obtain q env2 r where *: "collect K p t = (let (now, p) = GetTickMS K q in
      bindR (set_epoll p t (\<lambda>epoll. epoll\<lparr>ep_now := now\<rparr>)) (\<lambda>p. take_timeouts p t now))"
    "gEnv q t = Some env2" "thread_ok q t [m] W ?A" "?A TimeoutList = []"
    "polls q = fold hit_at tes (polls p)" "payload (ep_store (ev_epoll env2)) = payload (ep_store ?ep)"
    "world q = snd (k_epoll_wait K (ep_fd ?ep) (ep_size ?ep) 1 (world p))"
    "ev_epoll env2 = ?ep\<lparr>ep_result := Some r, ep_store := ep_store (ev_epoll env2)\<rparr>"
    "length (er_events r) = nat (ep_size ?ep)"
    "coroutines q = coroutines p" "tasks q = tasks p" "next_id q = next_id p" "running q = running p" "flags (polls q) W ?A"
    by (rule collect_events [OF b rep env])
  define env3 where "env3 = env2\<lparr>ev_epoll := (ev_epoll env2)\<lparr>ep_now := ?now\<rparr>\<rparr>"
  define q3 where "q3 = q\<lparr>world := snd (k_gettimeofday K (world q)), gEnv := (gEnv q)(t \<mapsto> env3)\<rparr>"
  have now: "clock_at K (world q) = ?now" using env by (simp add: awake_def Let_def *(7))
  have run: "collect K p t = take_timeouts q3 t ?now"
    using *(1,2) now by (simp add: GetTickMS_def clock_at_def split_beta set_epoll_def set_env_def get_env_def q3_def env3_def)
  have e3: "gEnv q3 t = Some env3" by (simp add: q3_def)
  have ok3: "thread_ok q3 t [m] W ?A"
  proof (rule thread_ok_evolve [OF *(3) e3])
    show "env_stack env3 [m]" using stack_ok_env [OF thread_ok_parts(1) [OF *(3)]] *(2) by (simp add: env_stack_def env3_def)
    show "wheel_inv (store_of q3 t) ?A (timer_of q3 t)"
      using thread_ok_parts(3) [OF *(3)] *(2) by (simp add: store_of_def timer_of_def q3_def env3_def)
  qed (use *(2) in \<open>simp_all add: q3_def env3_def store_of_def option.rel_refl\<close>)
  have e2: "ep_timer (ev_epoll env2) = ep_timer ?ep" "ep_result (ev_epoll env2) = Some r" "ep_size (ev_epoll env2) = ep_size ?ep"
    "ep_fd (ev_epoll env2) = ep_fd ?ep" by (subst *(8), simp)+
  have ep3: "ep_timer (ev_epoll env3) = ep_timer ?ep" "ep_store (ev_epoll env3) = ep_store (ev_epoll env2)"
    by (simp_all add: env3_def e2)
  have dl: "deadline (ep_store (ev_epoll env3)) = deadline (ep_store ?ep)" using deadline_payload [OF *(6)] ep3(2) by simp
  have cl3: "et_start (ep_timer (ev_epoll env3)) \<le> ?now" "uint ?now - uint (et_start (ep_timer (ev_epoll env3))) < 2 ^ 31 - 1"
    using cl env ep3(1) by (simp_all add: clock_near_def timer_of_def)
  obtain p' s' timer' A' due where t: "take_timeouts q3 t ?now = Inr p'" "thread_ok p' t [m] W A'"
    "p' = q3\<lparr>gEnv := (gEnv q3)(t \<mapsto> env3\<lparr>ev_epoll := (ev_epoll env3)\<lparr>ep_store := s', ep_timer := timer'\<rparr>\<rparr>)\<rparr>"
    "core s' = core (ep_store (ev_epoll env3))" "et_start timer' = ?now" "et_size timer' = et_size (ep_timer (ev_epoll env3))"
    "A' ActiveList = ?A ActiveList @ due" "A' TimeoutList = []"
    "pending A' = {x \<in> pending ?A. uint ?now < deadline (ep_store (ev_epoll env3)) x}"
    "set due = {x \<in> pending ?A. deadline (ep_store (ev_epoll env3)) x \<le> uint ?now}"
    "sorted (map (deadline (ep_store (ev_epoll env3))) due)"
    by (rule take_timeouts_ok [OF ok3 *(4) e3 cl3])
  have idle: "A ActiveList = []" using b by (simp add: between_def)
  have core: "core s' = core (ep_store ?ep)" using t(4) core_payload [OF *(6)] ep3(2) by simp
  have sp: "store_of p t = ep_store ?ep" "timer_of p t = ep_timer ?ep" using env by (simp_all add: store_of_def timer_of_def)
  have p': "store_of p' t = s'" "timer_of p' t = timer'" "polls p' = polls q" "world p' = snd (k_gettimeofday K (world q))"
    "ep_result (ev_epoll (the (gEnv p' t))) = Some r" "ep_size (ev_epoll (the (gEnv p' t))) = ep_size ?ep"
    "ep_fd (ev_epoll (the (gEnv p' t))) = ep_fd ?ep" "coroutines p' = coroutines q" "tasks p' = tasks q" "next_id p' = next_id q"
    by (simp_all add: t(3) q3_def env3_def store_of_def timer_of_def e2)
  have "set due = {x \<in> pending A. deadline (ep_store ?ep) x \<le> uint ?now} - set ?times"
    "pending A' = {x \<in> pending A. uint ?now < deadline (ep_store ?ep) x} - set ?times"
    unfolding t(9,10) dl pending_to_active [of A, OF idle] by auto
  moreover have act: "A' ActiveList = first_occ ?times @ due" using t(7) fold_to_active(1) [of A, OF idle] by simp
  moreover have "turn_ok p' t [m] W A'"
    using t(2,7,8) *(9,14) p' by (auto simp: turn_ok_def flags_def)
  moreover have "sorted (map (deadline (ep_store ?ep)) due)" using t(11) dl by simp
  ultimately show thesis
    by (intro that [of p' A' due]) (simp_all only: run t(1,5,6) p' core *(5,7,10-12) ep3 sp)
qed

section \<open>Resuming what is ready\<close>

lemma popped_ok:
  assumes ok: "thread_ok p t xs W A" and hd: "A ActiveList = x # ys" and env: "gEnv p t = Some env"
  obtains s' where "popHead (ep_store (ev_epoll env)) ActiveList = Inr s'" "wheel_inv s' (A(ActiveList := ys)) (ep_timer (ev_epoll env))"
    "payload s' = payload (ep_store (ev_epoll env))"
proof -
  have inv: "wheel_inv (ep_store (ev_epoll env)) A (ep_timer (ev_epoll env))"
    using thread_ok_parts(3) [OF ok] env by (simp add: store_of_def timer_of_def)
  then obtain s' where s': "popHead (ep_store (ev_epoll env)) ActiveList = Inr s'" "wf_store s' (A(ActiveList := ys))"
    "payload s' = payload (ep_store (ev_epoll env))" "has_list s' = has_list (ep_store (ev_epoll env))"
    using tl.pop_law [of "ep_store (ev_epoll env)" A ActiveList] hd by (auto simp: wheel_inv_def)
  moreover have "wheel_inv s' (A(ActiveList := ys)) (ep_timer (ev_epoll env))" by (rule wheel_inv_shrink [OF inv s'(2-4)]) simp
  ultimately show thesis using that by blast
qed

text \<open>What the loop leaves alone when it resumes a coroutine.\<close>

definition loop_frame :: "nat \<Rightarrow> 'k process \<Rightarrow> 'k process \<Rightarrow> bool" where
  "loop_frame t p p' \<longleftrightarrow> world p' = world p \<and> heap p' = heap p \<and> tasks p' = tasks p \<and> polls p' = polls p \<and> next_id p' = next_id p \<and>
     timer_of p' t = timer_of p t \<and> payload (store_of p' t) = payload (store_of p t) \<and>
     (\<forall>c. map_option co_static (coroutines p' c) = map_option co_static (coroutines p c)) \<and>
     (let ep = ev_epoll (the (gEnv p t)); ep' = ev_epoll (the (gEnv p' t))
      in ep_result ep' = ep_result ep \<and> ep_size ep' = ep_size ep \<and> ep_fd ep' = ep_fd ep \<and> ep_now ep' = ep_now ep)"

text \<open>The waiting coroutine whose timer was popped is no longer waiting; the others still are.\<close>

lemma thread_ok_popped:
  assumes ok: "thread_ok p t xs W A" and hd: "A ActiveList = x # ys" and c: "W c = Some pc" "polls p pc = Some P" "pc_time P = x"
    and p1: "stack_ok p1 t (xs @ [c])" "polls p1 = polls p" "next_id p1 = next_id p" "\<And>d. ready p t d \<Longrightarrow> ready p1 t d"
      "heap p1 = heap p"
    and s': "wheel_inv (store_of p1 t) (A(ActiveList := ys)) (timer_of p1 t)" "payload (store_of p1 t) = payload (store_of p t)"
  shows "thread_ok p1 t (xs @ [c]) (W(c := None)) (A(ActiveList := ys))"
    and "poll_live (store_of p1 t) pc c P (length (pc_fds P))"
proof -
  let ?A = "A(ActiveList := ys)"
  have wf: "wf_store (store_of p t) A" and wf': "wf_store (store_of p1 t) ?A"
    using thread_ok_parts(4) [OF ok] s'(1) by (simp_all add: wheel_inv_def)
  have sub: "set (?A l) \<subseteq> set (A l)" for l using hd by auto
  have live: "poll_live (store_of p1 t) pc' c' P' (length (pc_fds P'))" if w: "W c' = Some pc'" "polls p pc' = Some P'" for c' pc' P'
  proof -
    obtain Q where "polls p pc' = Some Q" "poll_live (store_of p t) pc' c' Q (length (pc_fds Q))" by (rule thread_ok_waiting [OF ok w(1)])
    with w(2) have l: "poll_live (store_of p t) pc' c' P' (length (pc_fds P'))" by simp
    then show ?thesis
      by (rule poll_live_payload [OF _ s'(2) wf']) (use sub item_unlinked [OF ok w] in blast)
  qed
  then show "poll_live (store_of p1 t) pc c P (length (pc_fds P))" using c by blast
  have fresh: "poll_fresh p1 (store_of p1 t)" unfolding poll_fresh_def
  proof (intro allI impI conjI [of _ "heap p1 = live_blocks (polls p1)"])
    show "heap p1 = live_blocks (polls p1)" using thread_ok_parts(2) [OF ok] p1(2,5) by (simp add: poll_fresh_def)
    fix i assume "next_id p1 \<le> i"
    with thread_ok_parts(2) [OF ok] p1(3) have "polls p i = None" "items (store_of p t) i = None" by (auto simp: poll_fresh_def)
    with fun_cong [OF s'(2), of i] p1(2) show "polls p1 i = None \<and> items (store_of p1 t) i = None" by (simp add: payload_def)
  qed
  have out: "x \<notin> set (?A l)" for l
    using wf_distinct [OF wf, of ActiveList] wf_disjoint [OF wf, of x ActiveList l] hd by (cases "l = ActiveList") auto
  have still: "c' \<notin> set (xs @ [c]) \<and> ready p1 t c' \<and> parked (polls p1) (store_of p1 t) ?A c' pc'"
    if w: "W c' = Some pc'" "c' \<noteq> c" for c' pc'
  proof -
    obtain Q l where Q: "polls p pc' = Some Q" "poll_live (store_of p t) pc' c' Q (length (pc_fds Q))" "pc_time Q \<in> set (A l)"
      "c' \<notin> set xs" "ready p t c'" using thread_ok_waiting [OF ok w(1)] by metis
    obtain P0 where "polls p pc = Some P0" "poll_live (store_of p t) pc c P0 (length (pc_fds P0))" by (rule thread_ok_waiting [OF ok c(1)])
    with c have lc: "poll_live (store_of p t) pc c P (length (pc_fds P))" by simp
    have "pc_time Q \<noteq> x" using poll_live_inj [OF lc Q(2), of x] c(3) w(2) by auto
    with Q(3) hd have "pc_time Q \<in> set (?A l)" by auto
    then have "\<exists>l. pc_time Q \<in> set (?A l)" by blast
    with live [OF w(1) Q(1)] Q(1,4,5) w(2) p1(2,4) show ?thesis unfolding parked_def by (simp del: fun_upd_apply)
  qed
  have "\<exists>c' pc' P'. (W(c := None)) c' = Some pc' \<and> polls p1 pc' = Some P' \<and> pc_time P' = y" if y: "y \<in> set (?A l)" for y l
  proof -
    from y sub have "y \<in> set (A l)" by blast
    then obtain c' pc' P' where w: "W c' = Some pc'" "polls p pc' = Some P'" "pc_time P' = y" by (rule thread_ok_linked [OF ok])
    moreover have "c' \<noteq> c" using w c out y by auto
    ultimately show ?thesis using p1(2) by auto
  qed
  with p1(1) fresh s'(1) still show "thread_ok p1 t (xs @ [c]) (W(c := None)) ?A" by (simp add: thread_ok_def)
qed

lemma process_head_resume:
  assumes ok: "turn_ok p t [m] W A" and hd: "A ActiveList = x # ys"
  obtains c pc P p1 where "W c = Some pc" "polls p1 pc = Some P" "pc_time P = x"
    "process_head run t p x = bindR (run x p1) (\<lambda>p. coroutine_swap_back p t)"
    "turn_ok p1 t [m, c] (W(c := None)) (A(ActiveList := ys))" "poll_live (store_of p1 t) pc c P (length (pc_fds P))"
    "loop_frame t p p1"
proof -
  have tok: "thread_ok p t [m] W A" using ok by (simp add: turn_ok_def)
  note st = thread_ok_parts(1) [OF tok]
  from stack_ok_env [OF st] obtain env where env: "gEnv p t = Some env" "env_stack env [m]" by blast
  let ?s = "ep_store (ev_epoll env)"
  have x: "x \<in> set (A ActiveList)" using hd by simp
  obtain c pc P where c: "W c = Some pc" "polls p pc = Some P" "pc_time P = x"
    "poll_live (store_of p t) pc c P (length (pc_fds P))" "c \<notin> set [m]" "ready p t c" by (rule thread_ok_linked [OF tok x])
  obtain s' where s': "popHead ?s ActiveList = Inr s'" "wheel_inv s' (A(ActiveList := ys)) (ep_timer (ev_epoll env))"
    "payload s' = payload ?s" by (rule popped_ok [OF tok hd env(1)])
  define p0 where "p0 = p\<lparr>gEnv := (gEnv p)(t \<mapsto> env\<lparr>ev_epoll := (ev_epoll env)\<lparr>ep_store := s'\<rparr>\<rparr>)\<rparr>"
  have g0: "gEnv p0 t = Some (env\<lparr>ev_epoll := (ev_epoll env)\<lparr>ep_store := s'\<rparr>\<rparr>)" by (simp add: p0_def)
  have st0: "stack_ok p0 t [m]"
    by (rule stack_ok_cong [OF st g0]) (use env(2) in \<open>auto simp: p0_def env_stack_def co_of_def saved_def\<close>)
  have r0: "ready p0 t d = ready p t d" for d by (simp add: ready_def p0_def)
  have len: "length [m] < kMaxCallStack" by (simp add: kMaxCallStack_def)
  have c0: "ready p0 t c" using c(6) r0 by simp
  define p1 where "p1 = resumed p0 t [m] c"
  note res = coroutine_resume_resumed [OF st0 c(5) c0 len, folded p1_def]
  have p1: "store_of p1 t = s'" "timer_of p1 t = ep_timer (ev_epoll env)" "polls p1 = polls p"
    "next_id p1 = next_id p" "heap p1 = heap p" by (simp_all add: p1_def resumed_def p0_def store_of_def timer_of_def push_env_def)
  have sp: "store_of p t = ?s" "timer_of p t = ep_timer (ev_epoll env)" using env(1) by (simp_all add: store_of_def timer_of_def)
  have tok1: "thread_ok p1 t ([m] @ [c]) (W(c := None)) (A(ActiveList := ys))" "poll_live (store_of p1 t) pc c P (length (pc_fds P))"
    by (rule thread_ok_popped [OF tok hd c(1-3) res(2)];
        use p1 s'(2,3) sp resumed_frame(2) [OF st0 c0 c(5), folded p1_def] r0 in simp)+
  have ep1: "ev_epoll (the (gEnv p1 t)) = (ev_epoll env)\<lparr>ep_store := s'\<rparr>" by (simp add: p1_def resumed_def p0_def push_env_def)
  from c(6) stack_ok_last [OF st] obtain co cm where co: "coroutines p c = Some co" "coroutines p m = Some cm" by (auto simp: ready_def)
  have lf: "loop_frame t p p1"
    using p1 sp s'(3) ep1 env(1) co by (auto simp: loop_frame_def Let_def p1_def resumed_def p0_def)
  have "pc_time Q \<in> set ys" if w: "(W(c := None)) d = Some q" "polls p1 q = Some Q" "pc_allEventDetatch Q" for d q Q
  proof -
    obtain l where "pc_time Q \<in> set ((A(ActiveList := ys)) l)" using thread_ok_waiting [OF tok1(1) w(1)] w(2) by auto
    moreover have "pc_time Q \<in> set (A ActiveList)" using ok w p1(3) by (auto simp: turn_ok_def split: if_splits)
    ultimately show ?thesis using wf_disjoint [OF thread_ok_parts(4) [OF tok], of "pc_time Q" ActiveList l] by (auto split: if_splits)
  qed
  then have tok2: "turn_ok p1 t [m, c] (W(c := None)) (A(ActiveList := ys))"
    using ok tok1(1) ep1 env(1) by (auto simp: turn_ok_def)
  obtain it where it: "items s' x = Some it" "ti_process it = Some Process_poll_event" "ti_coroutine it = Some c"
    using tok1(2) c(3) p1(1) by (auto simp: poll_live_def)
  have "process_head run t p x = bindR (run x p1) (\<lambda>p. coroutine_swap_back p t)"
    using env(1) s'(1) it res(1) g0
    by (simp add: process_head_def on_store_def get_store_def put_store_def set_env_def get_env_def get_item_def
        process_poll_event_def flip: p0_def)
  with c p1(3) tok1(2) tok2 lf show thesis by (intro that) simp_all
qed

text \<open>
  What the loop relies on while a coroutine runs. The coroutine \<open>c\<close> was resumed from the wait in
  \<open>pc\<close>, and its timer is in no list. It gives the processor back in a well-formed thread. It has put
  nothing into the active list, and the coroutines that wait still wait, in the same contexts and with
  the same deadlines. \<open>I\<close> is what program and kernel keep between themselves.
\<close>

definition kept_waiting ::
  "nat \<Rightarrow> 'k process \<Rightarrow> (nat \<rightharpoonup> nat) \<Rightarrow> (list_ref \<Rightarrow> nat list) \<Rightarrow> 'k process \<Rightarrow> (nat \<rightharpoonup> nat) \<Rightarrow> (list_ref \<Rightarrow> nat list) \<Rightarrow> bool" where
  "kept_waiting t p W A p' W' A' \<longleftrightarrow> (\<forall>c pc. W c = Some pc \<longrightarrow> W' c = Some pc \<and> polls p' pc = polls p pc) \<and>
     (\<forall>x \<in> pending A. x \<in> pending A' \<and> deadline (store_of p' t) x = deadline (store_of p t) x)"

definition cooperative ::
  "(nat \<Rightarrow> 'k process \<Rightarrow> 'k process c_result) \<Rightarrow> nat \<Rightarrow> nat \<Rightarrow> ('k process \<Rightarrow> bool) \<Rightarrow> bool" where
  "cooperative run t m I \<longleftrightarrow> (\<forall>p c pc P W A. turn_ok p t [m, c] W A \<longrightarrow> I p \<longrightarrow> polls p pc = Some P \<longrightarrow>
     poll_live (store_of p t) pc c P (length (pc_fds P)) \<longrightarrow> (\<forall>l. pc_time P \<notin> set (A l)) \<longrightarrow>
     (\<exists>p' W' A'. run (pc_time P) p = Inr p' \<and> turn_ok p' t [m] W' A' \<and> I p' \<and> A' ActiveList = A ActiveList \<and>
        kept_waiting t p W A p' W' A'))"

definition framed :: "nat \<Rightarrow> ('k process \<Rightarrow> bool) \<Rightarrow> bool" where
  "framed t I \<longleftrightarrow> (\<forall>p p'. loop_frame t p p' \<longrightarrow> I p \<longrightarrow> I p')"

lemma active_head_list:
  assumes "turn_ok p t xs W A"
  shows "active_head p t = Inr (hd_or (A ActiveList) None)"
proof -
  have tok: "thread_ok p t xs W A" using assms by (simp add: turn_ok_def)
  obtain env where env: "gEnv p t = Some env" using stack_ok_env [OF thread_ok_parts(1) [OF tok]] by blast
  have "wheel_inv (store_of p t) A (timer_of p t)" by (rule thread_ok_parts(3) [OF tok])
  then have "dlist (ep_store (ev_epoll env)) ActiveList (A ActiveList)"
    using wf_dlist [of "store_of p t" A ActiveList] env by (simp add: wheel_inv_def store_of_def)
  then show ?thesis using env by (simp add: active_head_def get_store_def get_env_def get_list_def dlist_def)
qed

lemma process_head_ok:
  assumes ok: "turn_ok p t [m] W A" and hd: "A ActiveList = x # ys" and I: "I p" and co: "cooperative run t m I" "framed t I"
  obtains c pc P p' W' A' where "W c = Some pc" "polls p pc = Some P" "pc_time P = x"
    "process_head run t p x = Inr p'" "turn_ok p' t [m] W' A'" "I p'" "A' ActiveList = ys"
    "kept_waiting t p (W(c := None)) (A(ActiveList := ys)) p' W' A'"
proof -
  let ?A = "A(ActiveList := ys)"
  obtain c pc P p1 where r: "W c = Some pc" "polls p1 pc = Some P" "pc_time P = x"
    "process_head run t p x = bindR (run x p1) (\<lambda>p. coroutine_swap_back p t)"
    "turn_ok p1 t [m, c] (W(c := None)) ?A" "poll_live (store_of p1 t) pc c P (length (pc_fds P))"
    "loop_frame t p p1" by (rule process_head_resume [OF ok hd])
  have wf: "wf_store (store_of p t) A" using ok thread_ok_parts(4) by (auto simp: turn_ok_def)
  have "pc_time P \<notin> set (?A l)" for l
    using wf_distinct [OF wf, of ActiveList] wf_disjoint [OF wf, of x ActiveList l] hd r(3) by (cases "l = ActiveList") auto
  moreover have "I p1" using co(2) r(7) I by (auto simp: framed_def)
  ultimately obtain p' W' A' where p': "run x p1 = Inr p'" "turn_ok p' t [m] W' A'" "I p'" "A' ActiveList = ?A ActiveList"
    "kept_waiting t p1 (W(c := None)) ?A p' W' A'"
    using co(1) [unfolded cooperative_def, rule_format, OF r(5) _ r(2) r(6)] r(3) by blast
  have "coroutine_swap_back p' t = Inr p'" using p'(2) swap_back_id [of p' t "[m]"] by (simp add: turn_ok_def thread_ok_def)
  moreover have "kept_waiting t p (W(c := None)) ?A p' W' A'"
    using p'(5) r(7) deadline_payload [of "store_of p1 t" "store_of p t"] by (simp add: kept_waiting_def loop_frame_def)
  moreover have "polls p pc = Some P" using r(2,7) by (simp add: loop_frame_def)
  ultimately show thesis using that r(1,3,4) p' by simp
qed

text \<open>The waiting coroutines whose timers are not in \<open>xs\<close>.\<close>

definition unserved :: "(nat \<rightharpoonup> poll_context_t) \<Rightarrow> (nat \<rightharpoonup> nat) \<Rightarrow> nat list \<Rightarrow> nat \<rightharpoonup> nat" where
  "unserved PL W xs = (\<lambda>c. case W c of None \<Rightarrow> None | Some pc \<Rightarrow> if pc_time (the (PL pc)) \<in> set xs then None else Some pc)"

lemma unserved_Some: "unserved PL W xs c = Some pc \<longleftrightarrow> W c = Some pc \<and> pc_time (the (PL pc)) \<notin> set xs"
  by (auto simp: unserved_def split: option.splits)

lemma pending_active [simp]: "pending (A(ActiveList := ys)) = pending A"
  by (simp add: pending_def)

lemma kept_waiting_step:
  assumes "W c = Some pc" and "polls p pc = Some P" and "pc_time P = x" and "kept_waiting t p (W(c := None)) (A(ActiveList := ys)) p1 W1 A1"
    and "kept_waiting t p1 (unserved (polls p1) W1 ys) A1 p' W' A'"
  shows "kept_waiting t p (unserved (polls p) W (x # ys)) A p' W' A'"
proof -
  have "W' d = Some q \<and> polls p' q = polls p q" if d: "unserved (polls p) W (x # ys) d = Some q" for d q
  proof -
    have "(W(c := None)) d = Some q" using d assms(1-3) by (auto simp: unserved_Some)
    then have k: "W1 d = Some q" "polls p1 q = polls p q" using assms(4) unfolding kept_waiting_def by blast+
    then have "unserved (polls p1) W1 ys d = Some q" using d by (simp add: unserved_Some)
    then show ?thesis using assms(5) k(2) unfolding kept_waiting_def by metis
  qed
  with assms(4,5) show ?thesis by (simp add: kept_waiting_def)
qed

lemma drain_list:
  assumes co: "cooperative run t m I" "framed t I"
  shows "turn_ok p t [m] W A \<Longrightarrow> I p \<Longrightarrow> A ActiveList = xs \<Longrightarrow>
    \<exists>p' W' A'. drain run t p = Some (Inr p') \<and> foldR (process_head run t) p xs = Inr p' \<and> between p' t m W' A' \<and> I p' \<and>
      kept_waiting t p (unserved (polls p) W xs) A p' W' A'"
proof (induction xs arbitrary: p W A)
  case Nil
  then have "between p t m W A" "drain run t p = Some (Inr p)" "A(ActiveList := []) = A"
    using active_head_list [OF Nil.prems(1)] by (auto simp: between_def drain.simps)
  with Nil.prems(2) show ?case by (intro exI [of _ p] exI [of _ W] exI [of _ A]) (simp add: kept_waiting_def unserved_Some)
next
  case (Cons x ys)
  obtain c pc P p1 W1 A1 where s: "W c = Some pc" "polls p pc = Some P" "pc_time P = x"
    "process_head run t p x = Inr p1" "turn_ok p1 t [m] W1 A1" "I p1" "A1 ActiveList = ys"
    "kept_waiting t p (W(c := None)) (A(ActiveList := ys)) p1 W1 A1"
    by (rule process_head_ok [OF Cons.prems(1,3,2) co])
  from Cons.IH [OF s(5-7)] obtain p' W' A' where ih: "drain run t p1 = Some (Inr p')"
    "foldR (process_head run t) p1 ys = Inr p'" "between p' t m W' A'" "I p'"
    "kept_waiting t p1 (unserved (polls p1) W1 ys) A1 p' W' A'" by blast
  have "drain run t p = Some (Inr p')"
    using active_head_list [OF Cons.prems(1)] Cons.prems(3) s(4) ih(1) by (subst drain.simps) simp
  moreover have "kept_waiting t p (unserved (polls p) W (x # ys)) A p' W' A'"
    by (rule kept_waiting_step [OF s(1-3,8) ih(5)])
  ultimately show ?case using s(4) ih(2-4) by (intro exI [of _ p'] exI [of _ W'] exI [of _ A']) simp
qed

section \<open>Turn after turn\<close>

lemma hits_other: "\<forall>x \<in> set tes. fst (fst x) \<noteq> pc \<Longrightarrow> fold hit_at tes PL pc = PL pc"
  by (induction tes arbitrary: PL) (auto simp: hit_at_def split: prod.splits)

text \<open>A whole turn: what was collected is resumed, item by item, and what was not still waits.\<close>

lemma turn_serves:
  assumes b: "between p t m W A" and rep: "reports K p t W tes" and cl: "clock_near (timer_of p t) (awake K p t)"
    and I: "\<And>p'. collect K p t = Inr p' \<Longrightarrow> I p'" and co: "cooperative run t m I" "framed t I"
  obtains p1 xs p' W' A' where "collect K p t = Inr p1" "eventloop_turn K run t p = Inr p'"
    "foldR (process_head run t) p1 xs = Inr p'" "distinct xs"
    "set xs = set (map (time_at (polls p)) tes) \<union> {x \<in> pending A. deadline (store_of p t) x \<le> uint (awake K p t)}"
    "between p' t m W' A'" "I p'" "kept_waiting t p (unserved (polls p) W xs) (\<lambda>l. filter (\<lambda>x. x \<notin> set xs) (A l)) p' W' A'"
proof -
  have tok: "thread_ok p t [m] W A" using b by (simp add: between_def turn_ok_def)
  obtain env where env: "gEnv p t = Some env" using stack_ok_env [OF thread_ok_parts(1) [OF tok]] by blast
  obtain p1 A1 due where c: "collect K p t = Inr p1" "turn_ok p1 t [m] W A1"
    "A1 ActiveList = first_occ (map (time_at (polls p)) tes) @ due"
    "set due = {x \<in> pending A. deadline (store_of p t) x \<le> uint (awake K p t)} - set (map (time_at (polls p)) tes)"
    "pending A1 = {x \<in> pending A. uint (awake K p t) < deadline (store_of p t) x} - set (map (time_at (polls p)) tes)"
    "polls p1 = fold hit_at tes (polls p)" "core (store_of p1 t) = core (store_of p t)"
    by (rule collect_run [OF b rep cl env])
  let ?xs = "A1 ActiveList"
  obtain p' W' A' where d: "drain run t p1 = Some (Inr p')" "foldR (process_head run t) p1 ?xs = Inr p'" "between p' t m W' A'"
    "I p'" "kept_waiting t p1 (unserved (polls p1) W ?xs) A1 p' W' A'"
    using drain_list [OF co c(2) I [OF c(1)] refl] by blast
  have set: "set ?xs = set (map (time_at (polls p)) tes) \<union> {x \<in> pending A. deadline (store_of p t) x \<le> uint (awake K p t)}"
    unfolding c(3) set_append first_occ_set c(4) by blast
  have "wf_store (store_of p1 t) A1" using c(2) thread_ok_parts(4) by (auto simp: turn_ok_def)
  then have "distinct ?xs" by (rule wf_distinct)
  moreover have "W' a = Some pc \<and> polls p' pc = polls p pc" if u: "unserved (polls p) W ?xs a = Some pc" for a pc
  proof -
    have "\<forall>x \<in> set tes. fst (fst x) \<noteq> pc" using u set by (force simp: unserved_Some time_at_def split: prod.splits)
    then have same: "polls p1 pc = polls p pc" unfolding c(6) by (rule hits_other)
    then have "unserved (polls p1) W ?xs a = Some pc" using u by (simp add: unserved_Some)
    with d(5) same show ?thesis unfolding kept_waiting_def by metis
  qed
  moreover have "x \<in> pending A' \<and> deadline (store_of p' t) x = deadline (store_of p t) x"
    if "x \<in> pending (\<lambda>l. filter (\<lambda>x. x \<notin> set ?xs) (A l))" for x
  proof -
    have "x \<in> pending A" "x \<notin> set ?xs" using that by (auto simp: pending_def)
    then have "x \<in> pending A1" unfolding c(5) set by auto
    with d(5) deadline_core [OF c(7)] show ?thesis by (simp add: kept_waiting_def)
  qed
  ultimately have "kept_waiting t p (unserved (polls p) W ?xs) (\<lambda>l. filter (\<lambda>x. x \<notin> set ?xs) (A l)) p' W' A'" "distinct ?xs"
    by (simp_all add: kept_waiting_def)
  moreover have "eventloop_turn K run t p = Inr p'" using c(1) d(1) by (simp add: eventloop_turn_def)
  ultimately show thesis using that [OF c(1) _ d(2) _ set d(3,4)] by blast
qed

text \<open>
  A program on the loop: the kernel reports what was registered, its clock keeps up with the wheel,
  coroutines cooperate, and all this is kept from turn to turn.
\<close>

locale event_program =
  fixes K :: "'k kernel" and run :: "nat \<Rightarrow> 'k process \<Rightarrow> 'k process c_result" and t m :: nat
    and I :: "'k process \<Rightarrow> bool"
  assumes kernel_law: "between p t m W A \<Longrightarrow> I p \<Longrightarrow> \<exists>tes. reports K p t W tes"
    and clock_law: "between p t m W A \<Longrightarrow> I p \<Longrightarrow> clock_near (timer_of p t) (awake K p t)"
    and collect_law: "between p t m W A \<Longrightarrow> I p \<Longrightarrow> collect K p t = Inr p' \<Longrightarrow> I p'"
    and run_law: "cooperative run t m I"
    and frame_law: "framed t I"
begin

lemma turn_law:
  assumes "between p t m W A" and "I p"
  shows "\<exists>p' W' A'. eventloop_turn K run t p = Inr p' \<and> between p' t m W' A' \<and> I p'"
proof -
  obtain tes where tes: "reports K p t W tes" using kernel_law [OF assms] by blast
  obtain p1 xs p' W' A' where "eventloop_turn K run t p = Inr p'" "between p' t m W' A'" "I p'"
    by (rule turn_serves [OF assms(1) tes clock_law [OF assms] collect_law [OF assms] run_law frame_law]) blast
  then show ?thesis by blast
qed

lemma turns_law:
  "between p t m W A \<Longrightarrow> I p \<Longrightarrow>
   \<exists>p' W' A'. foldR (\<lambda>p _. eventloop_turn K run t p) p (ns :: nat list) = Inr p' \<and> between p' t m W' A' \<and> I p'"
proof (induction ns arbitrary: p W A)
  case Nil
  then show ?case by auto
next
  case (Cons n ns)
  from turn_law [OF Cons.prems] obtain p1 W1 A1 where "eventloop_turn K run t p = Inr p1" "between p1 t m W1 A1" "I p1" by blast
  with Cons.IH [of p1 W1 A1] show ?case by simp
qed

end

section \<open>Properties\<close>

text \<open>
  C6. A turn of the loop finds exactly the coroutines that are ready. After its first half the active list
  holds the timers of the waiting coroutines that epoll reported an event for, in the order of their first
  events, followed by the other timers that are due, in the order of their deadlines; each is there once.
  Every other coroutine still waits, none has been dropped, and each poll context has the events of its
  descriptors with the number of events that arrived. This holds for any kernel whose epoll reports what was
  registered and whose clock is not behind the wheel.
\<close>

theorem collect_exact:
  assumes "between p t m W A" and "reports K p t W tes" and "clock_near (timer_of p t) (awake K p t)"
  shows "\<exists>p' A' due. collect K p t = Inr p' \<and> turn_ok p' t [m] W A' \<and>
    A' ActiveList = first_occ (map (time_at (polls p)) tes) @ due \<and> distinct (A' ActiveList) \<and>
    sorted (map (deadline (store_of p t)) due) \<and>
    set due = {x \<in> pending A. deadline (store_of p t) x \<le> uint (awake K p t)} - set (map (time_at (polls p)) tes) \<and>
    pending A' = pending A - set (A' ActiveList) \<and> polls p' = fold hit_at tes (polls p)"
proof -
  have tok: "thread_ok p t [m] W A" using assms(1) by (simp add: between_def turn_ok_def)
  obtain env where env: "gEnv p t = Some env" using stack_ok_env [OF thread_ok_parts(1) [OF tok]] by blast
  obtain p' A' due where *: "collect K p t = Inr p'" "turn_ok p' t [m] W A'"
    "A' ActiveList = first_occ (map (time_at (polls p)) tes) @ due" "sorted (map (deadline (store_of p t)) due)"
    "set due = {x \<in> pending A. deadline (store_of p t) x \<le> uint (awake K p t)} - set (map (time_at (polls p)) tes)"
    "pending A' = {x \<in> pending A. uint (awake K p t) < deadline (store_of p t) x} - set (map (time_at (polls p)) tes)"
    "polls p' = fold hit_at tes (polls p)"
    by (rule collect_run [OF assms env])
  have "thread_ok p' t [m] W A'" using *(2) by (simp add: turn_ok_def)
  then have "distinct (A' ActiveList)" using wf_distinct [OF thread_ok_parts(4)] by blast
  moreover have "pending A' = pending A - set (A' ActiveList)" unfolding *(6,3) set_append *(5) by auto
  ultimately show ?thesis using * by blast
qed

text \<open>
  Two coroutines of the thread of \<open>pool_process\<close> wait: coroutine 2 for descriptor 9 until time 5005,
  coroutine 1 until time 5000, which is what the clock shows. epoll reports that descriptor 9 is readable.
\<close>

definition idle_item :: "nat \<Rightarrow> nat \<Rightarrow> u64 \<Rightarrow> timer_item_t" where
  "idle_item slot c time = zero_item\<lparr>ti_process := Some Process_poll_event, ti_coroutine := Some c, ti_expire := time,
     ti_parent := Some (WheelSlot slot)\<rparr>"

definition idle_store :: timer_store where
  "idle_store = \<lparr>items = [7 \<mapsto> idle_item 5 2 5005, 10 \<mapsto> idle_item 0 1 5000,
       8 \<mapsto> zero_item\<lparr>ti_prepare := Some Prepare_poll_event, ti_coroutine := Some 2, ti_arg := Some (6, 0)\<rparr>],
     lists = (lists wait_store)(WheelSlot 5 \<mapsto> \<lparr>tl_head = Some 7, tl_tail = Some 7\<rparr>,
       WheelSlot 0 \<mapsto> \<lparr>tl_head = Some 10, tl_tail = Some 10\<rparr>)\<rparr>"

definition idle_lists :: "list_ref \<Rightarrow> nat list" where
  "idle_lists = (\<lambda>_. [])(WheelSlot 5 := [7], WheelSlot 0 := [10])"

definition idle_polls :: "nat \<rightharpoonup> poll_context_t" where
  "idle_polls = [6 \<mapsto> back_context\<lparr>pc_fds := [\<lparr>pf_fd = 9, pf_events = POLLIN, pf_revents = 0\<rparr>],
       pc_allEventDetatch := False, pc_raise_cnt := 0\<rparr>,
     9 \<mapsto> \<lparr>pc_fds = [], pc_nfds = 0, pc_time = 10, pc_items = [], pc_items_malloc = False, pc_allEventDetatch = False, pc_raise_cnt = 0\<rparr>]"

definition idle_process :: "unit process" where
  "idle_process = pool_process\<lparr>gEnv := [7 \<mapsto> (the (gEnv pool_process 7))\<lparr>ev_epoll := \<lparr>ep_fd = 3, ep_size = 4, ep_now = 5000,
     ep_timer = wait_timer, ep_store = idle_store, ep_result = Some (alloc_epoll_result 4)\<rparr>\<rparr>],
     polls := idle_polls, heap := {FdsBlock 6, FdsBlock 9}, next_id := 11\<rparr>"

definition idle_waiting :: "nat \<rightharpoonup> nat" where
  "idle_waiting = [1 \<mapsto> 9, 2 \<mapsto> 6]"

lemma idle_between: "between idle_process 7 0 idle_waiting idle_lists"
proof -
  have wf: "wf_store idle_store idle_lists"
    by (auto simp: wf_store_def idle_store_def idle_lists_def dlist_def idle_item_def zero_item_def node_ok_def wait_store_def empty_list_def
        split: if_splits list_ref.splits)
  have inv: "wheel_inv idle_store idle_lists wait_timer"
    using wf by (auto simp: wheel_inv_def idle_lists_def has_list_def idle_store_def wait_store_def wait_timer_def in_slot_def
        deadline_def payload_def idle_item_def split: if_splits)
  have st: "stack_ok idle_process 7 [0]" using pool_process_stack
    by (auto simp: stack_ok_def env_stack_def co_of_def saved_def idle_process_def)
  have p: "store_of idle_process 7 = idle_store" "timer_of idle_process 7 = wait_timer"
    by (simp_all add: store_of_def timer_of_def idle_process_def)
  have "{FdsBlock 6, FdsBlock 9} = live_blocks idle_polls"
    by (rule block_set_eqI) (auto simp: live_blocks_def idle_polls_def back_context_def split: option.splits if_splits)
  then have fresh: "poll_fresh idle_process idle_store" by (simp add: poll_fresh_def idle_process_def idle_polls_def idle_store_def)
  have ready: "ready idle_process 7 1" "ready idle_process 7 2"
    by (simp_all add: ready_def idle_process_def pool_process_def pool_co_def)
  have "10 \<in> set (idle_lists (WheelSlot 0))" "7 \<in> set (idle_lists (WheelSlot 5))" by (simp_all add: idle_lists_def)
  then have parked: "parked idle_polls idle_store idle_lists 1 9" "parked idle_polls idle_store idle_lists 2 6"
    unfolding parked_def
    by (auto simp: idle_polls_def poll_live_def item_ready_def idle_store_def idle_item_def zero_item_def back_context_def)
  have polls: "polls idle_process = idle_polls" by (simp add: idle_process_def)
  have W: "c = 1 \<and> pc = 9 \<or> c = 2 \<and> pc = 6" if "idle_waiting c = Some pc" for c pc
    using that by (auto simp: idle_waiting_def split: if_splits)
  have L: "x = 7 \<or> x = 10" if "x \<in> set (idle_lists l)" for x l using that by (auto simp: idle_lists_def split: if_splits)
  have "idle_waiting 2 = Some 6" "idle_waiting 1 = Some 9" by (simp_all add: idle_waiting_def)
  moreover have "pc_time (the (idle_polls 6)) = 7" "pc_time (the (idle_polls 9)) = 10" "idle_polls 6 \<noteq> None" "idle_polls 9 \<noteq> None"
    by (simp_all add: idle_polls_def back_context_def)
  ultimately have owner: "\<exists>c pc P. idle_waiting c = Some pc \<and> idle_polls pc = Some P \<and> pc_time P = x" if "x \<in> set (idle_lists l)" for x l
    using L [OF that] by force
  have "c \<notin> set [0] \<and> ready idle_process 7 c \<and> parked idle_polls idle_store idle_lists c pc" if "idle_waiting c = Some pc" for c pc
    using W [OF that] ready parked by auto
  then have "thread_ok idle_process 7 [0] idle_waiting idle_lists"
    unfolding thread_ok_def p polls using st inv fresh owner by blast
  moreover have "\<not> pc_allEventDetatch P" if "idle_waiting c = Some pc" "idle_polls pc = Some P" for c pc P
    using W [OF that(1)] that(2) by (auto simp: idle_polls_def)
  moreover have "ep_result (ev_epoll (the (gEnv idle_process 7))) = Some (alloc_epoll_result 4)"
    "ep_size (ev_epoll (the (gEnv idle_process 7))) = 4" "length (er_events (alloc_epoll_result 4)) = 4"
    by (simp_all add: idle_process_def alloc_epoll_result_def)
  moreover have "idle_lists TimeoutList = []" "idle_lists ActiveList = []" by (simp_all add: idle_lists_def)
  ultimately show ?thesis unfolding between_def turn_ok_def polls by auto
qed

definition event_kernel :: "unit kernel" where
  "event_kernel = demo_kernel\<lparr>k_epoll_wait := \<lambda>_ _ _ w. (Inr [\<lparr>ee_events = EPOLLIN, ee_ptr = Some 8\<rparr>], w)\<rparr>"

theorem collect_exact_witness:
  "\<exists>p' A'. collect event_kernel idle_process 7 = Inr p' \<and> turn_ok p' 7 [0] idle_waiting A' \<and> A' ActiveList = [7, 10] \<and>
     pending A' = {}"
proof -
  let ?tes = "[((6, 0), \<lparr>ee_events = EPOLLIN, ee_ptr = Some 8\<rparr>)]"
  have "idle_waiting 2 = Some 6" by (simp add: idle_waiting_def)
  then have "registered idle_polls idle_waiting ((6, 0), \<lparr>ee_events = EPOLLIN, ee_ptr = Some 8\<rparr>)"
    unfolding registered_def split by (intro exI [of _ 2] exI [of _ "the (idle_polls 6)"]) (simp add: idle_polls_def back_context_def)
  then have r: "reports event_kernel idle_process 7 idle_waiting ?tes"
    by (simp add: reports_def event_kernel_def idle_process_def)
  have now: "awake event_kernel idle_process 7 = 5000"
    by (simp add: awake_def clock_at_def event_kernel_def demo_kernel_def)
  have cl: "clock_near (timer_of idle_process 7) (awake event_kernel idle_process 7)"
    unfolding now by (simp add: clock_near_def timer_of_def idle_process_def wait_timer_def)
  have t: "map (time_at (polls idle_process)) ?tes = [7]" by (simp add: time_at_def idle_process_def idle_polls_def back_context_def)
  have "7 \<in> set (idle_lists (WheelSlot 5))" "10 \<in> set (idle_lists (WheelSlot 0))" by (simp_all add: idle_lists_def)
  then have "7 \<in> pending idle_lists" "10 \<in> pending idle_lists" unfolding pending_def by blast+
  moreover have "pending idle_lists \<subseteq> {7, 10}" by (auto simp: pending_def idle_lists_def split: if_splits)
  ultimately have pend: "pending idle_lists = {7, 10}" by blast
  have d: "deadline (store_of idle_process 7) 7 = 5005" "deadline (store_of idle_process 7) 10 = 5000"
    by (simp_all add: deadline_def payload_def store_of_def idle_process_def idle_store_def idle_item_def)
  obtain p' A' due where *: "collect event_kernel idle_process 7 = Inr p'" "turn_ok p' 7 [0] idle_waiting A'"
    "A' ActiveList = first_occ [7] @ due" "distinct (A' ActiveList)"
    "set due = {x \<in> pending idle_lists. deadline (store_of idle_process 7) x \<le> uint (awake event_kernel idle_process 7)} - set [7]"
    "pending A' = pending idle_lists - set (A' ActiveList)"
    using collect_exact [OF idle_between r cl] unfolding t by (elim exE conjE) (rule that)
  have "set due = {x. (x = 7 \<or> x = 10) \<and> deadline (store_of idle_process 7) x \<le> 5000} - {7}"
    unfolding *(5) pend now by simp
  then have "set due = {10}" using d by fastforce
  moreover have "distinct due" using *(3,4) by simp
  ultimately have "due = [10]" by (cases due; cases "tl due") auto
  then have "A' ActiveList = [7, 10]" using *(3) by (simp add: first_occ_def)
  moreover from this have "pending A' = {}" using *(6) pend by simp
  ultimately show ?thesis using *(1,2) by blast
qed

end
