(* ===== verification/Hooks.thy ===== *)
theory Hooks
  imports Event_Loop
begin

unbundle bit_operations_syntax

text \<open>
  The hooked system calls (\<^verbatim>\<open>src/src/hook_sys_call.c\<close>): the functions of the C library they stand
  before, the table of hooked descriptors, \<open>fcntl\<close>, \<open>close\<close>, \<open>poll\<close> and the sleeping calls. The
  calls that wait for data are in theory \<open>Hook_IO\<close>, those that make and configure sockets in theory
  \<open>Hook_Socket\<close>, name resolution in theory \<open>Hook_Name\<close>, sequences of calls in theory \<open>Hook_Calls\<close>.
\<close>

section \<open>The C library\<close>

text \<open>
  A call of the C library is a function on the world. It gives the return value, the value it leaves in
  \<open>errno\<close> when the return value is negative, and what it writes to the caller's memory.
\<close>

type_synonym ('a, 'k) libcall = "'k \<Rightarrow> (int \<times> int \<times> 'a) \<times> 'k"

record timeval =
  tv_sec :: int
  tv_usec :: int

datatype sysfun = Sys_socket | Sys_accept | Sys_connect | Sys_close | Sys_select | Sys_sleep | Sys_usleep | Sys_nanosleep
  | Sys_read | Sys_write | Sys_send | Sys_recv | Sys_poll | Sys_setsockopt | Sys_fcntl | Sys_gethostbyname

text \<open>The optional argument of \<open>fcntl\<close>: an \<open>int\<close> or a pointer to a lock.\<close>

datatype fcntl_arg = NoArg | IntArg int | LockArg nat

type_synonym bytes = "(8 word) list"

text \<open>
  A descriptor set has room for \<open>FD_SETSIZE\<close> descriptors. \<open>gethostbyname_r\<close> is given the size of the
  buffer; its answer is the return value, the value of \<open>h_errno\<close> and the host, if one was found.
  \<open>pthread_key_create\<close> gives no key when it fails. \<open>signal\<close> is given the signal and the handler.
\<close>

type_synonym fd_set = "nat set"

record 'k libc =
  l_dlsym :: "sysfun \<Rightarrow> bool"
  l_socket :: "int \<Rightarrow> int \<Rightarrow> int \<Rightarrow> (unit, 'k) libcall"
  l_accept :: "int \<Rightarrow> (unit, 'k) libcall"
  l_connect :: "int \<Rightarrow> bytes \<Rightarrow> (unit, 'k) libcall"
  l_close :: "int \<Rightarrow> (unit, 'k) libcall"
  l_select :: "int \<Rightarrow> fd_set option \<Rightarrow> fd_set option \<Rightarrow> fd_set option \<Rightarrow> timeval option
    \<Rightarrow> (fd_set option \<times> fd_set option \<times> fd_set option, 'k) libcall"
  l_sleep :: "u32 \<Rightarrow> (unit, 'k) libcall"
  l_usleep :: "u32 \<Rightarrow> (unit, 'k) libcall"
  l_nanosleep :: "int \<Rightarrow> int \<Rightarrow> (unit, 'k) libcall"
  l_read :: "int \<Rightarrow> nat \<Rightarrow> (bytes, 'k) libcall"
  l_write :: "int \<Rightarrow> bytes \<Rightarrow> (unit, 'k) libcall"
  l_send :: "int \<Rightarrow> bytes \<Rightarrow> int \<Rightarrow> (unit, 'k) libcall"
  l_recv :: "int \<Rightarrow> nat \<Rightarrow> int \<Rightarrow> (bytes, 'k) libcall"
  l_poll :: "pollfd list \<Rightarrow> nat \<Rightarrow> int \<Rightarrow> (pollfd list, 'k) libcall"
  l_setsockopt :: "int \<Rightarrow> int \<Rightarrow> int \<Rightarrow> bytes \<Rightarrow> (unit, 'k) libcall"
  l_fcntl :: "int \<Rightarrow> int \<Rightarrow> fcntl_arg \<Rightarrow> (unit, 'k) libcall"
  l_gethostbyname :: "string option \<Rightarrow> (bytes, 'k) libcall"
  l_gethostbyname_r :: "string \<Rightarrow> nat \<Rightarrow> 'k \<Rightarrow> (int \<times> int \<times> bytes option) \<times> 'k"
  l_pthread_key_create :: "'k \<Rightarrow> nat option \<times> 'k"
  l_signal :: "int \<Rightarrow> nat \<Rightarrow> 'k \<Rightarrow> 'k"

section \<open>State\<close>

text \<open>What the library remembers of a descriptor; \<open>dest\<close> is a \<open>struct sockaddr_in\<close> of 16 bytes.\<close>

record rpchook_t =
  user_flag :: int
  rh_dest :: bytes
  rh_domain :: int
  read_timeout :: timeval
  write_timeout :: timeval

record hostbuf_wrap =
  hb_host :: bytes
  hb_buffer :: "nat option"
  hb_buffer_size :: nat
  hb_host_errno :: int

text \<open>
  The process with the static variables of the hooks: which of the \<open>g_sys\<close> pointers are set, the table
  \<open>gSocketFd\<close> (an entry that is \<open>None\<close> is null), and the buffers of \<open>coroutine_gethostbyname\<close> by
  their addresses. \<open>hb_buffer\<close> is the size of the buffer that was allocated, none for a null pointer.
\<close>

record 'k hooks =
  hp :: "'k process"
  g_sys :: "sysfun \<Rightarrow> bool"
  gSocketFd :: "nat \<rightharpoonup> rpchook_t"
  hostbufs :: "nat \<rightharpoonup> hostbuf_wrap"
  hostbuf_key :: nat

definition gSocketFd_size :: nat where "gSocketFd_size = 102400"

definition EAGAIN :: int where "EAGAIN = 11"
definition EBADF :: int where "EBADF = 9"
definition EINPROGRESS :: int where "EINPROGRESS = 115"

lemmas errno_defs = EAGAIN_def EBADF_def EINPROGRESS_def EPERM_def EINVAL_def

definition set_errno :: "nat \<Rightarrow> int \<Rightarrow> 'k hooks \<Rightarrow> 'k hooks" where
  "set_errno t e h = h\<lparr>hp := (hp h)\<lparr>c_errno := (c_errno (hp h))(t := e)\<rparr>\<rparr>"

definition errno :: "'k hooks \<Rightarrow> nat \<Rightarrow> int" where
  "errno h t = c_errno (hp h) t"

section \<open>Calling the C library\<close>

text \<open>The macro \<open>HOOK_SYS_FUNC\<close>.\<close>

definition HOOK_SYS_FUNC :: "'k libc \<Rightarrow> sysfun \<Rightarrow> 'k hooks \<Rightarrow> 'k hooks" where
  "HOOK_SYS_FUNC L f h = (if \<not> g_sys h f then h\<lparr>g_sys := (g_sys h)(f := l_dlsym L f)\<rparr> else h)"

text \<open>A call through one of the pointers, by the code of thread \<open>t\<close>.\<close>

definition sys_call :: "sysfun \<Rightarrow> ('a, 'k) libcall \<Rightarrow> nat \<Rightarrow> 'k hooks \<Rightarrow> (int \<times> 'a \<times> 'k hooks) c_result" where
  "sys_call f c t h =
     (if g_sys h f then
        let ((ret, err, a), w) = c (world (hp h));
            h = h\<lparr>hp := (hp h)\<lparr>world := w\<rparr>\<rparr>
        in Inr (ret, a, if ret < 0 then set_errno t err h else h)
      else Inl NullDeref)"

definition is_enable_sys_hook :: "'k process \<Rightarrow> nat option \<Rightarrow> bool c_result" where
  "is_enable_sys_hook p co =
     (if co = None then Inr False
      else bindR (get_co p co) (\<lambda>c.
        if co_task c = None then Inr False
        else bindR (get_task p (co_task c)) (\<lambda>tk. Inr (at_enable_sys_hook (tk_attr tk)))))"

text \<open>The test that every hook begins with.\<close>

definition enabled :: "'k hooks \<Rightarrow> nat \<Rightarrow> (nat option \<times> bool) c_result" where
  "enabled h t = bindR (coroutine_self (hp h) t) (\<lambda>co. bindR (is_enable_sys_hook (hp h) co) (\<lambda>b. Inr (co, b)))"

section \<open>The table of descriptors\<close>

definition get_by_fd :: "'k hooks \<Rightarrow> int \<Rightarrow> rpchook_t option" where
  "get_by_fd h fd = (if fd > -1 \<and> fd < int gSocketFd_size then gSocketFd h (nat fd) else None)"

definition new_rpchook :: rpchook_t where
  "new_rpchook = \<lparr>user_flag = 0, rh_dest = replicate 16 0, rh_domain = 0, read_timeout = \<lparr>tv_sec = 0, tv_usec = 1000\<rparr>,
     write_timeout = \<lparr>tv_sec = 0, tv_usec = 1000\<rparr>\<rparr>"

text \<open>Whether a record was allocated, and the state.\<close>

definition alloc_by_fd :: "'k hooks \<Rightarrow> int \<Rightarrow> bool \<times> 'k hooks" where
  "alloc_by_fd h fd =
     (if fd > -1 \<and> fd < int gSocketFd_size
      then (True, h\<lparr>gSocketFd := (gSocketFd h)(nat fd \<mapsto> new_rpchook)\<rparr>) else (False, h))"

definition free_by_fd :: "'k hooks \<Rightarrow> int \<Rightarrow> 'k hooks" where
  "free_by_fd h fd =
     (if fd > -1 \<and> fd < int gSocketFd_size
      then (case gSocketFd h (nat fd) of None \<Rightarrow> h | Some lp \<Rightarrow> h\<lparr>gSocketFd := (gSocketFd h)(nat fd := None)\<rparr>) else h)"

text \<open>Writing through the pointer \<open>lp\<close> that \<open>get_by_fd\<close> or \<open>alloc_by_fd\<close> gave for \<open>fd\<close>.\<close>

definition set_lp :: "'k hooks \<Rightarrow> int \<Rightarrow> (rpchook_t \<Rightarrow> rpchook_t) \<Rightarrow> 'k hooks c_result" where
  "set_lp h fd f =
     (case get_by_fd h fd of None \<Rightarrow> Inl NullDeref
      | Some lp \<Rightarrow> Inr (h\<lparr>gSocketFd := (gSocketFd h)(nat fd \<mapsto> f lp)\<rparr>))"

text \<open>A timeout in milliseconds, computed in \<open>long\<close> and stored in an \<open>int\<close>; \<open>/\<close> rounds to zero.\<close>

definition c_quot :: "int \<Rightarrow> int \<Rightarrow> int" where
  "c_quot a b = sgn a * sgn b * (\<bar>a\<bar> div \<bar>b\<bar>)"

definition timeout_ms_of :: "timeval \<Rightarrow> int" where
  "timeout_ms_of tv = wrap32 (tv_sec tv * 1000 + c_quot (tv_usec tv) 1000)"

section \<open>close, fcntl\<close>

definition close_hook :: "'k libc \<Rightarrow> 'k hooks \<Rightarrow> nat \<Rightarrow> int \<Rightarrow> (int \<times> 'k hooks) c_result" where
  "close_hook L h t fd =
     (let h = HOOK_SYS_FUNC L Sys_close h in
      bindR (enabled h t) (\<lambda>(co, en).
      let h = (if en \<and> get_by_fd h fd \<noteq> None then free_by_fd h fd else h) in
      bindR (sys_call Sys_close (l_close L fd) t h) (\<lambda>(ret, _, h). Inr (ret, h))))"

definition F_DUPFD :: int where "F_DUPFD = 0"
definition F_GETFD :: int where "F_GETFD = 1"
definition F_SETFD :: int where "F_SETFD = 2"
definition F_GETFL :: int where "F_GETFL = 3"
definition F_SETFL :: int where "F_SETFL = 4"
definition F_GETLK :: int where "F_GETLK = 5"
definition F_SETLK :: int where "F_SETLK = 6"
definition F_SETLKW :: int where "F_SETLKW = 7"
definition F_SETOWN :: int where "F_SETOWN = 8"
definition F_GETOWN :: int where "F_GETOWN = 9"
definition O_NONBLOCK :: int where "O_NONBLOCK = 2048"

lemmas fcntl_defs = F_DUPFD_def F_GETFD_def F_SETFD_def F_GETFL_def F_SETFL_def F_GETLK_def F_SETLK_def F_SETLKW_def
  F_SETOWN_def F_GETOWN_def

text \<open>\<open>va_arg\<close> for an \<open>int\<close> and for a lock; reading an argument that was not passed is an error.\<close>

definition arg_int :: "fcntl_arg \<Rightarrow> int c_result" where
  "arg_int a = (case a of IntArg i \<Rightarrow> Inr i | _ \<Rightarrow> Inl Uninitialised)"

definition arg_lock :: "fcntl_arg \<Rightarrow> nat c_result" where
  "arg_lock a = (case a of LockArg l \<Rightarrow> Inr l | _ \<Rightarrow> Inl Uninitialised)"

definition fcntl_sys :: "'k libc \<Rightarrow> 'k hooks \<Rightarrow> nat \<Rightarrow> int \<Rightarrow> int \<Rightarrow> fcntl_arg \<Rightarrow> (int \<times> 'k hooks) c_result" where
  "fcntl_sys L h t fd cmd a = bindR (sys_call Sys_fcntl (l_fcntl L fd cmd a) t h) (\<lambda>(ret, _, h). Inr (ret, h))"

definition fcntl_hook :: "'k libc \<Rightarrow> 'k hooks \<Rightarrow> nat \<Rightarrow> int \<Rightarrow> int \<Rightarrow> fcntl_arg \<Rightarrow> (int \<times> 'k hooks) c_result" where
  "fcntl_hook L h t fildes cmd a =
     (let h = HOOK_SYS_FUNC L Sys_fcntl h in
      if fildes < 0 then Inr (-1, h)
      else
        let lp = get_by_fd h fildes in
        if cmd \<in> {F_DUPFD, F_SETFD, F_SETOWN} then
          bindR (arg_int a) (\<lambda>param. fcntl_sys L h t fildes cmd (IntArg param))
        else if cmd \<in> {F_GETFD, F_GETFL, F_GETOWN} then fcntl_sys L h t fildes cmd NoArg
        else if cmd = F_SETFL then
          bindR (arg_int a) (\<lambda>param.
          bindR (enabled h t) (\<lambda>(co, en).
          let flag = (if en \<and> lp \<noteq> None then param OR O_NONBLOCK else param) in
          bindR (fcntl_sys L h t fildes cmd (IntArg flag)) (\<lambda>(ret, h).
          if 0 = ret \<and> lp \<noteq> None
          then bindR (set_lp h fildes (\<lambda>lp. lp\<lparr>user_flag := param\<rparr>)) (\<lambda>h. Inr (ret, h))
          else Inr (ret, h))))
        else if cmd \<in> {F_GETLK, F_SETLK, F_SETLKW} then
          bindR (arg_lock a) (\<lambda>param. fcntl_sys L h t fildes cmd (LockArg param))
        else Inr (-1, h))"

section \<open>poll and the sleeping calls\<close>

text \<open>
  What happens while a coroutine waits in \<open>poll_inner\<close> is the parameter \<open>sched\<close>: from the state in
  which it gave up the processor, waiting in the given poll context, to the state in which it is resumed.
\<close>

type_synonym 'k sched = "nat \<Rightarrow> 'k hooks \<Rightarrow> 'k hooks c_result"

definition poll_inner ::
  "'k kernel \<Rightarrow> 'k sched \<Rightarrow> 'k hooks \<Rightarrow> nat \<Rightarrow> pollfd list \<Rightarrow> nat \<Rightarrow> int
   \<Rightarrow> (pollfd list \<Rightarrow> nat \<Rightarrow> int \<Rightarrow> 'k process \<Rightarrow> int \<times> pollfd list \<times> 'k process) option
   \<Rightarrow> (int \<times> pollfd list \<times> 'k hooks) c_result" where
  "poll_inner K sched h t fds nfds timeout pollfunc =
     bindR (poll_enter K (hp h) t fds nfds timeout pollfunc) (\<lambda>st.
     case st of
       PollReturns ret fds p \<Rightarrow> Inr (ret, fds, h\<lparr>hp := p\<rparr>)
     | PollWaits pc p \<Rightarrow>
         bindR (sched pc (h\<lparr>hp := p\<rparr>)) (\<lambda>h.
         bindR (poll_leave K (hp h) t pc fds nfds) (\<lambda>(ret, fds, p). Inr (ret, fds, h\<lparr>hp := p\<rparr>))))"

text \<open>The pointer \<open>g_sys_poll\<close>, as \<open>poll_inner\<close> is given it.\<close>

definition sys_pollfunc ::
  "'k libc \<Rightarrow> 'k hooks \<Rightarrow> nat \<Rightarrow> (pollfd list \<Rightarrow> nat \<Rightarrow> int \<Rightarrow> 'k process \<Rightarrow> int \<times> pollfd list \<times> 'k process) option" where
  "sys_pollfunc L h t =
     (if g_sys h Sys_poll then Some (\<lambda>fds nfds timeout p.
        let ((ret, err, fds), w) = l_poll L fds nfds timeout (world p)
        in (ret, fds, p\<lparr>world := w, c_errno := if ret < 0 then (c_errno p)(t := err) else c_errno p\<rparr>))
      else None)"

definition poll_hook ::
  "'k libc \<Rightarrow> 'k kernel \<Rightarrow> 'k sched \<Rightarrow> 'k hooks \<Rightarrow> nat \<Rightarrow> pollfd list \<Rightarrow> nat \<Rightarrow> int
   \<Rightarrow> (int \<times> pollfd list \<times> 'k hooks) c_result" where
  "poll_hook L K sched h t fds nfds timeout =
     (let h = HOOK_SYS_FUNC L Sys_poll h in
      bindR (enabled h t) (\<lambda>(co, en).
      if \<not> en then sys_call Sys_poll (l_poll L fds nfds timeout) t h
      else
        bindR (get_epoll_context K (hp h) t) (\<lambda>(_, p).
        poll_inner K sched (h\<lparr>hp := p\<rparr>) t fds nfds timeout (sys_pollfunc L h t))))"

definition poll2_hook ::
  "'k libc \<Rightarrow> 'k kernel \<Rightarrow> 'k sched \<Rightarrow> 'k hooks \<Rightarrow> nat \<Rightarrow> pollfd list \<Rightarrow> nat \<Rightarrow> int
   \<Rightarrow> (int \<times> pollfd list \<times> 'k hooks) c_result" where
  "poll2_hook L K sched h t fds nfds timeout = poll_hook L K sched h t fds nfds timeout"

text \<open>The timeout is converted from \<open>unsigned long long\<close> to \<open>int\<close> by the call of \<open>poll_inner\<close>.\<close>

definition doSleep :: "'k kernel \<Rightarrow> 'k sched \<Rightarrow> 'k hooks \<Rightarrow> nat \<Rightarrow> u64 \<Rightarrow> 'k hooks c_result" where
  "doSleep K sched h t timeout_ms =
     bindR (get_epoll_context K (hp h) t) (\<lambda>(_, p).
     bindR (poll_inner K sched (h\<lparr>hp := p\<rparr>) t [zero_pollfd] 0 (int_of_u64 timeout_ms) None) (\<lambda>(_, _, h). Inr h))"

definition sleep_hook :: "'k libc \<Rightarrow> 'k kernel \<Rightarrow> 'k sched \<Rightarrow> 'k hooks \<Rightarrow> nat \<Rightarrow> u32 \<Rightarrow> (int \<times> 'k hooks) c_result" where
  "sleep_hook L K sched h t seconds =
     (let h = HOOK_SYS_FUNC L Sys_sleep h in
      bindR (enabled h t) (\<lambda>(co, en).
      if \<not> en then bindR (sys_call Sys_sleep (l_sleep L seconds) t h) (\<lambda>(ret, _, h). Inr (ret, h))
      else bindR (doSleep K sched h t (ucast (seconds * 1000))) (\<lambda>h. Inr (0, h))))"

definition usleep_hook :: "'k libc \<Rightarrow> 'k kernel \<Rightarrow> 'k sched \<Rightarrow> 'k hooks \<Rightarrow> nat \<Rightarrow> u32 \<Rightarrow> (int \<times> 'k hooks) c_result" where
  "usleep_hook L K sched h t usec =
     (let h = HOOK_SYS_FUNC L Sys_usleep h in
      bindR (enabled h t) (\<lambda>(co, en).
      if \<not> en then bindR (sys_call Sys_usleep (l_usleep L usec) t h) (\<lambda>(ret, _, h). Inr (ret, h))
      else bindR (doSleep K sched h t (ucast (usec div 1000))) (\<lambda>h. Inr (0, h))))"

definition nanosleep_hook ::
  "'k libc \<Rightarrow> 'k kernel \<Rightarrow> 'k sched \<Rightarrow> 'k hooks \<Rightarrow> nat \<Rightarrow> int \<Rightarrow> int \<Rightarrow> (int \<times> 'k hooks) c_result" where
  "nanosleep_hook L K sched h t sec nsec =
     (let h = HOOK_SYS_FUNC L Sys_nanosleep h in
      bindR (enabled h t) (\<lambda>(co, en).
      if \<not> en then bindR (sys_call Sys_nanosleep (l_nanosleep L sec nsec) t h) (\<lambda>(ret, _, h). Inr (ret, h))
      else
        let timeout_ms = wrap32 (sec * 1000 + c_quot nsec 1000000) in
        bindR (doSleep K sched h t (u64_of_int timeout_ms)) (\<lambda>h. Inr (0, h))))"

section \<open>What the calls leave alone\<close>

text \<open>
  \<open>obs\<close> is something that can be observed of the world, such as the bytes that have been sent on a
  socket. The calls of the runtime that reach the kernel are those of \<open>kernel_keeps\<close>, with \<open>poll\<close>
  and \<open>close\<close> of the C library.
\<close>

definition kernel_keeps :: "'k kernel \<Rightarrow> ('k \<Rightarrow> 'a) \<Rightarrow> bool" where
  "kernel_keeps K obs \<longleftrightarrow> (\<forall>w. obs (snd (k_gettimeofday K w)) = obs w) \<and>
     (\<forall>w epfd opr fd ev. obs (snd (k_epoll_ctl K epfd opr fd ev w)) = obs w)"

definition libc_keeps :: "'k libc \<Rightarrow> ('k \<Rightarrow> 'a) \<Rightarrow> bool" where
  "libc_keeps L obs \<longleftrightarrow> (\<forall>w fds n ms. obs (snd (l_poll L fds n ms w)) = obs w) \<and> (\<forall>w fd. obs (snd (l_close L fd w)) = obs w)"

definition sched_keeps :: "'k sched \<Rightarrow> ('k \<Rightarrow> 'a) \<Rightarrow> bool" where
  "sched_keeps sched obs \<longleftrightarrow> (\<forall>pc h h'. sched pc h = Inr h' \<longrightarrow> obs (world (hp h')) = obs (world (hp h)))"

definition pollfunc_keeps ::
  "(pollfd list \<Rightarrow> nat \<Rightarrow> int \<Rightarrow> 'k process \<Rightarrow> int \<times> pollfd list \<times> 'k process) option \<Rightarrow> ('k \<Rightarrow> 'a) \<Rightarrow> bool" where
  "pollfunc_keeps pollfunc obs \<longleftrightarrow>
     (\<forall>f fds n ms p. pollfunc = Some f \<longrightarrow> obs (world (snd (snd (f fds n ms p)))) = obs (world p))"

lemma bindR_E: "bindR m f = Inr y \<Longrightarrow> (\<And>x. m = Inr x \<Longrightarrow> f x = Inr y \<Longrightarrow> R) \<Longrightarrow> R"
  by (auto simp: bindR_eq_Inr)

lemma if_E: "(if c then a else b) = Inr y \<Longrightarrow> (c \<Longrightarrow> a = Inr y \<Longrightarrow> R) \<Longrightarrow> (\<not> c \<Longrightarrow> b = Inr y \<Longrightarrow> R) \<Longrightarrow> R"
  by (auto split: if_splits)

named_theorems same_world \<open>operations that do not reach the kernel\<close>

lemma access_world [same_world]:
  "set_co p c f = Inr p' \<Longrightarrow> world p' = world p" "set_task p k g = Inr p' \<Longrightarrow> world p' = world p"
  "set_env p e u = Inr p' \<Longrightarrow> world p' = world p" "set_poll p pc v = Inr p' \<Longrightarrow> world p' = world p"
  by (auto simp: proc_access set_poll_def get_poll_def bindR_eq_Inr split: option.splits)

lemma on_store_world [same_world]: "on_store p t f = Inr p' \<Longrightarrow> world p' = world p"
  by (auto simp: on_store_def put_store_def bindR_eq_Inr dest: same_world)

lemma case_regs: "(case r of Zeroed \<Rightarrow> Inl e | _ \<Rightarrow> Inr q) = Inr q' \<longleftrightarrow> r \<noteq> Zeroed \<and> q = q'"
  by (cases r) auto

lemma switch_world [same_world]:
  "coroutine_swap p t a b = Inr p' \<Longrightarrow> world p' = world p" "coroutine_swap_back p t = Inr p' \<Longrightarrow> world p' = world p"
  by (auto simp: coroutine_swap_def coroutine_swap_back_def bindR_eq_Inr Let_def case_regs
      split: if_splits dest!: same_world)

lemma yield_world [same_world]: "yield_env p t e = Inr p' \<Longrightarrow> world p' = world p"
  by (auto simp: yield_env_def bindR_eq_Inr Let_def dest!: same_world)

lemma poll_memory_world [same_world]:
  "poll_alloc p t n self = Inr (pc, p') \<Longrightarrow> world p' = world p" "poll_free p t pc = Inr p' \<Longrightarrow> world p' = world p"
  "poll_end p t pc = Inr p' \<Longrightarrow> world p' = world p"
  by (auto simp: poll_alloc_def poll_free_def poll_end_def free_block_def bindR_eq_Inr Let_def split: if_splits dest!: same_world)

lemma fix_timeout_world [same_world]: "fix_coroutine_timeout p t c ms = Inr (ms', b, p') \<Longrightarrow> world p' = world p"
  unfolding fix_coroutine_timeout_def Let_def by (elim bindR_E if_E) (auto dest!: same_world)

lemma kernel_call_keeps:
  assumes "kernel_keeps K obs"
  shows "obs (world (snd (GetTickMS K p))) = obs (world p)" "obs (world (snd (do_epoll_ctl K t p epfd opr fd ev))) = obs (world p)"
  using assms by (simp_all add: kernel_keeps_def GetTickMS_def do_epoll_ctl_def Let_def split_beta)

lemma poll_add_keeps:
  assumes "kernel_keeps K obs" and "poll_add K p t pc self epfd fds nfds b i = Inr (stop, p')"
  shows "obs (world p') = obs (world p)"
  using assms(2) kernel_call_keeps(2) [OF assms(1)] unfolding poll_add_def Let_def split_beta
  by (elim bindR_E if_E) (auto dest!: same_world)

lemma poll_add_all_keeps:
  assumes "\<And>i p stop p'. body i p = Inr (stop, p') \<Longrightarrow> obs (world p') = obs (world p)"
    and "poll_add_all body is p = Inr (stop, p')"
  shows "obs (world p') = obs (world p)"
  using assms(2)
proof (induction "is" arbitrary: p)
  case (Cons i "is")
  then show ?case by (auto simp: bindR_eq_Inr split: if_splits dest!: assms(1))
qed simp

lemma epoll_del_keeps:
  assumes "kernel_keeps K obs" and "epoll_del K t epfd fds p i = Inr p'"
  shows "obs (world p') = obs (world p)"
  using assms(2) kernel_call_keeps(2) [OF assms(1)] by (auto simp: epoll_del_def bindR_eq_Inr split: if_splits)

lemma foldR_keeps:
  assumes "\<And>s i s'. f s i = Inr s' \<Longrightarrow> g s' = g s" and "foldR f s xs = Inr s'"
  shows "g s' = g s"
  using assms(2) by (induction xs arbitrary: s) (auto simp: bindR_eq_Inr dest!: assms(1))

fun step_process :: "'k process poll_step \<Rightarrow> 'k process" where
  "step_process (PollReturns ret fds p) = p"
| "step_process (PollWaits pc p) = p"

lemma poll_enter_keeps:
  assumes K: "kernel_keeps K obs" and pf: "pollfunc_keeps pollfunc obs"
    and run: "poll_enter K p t fds nfds timeout pollfunc = Inr st"
  shows "obs (world (step_process st)) = obs (world p)"
proof -
  have del: "obs (world p') = obs (world p)" if "foldR (epoll_del K t epfd fds) p is = Inr p'" for p p' epfd "is"
    by (rule foldR_keeps [OF _ that]) (rule epoll_del_keeps [OF K])
  have add: "obs (world p') = obs (world p) \<and> (stop \<longrightarrow> b)"
    if "poll_add_all (\<lambda>i p. poll_add K p t pc self epfd fds nfds b i) is p = Inr (stop, p')" for p stop p' pc self epfd b "is"
  proof
    show "obs (world p') = obs (world p)"
      by (rule poll_add_all_keeps [OF _ that]) (rule poll_add_keeps [OF K])
    show "stop \<longrightarrow> b"
    proof
      assume stop
      with that have "poll_add_all (\<lambda>i p. poll_add K p t pc self epfd fds nfds b i) is p = Inr (True, p')" by simp
      then show b by (rule poll_add_all_stop) (auto dest: poll_add_stop)
    qed
  qed
  show ?thesis using run unfolding poll_enter_def Let_def split_beta
    by (elim bindR_E if_E; simp only: split_paired_all fst_conv snd_conv)
      (use kernel_call_keeps(1) [OF K] pf [unfolded pollfunc_keeps_def] in \<open>auto dest!: same_world add del\<close>)
qed

lemma poll_collect_keeps:
  assumes "kernel_keeps K obs" and "poll_collect K t epfd pc st i = Inr st'"
  shows "obs (world (fst st')) = obs (world (fst st))"
  using assms(2) epoll_del_keeps [OF assms(1)] by (auto simp: poll_collect_def bindR_eq_Inr split_beta)

lemma poll_leave_keeps:
  assumes K: "kernel_keeps K obs" and run: "poll_leave K p t pc fds nfds = Inr (ret, fds', p')"
  shows "obs (world p') = obs (world p)"
proof -
  have col: "obs (world p') = obs (world p)" if "foldR (poll_collect K t epfd pc) (p, fds) is = Inr (p', fds')" for p fds p' fds' epfd "is"
    using foldR_keeps [of "poll_collect K t epfd pc" "\<lambda>s. obs (world (fst s))", OF poll_collect_keeps [OF K] that] by simp
  show ?thesis using run by (auto simp: poll_leave_def bindR_eq_Inr Let_def split_beta dest!: same_world col)
qed

lemma poll_inner_keeps:
  assumes K: "kernel_keeps K obs" and S: "sched_keeps sched obs"
    and pf: "pollfunc_keeps pollfunc obs"
    and run: "poll_inner K sched h t fds nfds timeout pollfunc = Inr (ret, fds', h')"
  shows "obs (world (hp h')) = obs (world (hp h))"
proof -
  from run obtain st where st: "poll_enter K (hp h) t fds nfds timeout pollfunc = Inr st"
    by (auto simp: poll_inner_def bindR_eq_Inr)
  show ?thesis
    using run S poll_enter_keeps [OF K pf st]
    by (cases st) (auto simp: poll_inner_def st bindR_eq_Inr sched_keeps_def dest!: poll_leave_keeps [OF K])
qed

text \<open>A coroutine that has hooks enabled runs in a thread that has an environment.\<close>

lemma enabled_env:
  assumes "enabled h t = Inr (co, True)"
  shows "\<exists>env. gEnv (hp h) t = Some env \<and> get_epoll_context K (hp h) t = Inr (ev_epoll env, hp h)"
  using assms
  by (auto simp: enabled_def is_enable_sys_hook_def coroutine_self_def get_epoll_context_def get_curr_thread_env_def
      get_env_def bindR_eq_Inr split: if_splits option.splits)

lemma HOOK_SYS_FUNC_simps [simp]:
  "hp (HOOK_SYS_FUNC L f h) = hp h" "gSocketFd (HOOK_SYS_FUNC L f h) = gSocketFd h" "hostbufs (HOOK_SYS_FUNC L f h) = hostbufs h"
  "hostbuf_key (HOOK_SYS_FUNC L f h) = hostbuf_key h" "enabled (HOOK_SYS_FUNC L f h) t = enabled h t"
  "get_by_fd (HOOK_SYS_FUNC L f h) fd = get_by_fd h fd" "(HOOK_SYS_FUNC L f h)\<lparr>hp := hp h\<rparr> = HOOK_SYS_FUNC L f h"
  by (simp_all add: HOOK_SYS_FUNC_def enabled_def get_by_fd_def)

lemma set_errno_simps [simp]:
  "world (hp (set_errno t e h)) = world (hp h)" "gSocketFd (set_errno t e h) = gSocketFd h" "hostbufs (set_errno t e h) = hostbufs h"
  "errno (set_errno t e h) t = e"
  by (simp_all add: set_errno_def errno_def)

lemma sys_call_world:
  "sys_call f c t h = Inr (ret, a, h') \<Longrightarrow> \<exists>err. c (world (hp h)) = ((ret, err, a), world (hp h'))"
  by (cases "c (world (hp h))") (auto simp: sys_call_def Let_def split: if_splits)

lemma sys_call_keeps:
  "sys_call f c t h = Inr (ret, a, h') \<Longrightarrow> (\<And>w. obs (snd (c w)) = obs w) \<Longrightarrow> obs (world (hp h')) = obs (world (hp h))"
  by (drule sys_call_world) (metis snd_conv)

lemma poll_hook_keeps:
  assumes K: "kernel_keeps K obs" and S: "sched_keeps sched obs" and L: "libc_keeps L obs"
    and run: "poll_hook L K sched h t fds nfds timeout = Inr (ret, fds', h')"
  shows "obs (world (hp h')) = obs (world (hp h))"
proof -
  from run obtain co en where en: "enabled h t = Inr (co, en)" by (auto simp: poll_hook_def bindR_eq_Inr Let_def)
  have pf: "pollfunc_keeps (sys_pollfunc L g t) obs" for g
    using L by (auto simp: pollfunc_keeps_def sys_pollfunc_def libc_keeps_def split_beta Let_def split: if_splits)
  show ?thesis
  proof (cases en)
    case True
    then obtain e where "get_epoll_context K (hp h) t = Inr (e, hp h)" using enabled_env [of h t co K] en by auto
    then have "poll_inner K sched (HOOK_SYS_FUNC L Sys_poll h) t fds nfds timeout (sys_pollfunc L (HOOK_SYS_FUNC L Sys_poll h) t)
        = Inr (ret, fds', h')"
      using run en True by (simp add: poll_hook_def Let_def)
    from poll_inner_keeps [OF K S pf this] show ?thesis by simp
  next
    case False
    then have "sys_call Sys_poll (l_poll L fds nfds timeout) t (HOOK_SYS_FUNC L Sys_poll h) = Inr (ret, fds', h')"
      using run en by (simp add: poll_hook_def Let_def)
    from sys_call_keeps [OF this, of obs] L show ?thesis by (simp add: libc_keeps_def)
  qed
qed

lemma free_by_fd_simps [simp]: "hp (free_by_fd h fd) = hp h" "hostbufs (free_by_fd h fd) = hostbufs h"
  by (simp_all add: free_by_fd_def split: option.split)

lemma close_hook_keeps:
  assumes L: "libc_keeps L obs" and run: "close_hook L h t fd = Inr (ret, h')"
  shows "obs (world (hp h')) = obs (world (hp h))"
proof -
  let ?h = "HOOK_SYS_FUNC L Sys_close h"
  from run obtain co en where "bindR (sys_call Sys_close (l_close L fd) t (if en \<and> get_by_fd h fd \<noteq> None then free_by_fd ?h fd else ?h))
      (\<lambda>(ret, _, h). Inr (ret, h)) = Inr (ret, h')"
    by (auto simp: close_hook_def Let_def bindR_eq_Inr [of "enabled h t"])
  then have "sys_call Sys_close (l_close L fd) t (if en \<and> get_by_fd h fd \<noteq> None then free_by_fd ?h fd else ?h) = Inr (ret, (), h')"
    (is "sys_call _ _ _ ?g = _") by (auto simp only: bindR_eq_Inr split_beta Inr_inject fst_conv snd_conv prod.collapse prod.inject)
  moreover have "hp ?g = hp h" by simp
  ultimately have "hp ?g = hp h" and "sys_call Sys_close (l_close L fd) t ?g = Inr (ret, (), h')" by simp_all
  from sys_call_keeps [OF this(2), of obs] this(1) L show ?thesis by (simp add: libc_keeps_def)
qed

end
