(* ===== verification/Hook_IO.thy ===== *)
theory Hook_IO
  imports Hooks
begin

unbundle bit_operations_syntax

text \<open>
  The hooks that move data (\<^verbatim>\<open>src/src/hook_sys_call.c\<close>, lines 393 to 587): \<open>wait_io_ready\<close>,
  \<open>read\<close>, \<open>write\<close>, \<open>send\<close> and \<open>recv\<close>. The loops of \<open>read\<close> and \<open>recv\<close> have the same text but for the
  call of the C library, and so have those of \<open>write\<close> and \<open>send\<close>. A loop may run for ever, which is
  the value \<open>None\<close>.
\<close>

section \<open>Operations\<close>

definition wait_io_ready ::
  "'k libc \<Rightarrow> 'k kernel \<Rightarrow> 'k sched \<Rightarrow> nat \<Rightarrow> nat option \<Rightarrow> int \<Rightarrow> 16 word \<Rightarrow> int \<Rightarrow> 'k hooks \<Rightarrow> (int \<times> 'k hooks) c_result" where
  "wait_io_ready L K sched t co fd events timeout h =
     (let pf = \<lparr>pf_fd = fd, pf_events = events, pf_revents = 0\<rparr> in
      bindR (poll_hook L K sched h t [pf] 1 timeout) (\<lambda>(n, _, h).
      bindR (if n = 0
             then bindR (get_co (hp h) co) (\<lambda>c. bindR (get_task (hp h) (co_task c)) (\<lambda>tk. Inr (tk_timeout tk)))
             else Inr False) (\<lambda>expired.
      if expired then bindR (close_hook L h t fd) (\<lambda>(_, h). Inr (-1, set_errno t EBADF h))
      else Inr (1, h))))"

text \<open>
  The loop of \<open>read\<close> and \<open>recv\<close>: \<open>wait\<close> waits for the descriptor and \<open>call\<close> asks for at most the
  given number of bytes. The result is the value of \<open>ready\<close>, the count and the bytes in the buffer.
\<close>

partial_function (option) read_loop ::
  "('k hooks \<Rightarrow> (int \<times> 'k hooks) c_result) \<Rightarrow> (nat \<Rightarrow> 'k hooks \<Rightarrow> (int \<times> bytes \<times> 'k hooks) c_result) \<Rightarrow> nat \<Rightarrow> nat
   \<Rightarrow> int \<Rightarrow> bytes \<Rightarrow> 'k hooks \<Rightarrow> (int \<times> int \<times> bytes \<times> 'k hooks) c_result option" where
  "read_loop wait call t nbyte n buf h =
     (case wait h of
        Inl e \<Rightarrow> Some (Inl e)
      | Inr (rdy, h) \<Rightarrow>
          if rdy \<le> 0 then Some (Inr (rdy, n, buf, h))
          else
            (case call (nat (int nbyte - n)) h of
               Inl e \<Rightarrow> Some (Inl e)
             | Inr (ret, data, h) \<Rightarrow>
                 if ret < 0 \<and> errno h t \<noteq> EAGAIN \<or> ret = 0 then Some (Inr (rdy, n, buf, h))
                 else
                   let (n, buf) = (if ret < 0 then (n, buf) else (n + ret, buf @ data)) in
                   if n \<le> 0 \<and> n < int nbyte then read_loop wait call t nbyte n buf h
                   else Some (Inr (rdy, n, buf, h))))"

definition POLL_READ :: "16 word" where "POLL_READ = POLLIN OR POLLERR OR POLLHUP"
definition POLL_WRITE :: "16 word" where "POLL_WRITE = POLLOUT OR POLLERR OR POLLHUP"

text \<open>What \<open>read\<close> and \<open>recv\<close> return after the loop: the value and the bytes.\<close>

definition read_result ::
  "(int \<times> int \<times> bytes \<times> 'k hooks) c_result option \<Rightarrow> (int \<times> bytes \<times> 'k hooks) c_result" where
  "read_result r =
     (case r of
        None \<Rightarrow> Inl Diverges
      | Some r \<Rightarrow> bindR r (\<lambda>(rdy, n, buf, h).
          if rdy \<le> 0 \<and> n = 0 then Inr (rdy, buf, h) else Inr (n, buf, h)))"

definition read_hook ::
  "'k libc \<Rightarrow> 'k kernel \<Rightarrow> 'k sched \<Rightarrow> 'k hooks \<Rightarrow> nat \<Rightarrow> int \<Rightarrow> nat \<Rightarrow> (int \<times> bytes \<times> 'k hooks) c_result" where
  "read_hook L K sched h t fd nbyte =
     (let h = HOOK_SYS_FUNC L Sys_read h in
      bindR (enabled h t) (\<lambda>(co, en).
      if \<not> en then sys_call Sys_read (l_read L fd nbyte) t h
      else
        (case get_by_fd h fd of
           None \<Rightarrow> sys_call Sys_read (l_read L fd nbyte) t h
         | Some lp \<Rightarrow>
             let timeout = timeout_ms_of (read_timeout lp) in
             read_result (read_loop (wait_io_ready L K sched t co fd POLL_READ timeout)
               (\<lambda>k. sys_call Sys_read (l_read L fd k) t) t nbyte 0 [] h))))"

definition recv_hook ::
  "'k libc \<Rightarrow> 'k kernel \<Rightarrow> 'k sched \<Rightarrow> 'k hooks \<Rightarrow> nat \<Rightarrow> int \<Rightarrow> nat \<Rightarrow> int \<Rightarrow> (int \<times> bytes \<times> 'k hooks) c_result" where
  "recv_hook L K sched h t socket len fl =
     (let h = HOOK_SYS_FUNC L Sys_recv h in
      bindR (enabled h t) (\<lambda>(co, en).
      if \<not> en then sys_call Sys_recv (l_recv L socket len fl) t h
      else
        (case get_by_fd h socket of
           None \<Rightarrow> sys_call Sys_recv (l_recv L socket len fl) t h
         | Some lp \<Rightarrow>
             let timeout = timeout_ms_of (read_timeout lp) in
             read_result (read_loop (wait_io_ready L K sched t co socket POLL_READ timeout)
               (\<lambda>k. sys_call Sys_recv (l_recv L socket k fl) t) t len 0 [] h))))"

text \<open>The loop of \<open>write\<close> and \<open>send\<close>: \<open>n\<close> bytes of the buffer have been accepted.\<close>

partial_function (option) write_loop ::
  "('k hooks \<Rightarrow> (int \<times> 'k hooks) c_result) \<Rightarrow> (bytes \<Rightarrow> 'k hooks \<Rightarrow> (int \<times> unit \<times> 'k hooks) c_result) \<Rightarrow> nat \<Rightarrow> bytes
   \<Rightarrow> int \<Rightarrow> nat \<Rightarrow> 'k hooks \<Rightarrow> (int \<times> nat \<times> 'k hooks) c_result option" where
  "write_loop wait call t buf ret n h =
     (if n < length buf then
        (case wait h of
           Inl e \<Rightarrow> Some (Inl e)
         | Inr (ret, h) \<Rightarrow>
             if ret \<le> 0 then Some (Inr (ret, n, h))
             else
               (case call (drop n buf) h of
                  Inl e \<Rightarrow> Some (Inl e)
                | Inr (ret, _, h) \<Rightarrow>
                    if ret < 0 \<and> errno h t \<noteq> EAGAIN \<or> ret = 0 then Some (Inr (ret, n, h))
                    else write_loop wait call t buf ret (if ret < 0 then n else n + nat ret) h))
      else Some (Inr (ret, n, h)))"

text \<open>The first attempt, which is made without waiting, and the loop.\<close>

definition write_all ::
  "('k hooks \<Rightarrow> (int \<times> 'k hooks) c_result) \<Rightarrow> (bytes \<Rightarrow> 'k hooks \<Rightarrow> (int \<times> unit \<times> 'k hooks) c_result) \<Rightarrow> nat \<Rightarrow> bytes
   \<Rightarrow> 'k hooks \<Rightarrow> (int \<times> 'k hooks) c_result" where
  "write_all wait call t buf h =
     bindR (call buf h) (\<lambda>(ret, _, h).
     if ret = 0 then Inr (ret, h)
     else
       case write_loop wait call t buf ret (if ret > 0 then nat ret else 0) h of
         None \<Rightarrow> Inl Diverges
       | Some r \<Rightarrow> bindR r (\<lambda>(ret, n, h). if ret \<le> 0 \<and> n = 0 then Inr (ret, h) else Inr (int n, h)))"

definition write_hook ::
  "'k libc \<Rightarrow> 'k kernel \<Rightarrow> 'k sched \<Rightarrow> 'k hooks \<Rightarrow> nat \<Rightarrow> int \<Rightarrow> bytes \<Rightarrow> (int \<times> 'k hooks) c_result" where
  "write_hook L K sched h t fd buf =
     (let h = HOOK_SYS_FUNC L Sys_write h;
          call = (\<lambda>b. sys_call Sys_write (l_write L fd b) t) in
      bindR (enabled h t) (\<lambda>(co, en).
      if \<not> en then bindR (call buf h) (\<lambda>(ret, _, h). Inr (ret, h))
      else
        (case get_by_fd h fd of
           None \<Rightarrow> bindR (call buf h) (\<lambda>(ret, _, h). Inr (ret, h))
         | Some lp \<Rightarrow>
             let timeout = timeout_ms_of (write_timeout lp) in
             write_all (wait_io_ready L K sched t co fd POLL_WRITE timeout) call t buf h)))"

definition send_hook ::
  "'k libc \<Rightarrow> 'k kernel \<Rightarrow> 'k sched \<Rightarrow> 'k hooks \<Rightarrow> nat \<Rightarrow> int \<Rightarrow> bytes \<Rightarrow> int \<Rightarrow> (int \<times> 'k hooks) c_result" where
  "send_hook L K sched h t socket buf fl =
     (let h = HOOK_SYS_FUNC L Sys_send h;
          call = (\<lambda>b. sys_call Sys_send (l_send L socket b fl) t) in
      bindR (enabled h t) (\<lambda>(co, en).
      if \<not> en then bindR (call buf h) (\<lambda>(ret, _, h). Inr (ret, h))
      else
        (case get_by_fd h socket of
           None \<Rightarrow> bindR (call buf h) (\<lambda>(ret, _, h). Inr (ret, h))
         | Some lp \<Rightarrow>
             let timeout = timeout_ms_of (write_timeout lp) in
             write_all (wait_io_ready L K sched t co socket POLL_WRITE timeout) call t buf h)))"

section \<open>Sending\<close>

text \<open>
  \<open>out\<close> is the sequence of bytes that have been accepted from the program on the descriptor. A call of
  the C library takes a prefix of what it is given and says how long it is.
\<close>

definition appends :: "(bytes \<Rightarrow> (unit, 'k) libcall) \<Rightarrow> ('k \<Rightarrow> bytes) \<Rightarrow> bool" where
  "appends c out \<longleftrightarrow> (\<forall>bs w r e w'. c bs w = ((r, e, ()), w') \<longrightarrow> r \<le> int (length bs) \<and> out w' = out w @ take (nat r) bs)"

lemma wait_keeps:
  assumes "kernel_keeps K obs" and "sched_keeps sched obs" and "libc_keeps L obs"
    and run: "wait_io_ready L K sched t co fd events timeout h = Inr (n, h')"
  shows "obs (world (hp h')) = obs (world (hp h))"
proof -
  note keep = poll_hook_keeps [OF assms(1-3)] close_hook_keeps [OF assms(3)]
  show ?thesis using run unfolding wait_io_ready_def Let_def split_beta
    by (elim bindR_E if_E; simp only: split_paired_all fst_conv snd_conv) (auto dest!: keep)
qed

lemmas write_loop_induct = write_loop.raw_induct [rotated, consumes 1, case_names step]

lemma write_loop_prefix:
  assumes "write_loop wait call t buf ret n h = Some r"
    and "\<And>h n h'. wait h = Inr (n, h') \<Longrightarrow> ob h' = ob h"
    and "\<And>bs h r h'. call bs h = Inr (r, (), h') \<Longrightarrow> r \<le> int (length bs) \<and> ob h' = ob h @ take (nat r) bs"
    and "n \<le> length buf" and "r = Inr (ret', n', h')"
  shows "n \<le> n' \<and> n' \<le> length buf \<and> ob h' = ob h @ take (n' - n) (drop n buf)"
  using assms
proof (induction wait call t buf ret n h r rule: write_loop_induct)
  case (step loop wait call t buf ret n h r)
  note laws = step.prems
  show ?case
  proof (cases "n < length buf")
    case True
    then obtain ret1 h1 where w: "wait h = Inr (ret1, h1)"
      using step.hyps step.prems(4) by (auto split: sum.splits)
    show ?thesis
    proof (cases "ret1 \<le> 0")
      case True
      then show ?thesis using step.hyps w laws \<open>n < length buf\<close> by auto
    next
      case False
      then obtain r2 h2 where c: "call (drop n buf) h1 = Inr (r2, (), h2)"
        using step.hyps step.prems(4) w \<open>n < length buf\<close> by (auto split: sum.splits)
      with w laws(1,2) have ob: "r2 \<le> int (length buf - n)" "ob h2 = ob h @ take (nat r2) (drop n buf)" by fastforce+
      show ?thesis
      proof (cases "r2 < 0 \<and> errno h2 t \<noteq> EAGAIN \<or> r2 = 0")
        case True
        then show ?thesis using step.hyps w c ob False laws \<open>n < length buf\<close> by auto
      next
        case more: False
        define m where "m = n + nat r2"
        then have m: "(if r2 < 0 then n else n + nat r2) = m" "m \<le> length buf" "n \<le> m" using ob(1) \<open>n < length buf\<close> by auto
        have "m \<le> n' \<and> n' \<le> length buf \<and> ob h' = ob h2 @ take (n' - m) (drop m buf)"
          by (rule step.IH [OF _ laws(1,2) m(2) laws(4)])
            (use step.hyps w c False more m(1) \<open>n < length buf\<close> in \<open>auto split: if_splits\<close>)
        then show ?thesis using ob(2) m take_add [of "m - n" "n' - m" "drop n buf"] by (auto simp: m_def add.commute)
      qed
    qed
  qed (use step in auto)
qed

lemma write_all_prefix:
  assumes wait: "\<And>h n h'. wait h = Inr (n, h') \<Longrightarrow> ob h' = ob h"
    and call: "\<And>bs h r h'. call bs h = Inr (r, (), h') \<Longrightarrow> r \<le> int (length bs) \<and> ob h' = ob h @ take (nat r) bs"
    and run: "write_all wait call t buf h = Inr (n, h')"
  shows "n \<le> int (length buf) \<and> ob h' = ob h @ take (nat n) buf"
proof -
  from run obtain r h1 where c: "call buf h = Inr (r, (), h1)" by (auto simp: write_all_def bindR_eq_Inr)
  note first = call [OF c]
  show ?thesis
  proof (cases "r = 0")
    case True
    then show ?thesis using run c first by (auto simp: write_all_def)
  next
    case False
    let ?n = "if r > 0 then nat r else 0"
    obtain r2 n2 h2 where l: "write_loop wait call t buf r ?n h1 = Some (Inr (r2, n2, h2))"
        "(n, h') = (if r2 \<le> 0 \<and> n2 = 0 then (r2, h2) else (int n2, h2))"
      using run c False by (auto simp: write_all_def bindR_eq_Inr split: option.splits if_splits)
    have "?n \<le> length buf" using first by auto
    from write_loop_prefix [of wait call t buf r ?n h1 _ ob, OF l(1) wait call this refl]
    have "nat r \<le> n2 \<and> n2 \<le> length buf \<and> ob h2 = ob h1 @ take (n2 - nat r) (drop (nat r) buf)" by (cases "r > 0") auto
    with first take_add [of "nat r" "n2 - nat r" buf] have "n2 \<le> length buf" "ob h2 = ob h @ take n2 buf" by auto
    then show ?thesis using l(2) by (auto split: if_splits)
  qed
qed

lemma sys_call_appends:
  assumes "appends c out" and "sys_call f (c bs) t h = Inr (r, (), h')"
  shows "r \<le> int (length bs) \<and> out (world (hp h')) = out (world (hp h)) @ take (nat r) bs"
  using assms(1) sys_call_world [OF assms(2)] by (auto simp: appends_def)

text \<open>Either the call of the C library is passed on, or the loop runs.\<close>

lemma write_hook_cases:
  assumes "write_hook L K sched h t fd buf = Inr (n, h')"
  shows "sys_call Sys_write (l_write L fd buf) t (HOOK_SYS_FUNC L Sys_write h) = Inr (n, (), h') \<or>
    (\<exists>co timeout. write_all (wait_io_ready L K sched t co fd POLL_WRITE timeout) (\<lambda>b. sys_call Sys_write (l_write L fd b) t) t buf
       (HOOK_SYS_FUNC L Sys_write h) = Inr (n, h'))"
  using assms by (auto simp: write_hook_def bindR_eq_Inr Let_def split: if_splits option.splits)

lemma send_hook_cases:
  assumes "send_hook L K sched h t fd buf fl = Inr (n, h')"
  shows "sys_call Sys_send (l_send L fd buf fl) t (HOOK_SYS_FUNC L Sys_send h) = Inr (n, (), h') \<or>
    (\<exists>co timeout. write_all (wait_io_ready L K sched t co fd POLL_WRITE timeout) (\<lambda>b. sys_call Sys_send (l_send L fd b fl) t) t buf
       (HOOK_SYS_FUNC L Sys_send h) = Inr (n, h'))"
  using assms by (auto simp: send_hook_def bindR_eq_Inr Let_def split: if_splits option.splits)

text \<open>
  C10. \<open>write\<close> and \<open>send\<close> never lose, repeat or reorder a byte, however often they wait and on every
  path: the bytes accepted from the program grow by exactly the first \<open>n\<close> bytes of the buffer, where
  \<open>n\<close> is the value returned, and by none if it is negative.
\<close>

theorem write_takes_prefix:
  assumes keep: "kernel_keeps K out" "sched_keeps sched out" "libc_keeps L out"
    and run: "write_hook L K sched h t fd buf = Inr (n, h') \<and> appends (l_write L fd) out \<or>
      send_hook L K sched h t fd buf fl = Inr (n, h') \<and> appends (\<lambda>bs. l_send L fd bs fl) out"
  shows "n \<le> int (length buf) \<and> out (world (hp h')) = out (world (hp h)) @ take (nat n) buf"
proof -
  let ?Q = "n \<le> int (length buf) \<and> out (world (hp h')) = out (world (hp h)) @ take (nat n) buf"
  have all: ?Q if "write_all (wait_io_ready L K sched t co fd POLL_WRITE timeout) (\<lambda>b. sys_call f (c b) t) t buf (HOOK_SYS_FUNC L f h) = Inr (n, h')"
      "appends c out" for co timeout f c
    using write_all_prefix [of _ "\<lambda>h. out (world (hp h))", OF wait_keeps [OF keep] sys_call_appends [OF that(2)] that(1)] by simp
  have one: ?Q if "sys_call f (c buf) t (HOOK_SYS_FUNC L f h) = Inr (n, (), h')" "appends c out" for f c
    using sys_call_appends [OF that(2,1)] by simp
  from run show ?thesis
    using write_hook_cases [of L K sched h t fd buf n h'] send_hook_cases [of L K sched h t fd buf fl n h']
      one [of Sys_write "l_write L fd"] one [of Sys_send "\<lambda>bs. l_send L fd bs fl"]
      all [of _ _ Sys_write "l_write L fd"] all [of _ _ Sys_send "\<lambda>bs. l_send L fd bs fl"] by blast
qed

text \<open>
  The thread of \<open>late_process\<close>, whose task has used up its time, with a world of another type, and a
  descriptor \<open>9\<close> that is hooked.
\<close>

definition io_process :: "'k \<Rightarrow> 'k process" where
  "io_process w = \<lparr>gOptions = gOptions late_process, gEnv = gEnv late_process, coroutines = coroutines late_process,
     tasks = tasks late_process, polls = polls late_process, heap = heap late_process, brk = 0, next_id = next_id late_process,
     running = running late_process, restored = [], c_errno = (\<lambda>_. 0), world = w\<rparr>"

definition io_hooks :: "'k \<Rightarrow> 'k hooks" where
  "io_hooks w = \<lparr>hp = io_process w, g_sys = (\<lambda>_. False), gSocketFd = [9 \<mapsto> new_rpchook], hostbufs = Map.empty, hostbuf_key = 0\<rparr>"

definition quiet_kernel :: "'k kernel" where
  "quiet_kernel = \<lparr>k_gettimeofday = (\<lambda>w. ((5, 0), w)), k_epoll_create = (\<lambda>_ w. (3, w)),
     k_epoll_ctl = (\<lambda>_ _ _ _ w. ((0, 0), w)), k_epoll_wait = (\<lambda>_ _ _ w. (Inr [], w)),
     k_pthread_getspecific = (\<lambda>_ _ w. (NullPtr, w)), k_pthread_setspecific = (\<lambda>_ _ _ w. (0, w))\<rparr>"

text \<open>A C library in which nothing happens but what the last two arguments say: reading and writing.\<close>

definition io_libc :: "(nat \<Rightarrow> (bytes, 'k) libcall) \<Rightarrow> (bytes \<Rightarrow> (unit, 'k) libcall) \<Rightarrow> 'k libc" where
  "io_libc rd wr = \<lparr>l_dlsym = (\<lambda>_. True), l_socket = (\<lambda>_ _ _ w. ((9, 0, ()), w)), l_accept = (\<lambda>_ w. ((9, 0, ()), w)),
     l_connect = (\<lambda>_ _ w. ((0, 0, ()), w)), l_close = (\<lambda>_ w. ((0, 0, ()), w)),
     l_select = (\<lambda>_ r s e _ w. ((0, 0, r, s, e), w)), l_sleep = (\<lambda>_ w. ((0, 0, ()), w)), l_usleep = (\<lambda>_ w. ((0, 0, ()), w)),
     l_nanosleep = (\<lambda>_ _ w. ((0, 0, ()), w)), l_read = (\<lambda>_. rd), l_write = (\<lambda>_. wr), l_send = (\<lambda>_ bs _. wr bs),
     l_recv = (\<lambda>_ k _. rd k), l_poll = (\<lambda>fds _ _ w. ((0, 0, fds), w)), l_setsockopt = (\<lambda>_ _ _ _ w. ((0, 0, ()), w)),
     l_fcntl = (\<lambda>_ _ _ w. ((0, 0, ()), w)), l_gethostbyname = (\<lambda>_ w. ((0, 0, []), w)),
     l_gethostbyname_r = (\<lambda>_ _ w. ((0, 0, None), w)), l_pthread_key_create = (\<lambda>w. (Some 0, w)), l_signal = (\<lambda>_ _ w. w)\<rparr>"

lemma io_keeps: "kernel_keeps quiet_kernel obs" "libc_keeps (io_libc rd wr) obs" "sched_keeps (\<lambda>_. Inr) obs"
  by (simp_all add: kernel_keeps_def libc_keeps_def sched_keeps_def quiet_kernel_def io_libc_def)

section \<open>A task that has used up its time\<close>

definition expired :: "'k hooks \<Rightarrow> nat \<Rightarrow> nat \<Rightarrow> bool" where
  "expired h t c \<longleftrightarrow> enabled h t = Inr (Some c, True) \<and> coroutine_self (hp h) t = Inr (Some c) \<and>
     (\<exists>co k tk. coroutines (hp h) c = Some co \<and> co_task co = Some k \<and> tasks (hp h) k = Some tk \<and> tk_timeout tk \<and>
        at_max_timeout_ms (tk_attr tk) \<noteq> -1)"

text \<open>It no longer waits: \<open>poll\<close> returns \<open>-1\<close> at once, which \<open>wait_io_ready\<close> takes for a descriptor that is ready.\<close>

lemma poll_expired:
  assumes "expired h t c"
  shows "poll_hook L K sched h t fds nfds timeout = Inr (-1, fds, HOOK_SYS_FUNC L Sys_poll h)"
proof -
  from assms have en: "enabled h t = Inr (Some c, True)" "coroutine_self (hp h) t = Inr (Some c)"
    "fix_coroutine_timeout (hp h) t (Some c) timeout = Inr (0, True, hp h)"
    by (auto simp: expired_def fix_coroutine_timeout_def get_co_def get_task_def Let_def)
  from enabled_env [OF en(1), of K] obtain e where "get_epoll_context K (hp h) t = Inr (e, hp h)" by auto
  with en show ?thesis by (simp add: poll_hook_def Let_def poll_inner_def poll_enter_def)
qed

lemma wait_expired:
  "expired h t c \<Longrightarrow> wait_io_ready L K sched t co fd events timeout h = Inr (1, HOOK_SYS_FUNC L Sys_poll h)"
  by (simp add: wait_io_ready_def Let_def poll_expired)

lemma expired_HOOK [simp]: "expired (HOOK_SYS_FUNC L f h) t c = expired h t c"
  by (simp add: expired_def)

lemma io_expired: "expired (io_hooks w) 7 2"
proof -
  have "stack_ok late_process 7 [0, 2]" by (rule pool_ok_parts(1) [OF late_process_ok])
  then have "stack_ok (io_process w) 7 [0, 2]" by (auto simp: stack_ok_def env_stack_def co_of_def saved_def io_process_def)
  then have "coroutine_self (io_process w) 7 = Inr (Some 2)" using self_is_running(1) by fastforce
  moreover have "coroutines (io_process w) 2 = Some (pool_co 5)" "co_task (pool_co 5) = Some 5"
    "\<exists>tk. tasks (io_process w) 5 = Some tk \<and> tk_timeout tk \<and> tk_attr tk = demo_attr"
    by (simp_all add: io_process_def late_process_def pool_process_def pool_co_def)
  ultimately show ?thesis
    by (auto simp: expired_def enabled_def io_hooks_def is_enable_sys_hook_def get_co_def get_task_def demo_attr_def)
qed

lemma write_loop_completes:
  assumes wait: "\<And>h. J h \<Longrightarrow> \<exists>h'. wait h = Inr (1, h') \<and> J h' \<and> stall h' \<le> stall h"
    and call: "\<And>bs h. J h \<Longrightarrow> bs \<noteq> [] \<Longrightarrow> \<exists>r h'. call bs h = Inr (r, (), h') \<and> J h' \<and>
      (0 < r \<and> r \<le> int (length bs) \<or> r < 0 \<and> errno h' t = EAGAIN \<and> stall h' < (stall h :: nat))"
  shows "J h \<Longrightarrow> n \<le> length buf \<Longrightarrow> \<exists>ret' h'. write_loop wait call t buf ret n h = Some (Inr (ret', length buf, h')) \<and> J h'"
proof (induction "(length buf - n, stall h)" arbitrary: n h ret rule: wf_induct [OF wf_lex_prod [OF wf_less_than wf_less_than]])
  case 1
  then have IH: "\<exists>ret' h'. write_loop wait call t buf ret2 m h2 = Some (Inr (ret', length buf, h')) \<and> J h'"
    if "length buf - m < length buf - n \<or> m = n \<and> stall h2 < stall h" "J h2" "m \<le> length buf" for m h2 ret2
    using that by auto
  show ?case
  proof (cases "n < length buf")
    case True
    obtain h1 where h1: "wait h = Inr (1, h1)" "J h1" "stall h1 \<le> stall h" using wait 1(2) by blast
    obtain r h2 where h2: "call (drop n buf) h1 = Inr (r, (), h2)" "J h2"
      "0 < r \<and> r \<le> int (length buf - n) \<or> r < 0 \<and> errno h2 t = EAGAIN \<and> stall h2 < stall h1"
      using call [OF h1(2), of "drop n buf"] True by auto
    have "\<exists>ret' h'. write_loop wait call t buf r (if r < 0 then n else n + nat r) h2 = Some (Inr (ret', length buf, h')) \<and> J h'"
      by (rule IH) (use h1(3) h2(2,3) True in auto)
    then show ?thesis using True h1(1) h2(1,3) by (subst write_loop.simps) auto
  next
    case False
    then show ?thesis using 1(2,3) by (subst write_loop.simps) auto
  qed
qed

lemma write_all_completes:
  assumes wait: "\<And>h. J h \<Longrightarrow> \<exists>h'. wait h = Inr (1, h') \<and> J h' \<and> stall h' \<le> stall h"
    and call: "\<And>bs h. J h \<Longrightarrow> bs \<noteq> [] \<Longrightarrow> \<exists>r h'. call bs h = Inr (r, (), h') \<and> J h' \<and>
      (0 < r \<and> r \<le> int (length bs) \<or> r < 0 \<and> errno h' t = EAGAIN \<and> stall h' < (stall h :: nat))"
    and J: "J h" and buf: "buf \<noteq> []"
  shows "\<exists>h'. write_all wait call t buf h = Inr (int (length buf), h') \<and> J h'"
proof -
  obtain r h1 where c: "call buf h = Inr (r, (), h1)" "J h1" "r \<noteq> 0" "r \<le> int (length buf)"
    using call [OF J buf] by (metis of_nat_0_le_iff order.trans less_imp_le less_irrefl)
  have "(if r > 0 then nat r else 0) \<le> length buf" using c(4) by auto
  from write_loop_completes [of J wait stall call t h1 _ buf r, OF wait call c(2) this]
  obtain ret' h' where "write_loop wait call t buf r (if r > 0 then nat r else 0) h1 = Some (Inr (ret', length buf, h'))" "J h'"
    by auto
  then show ?thesis using c buf by (auto simp: write_all_def)
qed

lemma sys_call_expired: "sys_call f c t h = Inr (r, a, h') \<Longrightarrow> expired h t k \<Longrightarrow> expired h' t k \<and> g_sys h' = g_sys h"
  by (auto simp: sys_call_def Let_def split_beta set_errno_def expired_def enabled_def is_enable_sys_hook_def coroutine_self_def
      get_curr_thread_env_def get_env_def get_co_def get_task_def split: if_splits)

text \<open>A library that accepts two bytes at a time and keeps them.\<close>

definition two_bytes :: "bytes \<Rightarrow> (unit, bytes) libcall" where
  "two_bytes bs w = ((int (min 2 (length bs)), 0, ()), w @ take 2 bs)"

definition two_libc :: "bytes libc" where
  "two_libc = io_libc (\<lambda>_ w. ((0, 0, []), w)) two_bytes"

lemma two_bytes_progress:
  assumes "expired h 7 2 \<and> g_sys h Sys_write" and "bs \<noteq> []"
  shows "\<exists>r h'. sys_call Sys_write (l_write two_libc 9 bs) 7 h = Inr (r, (), h') \<and> (expired h' 7 2 \<and> g_sys h' Sys_write) \<and>
    (0 < r \<and> r \<le> int (length bs) \<or> r < 0 \<and> errno h' 7 = EAGAIN \<and> (0 :: nat) < 0)"
proof -
  let ?r = "int (min 2 (length bs))" and ?h = "h\<lparr>hp := (hp h)\<lparr>world := world (hp h) @ take 2 bs\<rparr>\<rparr>"
  have "sys_call Sys_write (l_write two_libc 9 bs) 7 h = Inr (?r, (), ?h)"
    using assms by (simp add: sys_call_def two_libc_def io_libc_def two_bytes_def)
  with sys_call_expired [OF this] assms show ?thesis by (cases bs) auto
qed

lemma HOOK_SYS_FUNC_sets: "l_dlsym L f \<Longrightarrow> g_sys (HOOK_SYS_FUNC L f h) f"
  by (auto simp: HOOK_SYS_FUNC_def)

lemma HOOK_SYS_FUNC_keeps: "g_sys h f \<Longrightarrow> g_sys (HOOK_SYS_FUNC L g h) f"
  by (auto simp: HOOK_SYS_FUNC_def)

lemma two_bytes_wait:
  "expired h 7 2 \<and> g_sys h Sys_write \<Longrightarrow> \<exists>h'. wait_io_ready two_libc quiet_kernel (\<lambda>_. Inr) 7 (Some 2) 9 POLL_WRITE ms h = Inr (1, h') \<and>
    (expired h' 7 2 \<and> g_sys h' Sys_write) \<and> (0 :: nat) \<le> 0"
  by (auto simp: wait_expired HOOK_SYS_FUNC_keeps)

lemma io_start: "enabled (io_hooks w) 7 = Inr (Some 2, True)" "get_by_fd (io_hooks w) 9 = Some new_rpchook"
  "expired (HOOK_SYS_FUNC L f (io_hooks w)) 7 2" "g_sys (HOOK_SYS_FUNC (io_libc rd wr) f (io_hooks w)) f"
  using io_expired [of w] by (simp_all add: expired_def) (simp_all add: get_by_fd_def io_hooks_def gSocketFd_size_def HOOK_SYS_FUNC_def io_libc_def)

lemma two_start: "expired (HOOK_SYS_FUNC two_libc Sys_write (io_hooks w)) 7 2 \<and> g_sys (HOOK_SYS_FUNC two_libc Sys_write (io_hooks w)) Sys_write"
  unfolding two_libc_def by (intro conjI io_start)

theorem write_takes_prefix_witness:
  "\<exists>h'. write_hook two_libc quiet_kernel (\<lambda>_. Inr) (io_hooks []) 7 9 [1, 2, 3] = Inr (3, h') \<and> world (hp h') = [1, 2, 3]"
proof -
  have "\<exists>h'. write_all (wait_io_ready two_libc quiet_kernel (\<lambda>_. Inr) 7 (Some 2) 9 POLL_WRITE ms) (\<lambda>b. sys_call Sys_write (l_write two_libc 9 b) 7)
      7 [1, 2, 3] (HOOK_SYS_FUNC two_libc Sys_write (io_hooks [])) = Inr (int (length [1, 2, 3 :: 8 word]), h') \<and>
      expired h' 7 2 \<and> g_sys h' Sys_write" for ms
    by (rule write_all_completes [where J = "\<lambda>h. expired h 7 2 \<and> g_sys h Sys_write" and stall = "\<lambda>_. 0", OF two_bytes_wait two_bytes_progress two_start]) simp_all
  then obtain h' where run: "write_hook two_libc quiet_kernel (\<lambda>_. Inr) (io_hooks []) 7 9 [1, 2, 3] = Inr (3, h')"
    using io_start(1,2) [of "[] :: bytes"] by (simp add: write_hook_def Let_def) blast
  have "appends (l_write two_libc 9) id" by (auto simp: appends_def two_libc_def io_libc_def two_bytes_def min_def)
  moreover have "kernel_keeps quiet_kernel (id :: bytes \<Rightarrow> bytes)" "sched_keeps (\<lambda>_. Inr) (id :: bytes \<Rightarrow> bytes)" "libc_keeps two_libc id"
    unfolding two_libc_def by (rule io_keeps)+
  ultimately have "id (world (hp h')) = id (world (hp (io_hooks []))) @ take (nat 3) [1, 2, 3]"
    using write_takes_prefix [of quiet_kernel id "\<lambda>_. Inr" two_libc "io_hooks []" 7 9 "[1, 2, 3]" 3 h' 0] run by blast
  with run show ?thesis by (simp add: io_hooks_def io_process_def)
qed

section \<open>Receiving\<close>

text \<open>\<open>got\<close> is the sequence of bytes that have been handed to the program.\<close>

definition receives :: "(nat \<Rightarrow> (bytes, 'k) libcall) \<Rightarrow> ('k \<Rightarrow> bytes) \<Rightarrow> bool" where
  "receives c got \<longleftrightarrow> (\<forall>k w r e bs w'. c k w = ((r, e, bs), w') \<longrightarrow> r \<le> int k \<and> length bs = nat r \<and> got w' = got w @ bs)"

lemma sys_call_receives:
  assumes "receives c got" and "sys_call f (c k) t h = Inr (r, bs, h')"
  shows "r \<le> int k \<and> length bs = nat r \<and> got (world (hp h')) = got (world (hp h)) @ bs"
  using assms(1) sys_call_world [OF assms(2)] by (auto simp: receives_def)

lemmas read_loop_induct = read_loop.raw_induct [rotated, consumes 1, case_names step]

lemma read_loop_delivers:
  assumes "read_loop wait call t nbyte n buf h = Some r"
    and "\<And>h n h'. wait h = Inr (n, h') \<Longrightarrow> ob h' = ob h"
    and "\<And>k h r bs h'. call k h = Inr (r, bs, h') \<Longrightarrow> r \<le> int k \<and> length bs = nat r \<and> ob h' = ob h @ bs"
    and "n = 0" and "buf = []" and "r = Inr (rdy', n', buf', h')"
  shows "n' = int (length buf') \<and> n' \<le> int nbyte \<and> ob h' = ob h @ buf'"
  using assms
proof (induction wait call t nbyte n buf h r rule: read_loop_induct)
  case (step loop wait call t nbyte n buf h r)
  note laws = step.prems
  obtain rdy h1 where w: "wait h = Inr (rdy, h1)"
    using step.hyps step.prems(5) by (auto split: sum.splits)
  show ?case
  proof (cases "rdy \<le> 0")
    case True
    then show ?thesis using step.hyps w laws by auto
  next
    case False
    then obtain r2 bs h2 where c: "call nbyte h1 = Inr (r2, bs, h2)"
      using step.hyps step.prems(3-5) w by (auto split: sum.splits)
    with w laws(1,2) have ob: "r2 \<le> int nbyte" "length bs = nat r2" "ob h2 = ob h @ bs" by fastforce+
    consider "r2 > 0" | "r2 = 0 \<or> r2 < 0 \<and> errno h2 t \<noteq> EAGAIN \<or> nbyte = 0" | "r2 < 0" "errno h2 t = EAGAIN" "nbyte > 0" by linarith
    then show ?thesis
    proof cases
      case 3
      have "n' = int (length buf') \<and> n' \<le> int nbyte \<and> ob h' = ob h2 @ buf'"
        by (rule step.IH [OF _ laws(1,2) _ _ laws(5)]) (use step.hyps w c False 3 laws(3,4) in auto)
      then show ?thesis using ob 3 by simp
    qed (use step.hyps w c ob False laws(3-5) in \<open>auto split: if_splits\<close>)
  qed
qed

lemma read_result_delivers:
  assumes wait: "\<And>h n h'. wait h = Inr (n, h') \<Longrightarrow> ob h' = ob h"
    and call: "\<And>k h r bs h'. call k h = Inr (r, bs, h') \<Longrightarrow> r \<le> int k \<and> length bs = nat r \<and> ob h' = ob h @ bs"
    and run: "read_result (read_loop wait call t nbyte 0 [] h) = Inr (n, buf, h')"
  shows "n \<le> int nbyte \<and> length buf = nat n \<and> ob h' = ob h @ buf"
proof -
  from run obtain rdy m where l: "read_loop wait call t nbyte 0 [] h = Some (Inr (rdy, m, buf, h'))"
      "n = (if rdy \<le> 0 \<and> m = 0 then rdy else m)"
    by (auto simp: read_result_def bindR_eq_Inr split: option.splits if_splits)
  have "m = int (length buf) \<and> m \<le> int nbyte \<and> ob h' = ob h @ buf"
    by (rule read_loop_delivers [of wait call t nbyte 0 "[]" h _ ob, OF l(1) wait call refl refl refl])
  with l(2) show ?thesis by (auto split: if_splits)
qed

lemma read_hook_cases:
  assumes "read_hook L K sched h t fd nbyte = Inr (n, buf, h')"
  shows "sys_call Sys_read (l_read L fd nbyte) t (HOOK_SYS_FUNC L Sys_read h) = Inr (n, buf, h') \<or>
    (\<exists>co timeout. read_result (read_loop (wait_io_ready L K sched t co fd POLL_READ timeout) (\<lambda>k. sys_call Sys_read (l_read L fd k) t) t nbyte 0 []
       (HOOK_SYS_FUNC L Sys_read h)) = Inr (n, buf, h'))"
  using assms by (auto simp: read_hook_def bindR_eq_Inr Let_def split: if_splits option.splits)

lemma recv_hook_cases:
  assumes "recv_hook L K sched h t fd nbyte fl = Inr (n, buf, h')"
  shows "sys_call Sys_recv (l_recv L fd nbyte fl) t (HOOK_SYS_FUNC L Sys_recv h) = Inr (n, buf, h') \<or>
    (\<exists>co timeout. read_result (read_loop (wait_io_ready L K sched t co fd POLL_READ timeout) (\<lambda>k. sys_call Sys_recv (l_recv L fd k fl) t) t nbyte 0 []
       (HOOK_SYS_FUNC L Sys_recv h)) = Inr (n, buf, h'))"
  using assms by (auto simp: recv_hook_def bindR_eq_Inr Let_def split: if_splits option.splits)

text \<open>
  C16. What \<open>read\<close> and \<open>recv\<close> leave in the buffer is exactly what was taken from the descriptor, on every
  path: a value \<open>n > 0\<close> comes with \<open>n\<close> bytes, at most the size of the buffer, and no byte is taken
  from the descriptor when the value is zero or negative.
\<close>

theorem read_delivers:
  assumes keep: "kernel_keeps K got" "sched_keeps sched got" "libc_keeps L got"
    and run: "read_hook L K sched h t fd nbyte = Inr (n, buf, h') \<and> receives (l_read L fd) got \<or>
      recv_hook L K sched h t fd nbyte fl = Inr (n, buf, h') \<and> receives (\<lambda>k. l_recv L fd k fl) got"
  shows "n \<le> int nbyte \<and> length buf = nat n \<and> got (world (hp h')) = got (world (hp h)) @ buf"
proof -
  let ?Q = "n \<le> int nbyte \<and> length buf = nat n \<and> got (world (hp h')) = got (world (hp h)) @ buf"
  have all: ?Q if "read_result (read_loop (wait_io_ready L K sched t co fd POLL_READ timeout) (\<lambda>k. sys_call f (c k) t) t nbyte 0 []
      (HOOK_SYS_FUNC L f h)) = Inr (n, buf, h')" "receives c got" for co timeout f c
    using read_result_delivers [of _ "\<lambda>h. got (world (hp h))", OF wait_keeps [OF keep] sys_call_receives [OF that(2)] that(1)] by simp
  have one: ?Q if "sys_call f (c nbyte) t (HOOK_SYS_FUNC L f h) = Inr (n, buf, h')" "receives c got" for f c
    using sys_call_receives [OF that(2,1)] by simp
  from run show ?thesis
    using read_hook_cases [of L K sched h t fd nbyte n buf h'] recv_hook_cases [of L K sched h t fd nbyte fl n buf h']
      one [of Sys_read "l_read L fd"] one [of Sys_recv "\<lambda>k. l_recv L fd k fl"]
      all [of _ _ Sys_read "l_read L fd"] all [of _ _ Sys_recv "\<lambda>k. l_recv L fd k fl"] by blast
qed

text \<open>A library that hands out one byte at a time, the successor of the one before.\<close>

definition one_byte :: "nat \<Rightarrow> (bytes, bytes) libcall" where
  "one_byte k w = (if k = 0 then ((0, 0, []), w) else ((1, 0, [word_of_nat (length w)]), w @ [word_of_nat (length w)]))"

definition one_libc :: "bytes libc" where
  "one_libc = io_libc one_byte two_bytes"

theorem read_delivers_witness:
  "\<exists>h'. read_hook one_libc quiet_kernel (\<lambda>_. Inr) (io_hooks [7]) 7 9 100 = Inr (1, [1], h') \<and> world (hp h') = [7, 1]"
proof -
  let ?h = "HOOK_SYS_FUNC one_libc Sys_poll (HOOK_SYS_FUNC one_libc Sys_read (io_hooks [7]))"
  let ?h' = "?h\<lparr>hp := (hp ?h)\<lparr>world := [7, 1]\<rparr>\<rparr>"
  have "g_sys (HOOK_SYS_FUNC one_libc Sys_read (io_hooks [7])) Sys_read" unfolding one_libc_def by (rule io_start(4))
  then have "sys_call Sys_read (l_read one_libc 9 100) 7 ?h = Inr (1, [1], ?h')"
    by (simp add: HOOK_SYS_FUNC_keeps sys_call_def one_libc_def io_libc_def one_byte_def io_hooks_def io_process_def Let_def)
  then have run: "read_hook one_libc quiet_kernel (\<lambda>_. Inr) (io_hooks [7]) 7 9 100 = Inr (1, [1], ?h')"
    by (simp add: io_start io_expired read_hook_def Let_def read_result_def read_loop.simps [of "wait_io_ready _ _ _ _ _ _ _ _"] wait_expired [OF io_start(3)])
  have "receives (l_read one_libc 9) id"
    by (auto simp: receives_def one_libc_def io_libc_def one_byte_def split: if_splits)
  moreover have "kernel_keeps quiet_kernel (id :: bytes \<Rightarrow> bytes)" "sched_keeps (\<lambda>_. Inr) (id :: bytes \<Rightarrow> bytes)" "libc_keeps one_libc id"
    unfolding one_libc_def by (rule io_keeps)+
  ultimately have "id (world (hp ?h')) = id (world (hp (io_hooks [7]))) @ [1]"
    using read_delivers [of quiet_kernel id "\<lambda>_. Inr" one_libc "io_hooks [7]" 7 9 100 1 "[1]" ?h' 0] run by blast
  with run show ?thesis by (simp add: io_hooks_def io_process_def)
qed

section \<open>Failures\<close>

text \<open>
  C31. \<open>read\<close> and \<open>recv\<close> do not report that the C library failed: an error other than "try again" gives
  the value zero, which is the value for the end of the file. (\<open>write\<close> and \<open>send\<close> do report it.)
\<close>

theorem read_hides_errors:
  assumes en: "enabled h t = Inr (co, True)" and lp: "get_by_fd h fd = Some lp"
    and wait: "wait_io_ready L K sched t co fd POLL_READ (timeout_ms_of (read_timeout lp)) (HOOK_SYS_FUNC L f h) = Inr (1, h1)"
    and call: "sys_call f c t h1 = Inr (r, bs, h2)" and err: "r < 0" "errno h2 t \<noteq> EAGAIN"
    and f: "f = Sys_read \<and> c = l_read L fd nbyte \<or> f = Sys_recv \<and> c = l_recv L fd nbyte fl"
  shows "if f = Sys_read then read_hook L K sched h t fd nbyte = Inr (0, [], h2) else recv_hook L K sched h t fd nbyte fl = Inr (0, [], h2)"
proof -
  have "read_result (read_loop (wait_io_ready L K sched t co fd POLL_READ (timeout_ms_of (read_timeout lp))) call t nbyte 0 [] (HOOK_SYS_FUNC L f h))
      = Inr (0, [], h2)" if "call nbyte h1 = Inr (r, bs, h2)" for call
    using wait that err by (simp add: read_result_def read_loop.simps [of "wait_io_ready _ _ _ _ _ _ _ _"])
  with f call en lp show ?thesis by (auto simp: read_hook_def recv_hook_def Let_def)
qed

lemma failing_read:
  "sys_call Sys_read (l_read (io_libc (\<lambda>_ w. ((-1, e, []), w)) two_bytes) 9 k) 7
     (HOOK_SYS_FUNC (io_libc (\<lambda>_ w. ((-1, e, []), w)) two_bytes) Sys_poll
       (HOOK_SYS_FUNC (io_libc (\<lambda>_ w. ((-1, e, []), w)) two_bytes) Sys_read (io_hooks w))) =
   Inr (-1, [], set_errno 7 e (HOOK_SYS_FUNC (io_libc (\<lambda>_ w. ((-1, e, []), w)) two_bytes) Sys_poll
       (HOOK_SYS_FUNC (io_libc (\<lambda>_ w. ((-1, e, []), w)) two_bytes) Sys_read (io_hooks w))))"
  by (simp add: sys_call_def HOOK_SYS_FUNC_def io_libc_def io_hooks_def)

theorem read_hides_errors_witness:
  "\<exists>h'. read_hook (io_libc (\<lambda>_ w. ((-1, EBADF, []), w)) two_bytes) quiet_kernel (\<lambda>_. Inr) (io_hooks []) 7 9 100 = Inr (0, [], h')"
  using read_hides_errors [OF io_start(1,2) wait_expired [OF io_start(3)] failing_read [where e = EBADF and w = "[]" and k = 100],
      where nbyte = 100 and K = quiet_kernel and sched = "\<lambda>_. Inr"]
  by (auto simp: errno_defs)

lemma read_loop_spins:
  assumes "read_loop wait call t nbyte n buf h = Some r"
    and "\<And>h. J h \<Longrightarrow> \<exists>h'. wait h = Inr (1, h') \<and> J h'"
    and "\<And>k h. J h \<Longrightarrow> \<exists>r bs h'. call k h = Inr (r, bs, h') \<and> J h' \<and> r < 0 \<and> errno h' t = EAGAIN"
    and "J h" and "n = 0" and "0 < nbyte"
  shows False
  using assms
proof (induction wait call t nbyte n buf h r rule: read_loop_induct)
  case (step loop wait call t nbyte n buf h r)
  obtain h1 where w: "wait h = Inr (1, h1)" "J h1" using step.prems(1,3) by blast
  obtain r2 bs h2 where c: "call (nat (int nbyte - n)) h1 = Inr (r2, bs, h2)" "J h2" "r2 < 0" "errno h2 t = EAGAIN"
    using step.prems(2) w(2) by blast
  have "loop wait call t nbyte n buf h2 = Some r" using step.hyps w(1) c step.prems(4,5) by auto
  from step.IH [OF this step.prems(1,2) c(2) step.prems(4,5)] show ?case by simp
qed

text \<open>
  C30. Once its task has used up its time, a coroutine that reads from a descriptor on which the C library
  has nothing to read, and goes on having nothing (every call fails with \<open>EAGAIN\<close>), never gives up the
  processor again: \<open>poll\<close> returns \<open>-1\<close> at once, \<open>wait_io_ready\<close> takes
  that for a descriptor that is ready, and the loop of \<open>read\<close> and \<open>recv\<close> runs for ever.
\<close>

theorem read_spins_after_timeout:
  assumes exp: "expired h t c" and lp: "get_by_fd h fd = Some lp" and sys: "l_dlsym L Sys_read" "l_dlsym L Sys_recv"
    and again: "\<And>k w. \<exists>bs w'. l_read L fd k w = ((-1, EAGAIN, bs), w')" "\<And>k w. \<exists>bs w'. l_recv L fd k fl w = ((-1, EAGAIN, bs), w')"
    and n: "0 < nbyte"
  shows "read_hook L K sched h t fd nbyte = Inl Diverges \<and> recv_hook L K sched h t fd nbyte fl = Inl Diverges"
proof -
  have None: "read_loop (wait_io_ready L K sched t (Some c) fd POLL_READ ms) (\<lambda>k. sys_call f (cl k) t) t nbyte 0 [] (HOOK_SYS_FUNC L f h) = None"
    if cl: "\<And>k w. \<exists>bs w'. cl k w = ((-1, EAGAIN, bs), w')" and f: "l_dlsym L f" for f cl ms
  proof -
    let ?J = "\<lambda>h. expired h t c \<and> g_sys h f"
    have wait: "\<exists>h'. wait_io_ready L K sched t (Some c) fd POLL_READ ms h = Inr (1, h') \<and> ?J h'" if "?J h" for h
      using that by (auto simp: wait_expired HOOK_SYS_FUNC_keeps)
    have call: "\<exists>r bs h'. sys_call f (cl k) t h = Inr (r, bs, h') \<and> ?J h' \<and> r < 0 \<and> errno h' t = EAGAIN" if "?J h" for k h
    proof -
      obtain bs w' where "cl k (world (hp h)) = ((-1, EAGAIN, bs), w')" using cl by blast
      then have "sys_call f (cl k) t h = Inr (-1, bs, set_errno t EAGAIN (h\<lparr>hp := (hp h)\<lparr>world := w'\<rparr>\<rparr>))"
        using that by (simp add: sys_call_def)
      with sys_call_expired [OF this] that show ?thesis by auto
    qed
    have "?J (HOOK_SYS_FUNC L f h)" using exp f by (simp add: HOOK_SYS_FUNC_sets)
    with read_loop_spins [of _ _ t nbyte 0 "[]" "HOOK_SYS_FUNC L f h" _ ?J, OF _ wait call] n show ?thesis
      by (meson not_None_eq)
  qed
  have "enabled h t = Inr (Some c, True)" using exp by (simp add: expired_def)
  with None [OF again(1) sys(1)] None [OF again(2) sys(2)] lp show ?thesis
    by (simp add: read_hook_def recv_hook_def Let_def read_result_def)
qed

theorem read_spins_after_timeout_witness:
  "read_hook (io_libc (\<lambda>_ w. ((-1, EAGAIN, []), w)) two_bytes) quiet_kernel (\<lambda>_. Inr) (io_hooks []) 7 9 100 = Inl Diverges"
  using read_spins_after_timeout [OF io_expired io_start(2), of "io_libc (\<lambda>_ w. ((-1, EAGAIN, []), w)) two_bytes" 0 100 quiet_kernel "\<lambda>_. Inr"]
  by (simp add: io_libc_def)

end
