(* ===== verification/Hook_Wait.thy ===== *)
theory Hook_Wait
  imports Hook_IO
begin

text \<open>
  What \<open>wait_io_ready\<close> does for a coroutine whose task has no time limit, on a thread that is well formed:
  it gives up the processor, comes back when it is resumed, and always reports that the descriptor is ready.
  With this, the loops of \<open>write\<close> and \<open>send\<close> end whenever the descriptor makes progress.
\<close>

section \<open>A coroutine that may wait\<close>

text \<open>The task of the coroutine has hooks and no time limit.\<close>

definition unlimited :: "'k process \<Rightarrow> nat \<Rightarrow> bool" where
  "unlimited p c \<longleftrightarrow> (\<exists>co k tk. coroutines p c = Some co \<and> co_task co = Some k \<and> tasks p k = Some tk \<and>
     at_max_timeout_ms (tk_attr tk) = -1 \<and> at_enable_sys_hook (tk_attr tk) \<and> \<not> tk_timeout tk)"

text \<open>
  The coroutine \<open>c\<close> runs, above \<open>a\<close>, on a well-formed thread. \<open>win\<close> is what is known of the clock: that it
  is near the start of the wheel.
\<close>

definition may_wait :: "(epoll_timer_t \<Rightarrow> 'k \<Rightarrow> bool) \<Rightarrow> 'k process \<Rightarrow> nat \<Rightarrow> nat list \<Rightarrow> nat \<Rightarrow> nat \<Rightarrow> bool" where
  "may_wait win p t xs a c \<longleftrightarrow> stack_ok p t (xs @ [a, c]) \<and> poll_fresh p (store_of p t) \<and>
     (\<exists>A. wheel_inv (store_of p t) A (timer_of p t)) \<and> unlimited p c \<and> win (timer_of p t) (world p)"

text \<open>
  The rest of the program, as the waiting coroutine relies on it: when it has given up the processor, it is
  resumed at some time, with its poll context intact, on a well-formed thread. Meanwhile nothing made the
  descriptor less willing to take data (\<open>stall\<close>).
\<close>

definition waiting :: "(epoll_timer_t \<Rightarrow> 'k \<Rightarrow> bool) \<Rightarrow> 'k process \<Rightarrow> nat \<Rightarrow> nat list \<Rightarrow> nat \<Rightarrow> nat \<Rightarrow> nat \<Rightarrow> nat \<Rightarrow> bool" where
  "waiting win p t xs a c pc n \<longleftrightarrow> stack_ok p t (xs @ [a]) \<and> c \<notin> set (xs @ [a]) \<and> ready p t c \<and> length (xs @ [a]) < kMaxCallStack \<and>
     (\<exists>A x. poll_in p t A pc c n x) \<and> unlimited p c \<and> win (timer_of p t) (world p)"

definition resumes ::
  "'k sched \<Rightarrow> (epoll_timer_t \<Rightarrow> 'k \<Rightarrow> bool) \<Rightarrow> ('k \<Rightarrow> nat) \<Rightarrow> nat \<Rightarrow> nat list \<Rightarrow> nat \<Rightarrow> nat \<Rightarrow> bool" where
  "resumes sched win stall t xs a c \<longleftrightarrow> (\<forall>pc n h. waiting win (hp h) t xs a c pc n \<longrightarrow>
     (\<exists>h' P. sched pc h = Inr h' \<and> may_wait win (hp h') t xs a c \<and> polls (hp h') pc = Some P \<and>
        poll_live (store_of (hp h') t) pc c P n \<and> stall (world (hp h')) \<le> stall (world (hp h)) \<and>
        (\<forall>f. g_sys h f \<longrightarrow> g_sys h' f)))"

text \<open>
  The kernel: \<open>win\<close> is enough for the timer of a wait to fit on the wheel, it is not lost by calls of
  \<open>epoll_ctl\<close> and \<open>gettimeofday\<close>, and they do not make the descriptor less willing.
\<close>

definition steady :: "'k kernel \<Rightarrow> (epoll_timer_t \<Rightarrow> 'k \<Rightarrow> bool) \<Rightarrow> ('k \<Rightarrow> nat) \<Rightarrow> bool" where
  "steady K win stall \<longleftrightarrow> (\<forall>timer w. win timer w \<longrightarrow> clock_ok K w timer) \<and>
     (\<forall>timer w w'. ctl_step K w w' \<or> w' = snd (k_gettimeofday K w) \<longrightarrow> (win timer w \<longrightarrow> win timer w') \<and> stall w' \<le> stall w)"

lemma steady_clock: "steady K win stall \<Longrightarrow> win timer w \<Longrightarrow> clock_ok K w timer"
  by (simp add: steady_def)

lemma steady_tick:
  assumes "steady K win stall"
  shows "win timer w \<Longrightarrow> win timer (snd (k_gettimeofday K w))" "stall (snd (k_gettimeofday K w)) \<le> stall w"
  using assms unfolding steady_def by blast+

lemma steady_ctl:
  assumes "steady K win stall" and "ctl_world K w w'"
  shows "(win timer w \<longrightarrow> win timer w') \<and> stall w' \<le> stall w"
  using assms(2) unfolding ctl_world_def
proof (induction rule: rtranclp_induct)
  case (step w1 w2)
  with assms(1) have "(win timer w1 \<longrightarrow> win timer w2) \<and> stall w2 \<le> stall w1" unfolding steady_def by blast
  with step.IH show ?case by linarith
qed simp

lemma unlimited_cong:
  assumes "unlimited p c" and "tasks p' = tasks p" and "map_option co_static (coroutines p' c) = map_option co_static (coroutines p c)"
  shows "unlimited p' c"
proof -
  from assms(1) obtain co k tk where *: "coroutines p c = Some co" "co_task co = Some k" "tasks p k = Some tk"
      "at_max_timeout_ms (tk_attr tk) = -1" "at_enable_sys_hook (tk_attr tk)" "\<not> tk_timeout tk" by (auto simp: unlimited_def)
  from assms(3) *(1) obtain co' where co': "coroutines p' c = Some co'" "co_static co' = co_static co" by (auto simp: map_option_eq_Some)
  have "co_task co' = co_task co" using arg_cong [OF co'(2), of co_task] by (simp add: co_static_def)
  with * co'(1) assms(2) show ?thesis by (auto simp: unlimited_def)
qed

lemma may_wait_parts:
  assumes "may_wait win p t xs a c"
  obtains env A where "stack_ok p t (xs @ [a, c])" "gEnv p t = Some env" "poll_fresh p (ep_store (ev_epoll env))"
    "wheel_inv (ep_store (ev_epoll env)) A (ep_timer (ev_epoll env))" "unlimited p c" "win (ep_timer (ev_epoll env)) (world p)"
proof -
  from assms have st: "stack_ok p t (xs @ [a, c])" by (simp add: may_wait_def)
  from stack_ok_env [OF st] obtain env where "gEnv p t = Some env" by blast
  with assms st that show thesis by (auto simp: may_wait_def store_of_def timer_of_def)
qed

lemma may_wait_enabled:
  assumes "may_wait win (hp h) t xs a c"
  shows "enabled h t = Inr (Some c, True)"
proof -
  have "coroutine_self (hp h) t = Inr (Some c)" using assms self_is_running(1) [of "hp h" t "xs @ [a, c]"] by (simp add: may_wait_def)
  moreover have "unlimited (hp h) c" using assms by (simp add: may_wait_def)
  ultimately show ?thesis by (auto simp: enabled_def is_enable_sys_hook_def get_co_def get_task_def unlimited_def)
qed

section \<open>A wait from beginning to end\<close>

text \<open>\<open>poll_inner\<close> up to the moment it gives up the processor.\<close>

lemma enter_waits:
  assumes ok: "may_wait win p t xs a c" and K: "steady K win stall" and ms: "-1 \<le> timeout" and n: "nfds \<le> length fds"
    and epoll: "\<forall>epfd. \<not> refuses K epfd fds"
  obtains pc q where "poll_enter K p t fds nfds timeout pollfunc = Inr (PollWaits pc q)" "waiting win q t xs a c pc nfds"
    "stall (world q) \<le> stall (world p)"
proof -
  obtain env A where p: "stack_ok p t (xs @ [a, c])" "gEnv p t = Some env" "poll_fresh p (ep_store (ev_epoll env))"
    "wheel_inv (ep_store (ev_epoll env)) A (ep_timer (ev_epoll env))" "unlimited p c" "win (ep_timer (ev_epoll env)) (world p)"
    by (rule may_wait_parts [OF ok])
  have fixed: "fix_coroutine_timeout p t (Some c) timeout = Inr (wait_bound timeout None, False, p)"
    using p(5) by (auto simp: unlimited_def fix_timeout_unlimited)
  have stop: "nfds \<noteq> 1 \<or> pollfunc = None \<or> \<not> refuses K (ep_fd (ev_epoll env)) fds" using epoll by blast
  obtain p' A' P w where *: "poll_enter K p t fds nfds timeout pollfunc = Inr (PollWaits (next_id p) p')"
    "stack_ok p' t (xs @ [a])" "poll_in p' t A' (next_id p) c nfds (Suc (next_id p))"
    "w = add_world K (ep_fd (ev_epoll env)) (Suc (Suc (next_id p))) fds nfds (world p)"
    "timer_of p' t = ep_timer (ev_epoll env)" "ready p' t c" "world p' = snd (k_gettimeofday K w)"
    "tasks p' = tasks p" "\<forall>d. map_option co_static (coroutines p' d) = map_option co_static (coroutines p d)"
    by (rule poll_enter_waits [OF p(1-4) steady_clock [OF K p(6)] n ms fixed stop])
  have w: "win (ep_timer (ev_epoll env)) w" "stall w \<le> stall (world p)"
    using steady_ctl [OF K ctl_world_add, where w = "world p"] p(6) unfolding *(4) by blast+
  have "win (timer_of p' t) (world p')" unfolding *(5,7) by (rule steady_tick(1) [OF K w(1)])
  moreover have "stall (world p') \<le> stall (world p)" unfolding *(7) using steady_tick(2) [OF K, of w] w(2) by linarith
  moreover have "unlimited p' c" by (rule unlimited_cong [OF p(5) *(8)]) (use *(9) in blast)
  moreover have "c \<notin> set (xs @ [a])" using p(1) by (auto simp: stack_ok_def)
  moreover have "length (xs @ [a]) < kMaxCallStack"
    using stack_ok_env [OF p(1)] by (auto dest!: stack_len)
  ultimately show thesis using that [OF *(1)] *(2,3,6) by (auto simp: waiting_def)
qed

text \<open>\<open>poll_inner\<close> from the moment the coroutine is resumed.\<close>

lemma leave_returns:
  assumes ok: "may_wait win p t xs a c" and K: "steady K win stall" and P: "polls p pc = Some P" "poll_live (store_of p t) pc c P nfds"
    and n: "nfds \<le> length fds"
  obtains n fds' q where "poll_leave K p t pc fds nfds = Inr (n, fds', q)" "may_wait win q t xs a c" "stall (world q) \<le> stall (world p)"
proof -
  obtain env A where p: "stack_ok p t (xs @ [a, c])" "gEnv p t = Some env" "poll_fresh p (ep_store (ev_epoll env))"
    "wheel_inv (ep_store (ev_epoll env)) A (ep_timer (ev_epoll env))" "unlimited p c" "win (ep_timer (ev_epoll env)) (world p)"
    by (rule may_wait_parts [OF ok])
  have live: "poll_live (ep_store (ev_epoll env)) pc c P nfds" using P(2) p(2) by (simp add: store_of_def)
  have bl: "blocks_of pc P \<subseteq> heap p" using live_blocks_mem [of "polls p", OF P(1)] p(3) by (simp add: poll_fresh_def)
  have st: "stack_ok p t ((xs @ [a]) @ [c])" using p(1) by simp
  obtain q w e s where *: "poll_leave K p t pc fds nfds = Inr (pc_raise_cnt P, with_revents P fds nfds, q)"
    "stack_ok q t ((xs @ [a]) @ [c])" "wheel_inv s (\<lambda>l. removeAll (pc_time P) (A l)) (ep_timer (ev_epoll env))"
    "q = p\<lparr>polls := (polls p)(pc := None), heap := heap p - blocks_of pc P,
       gEnv := (gEnv p)(t \<mapsto> env\<lparr>ev_epoll := (ev_epoll env)\<lparr>ep_store := s\<rparr>\<rparr>), world := w, c_errno := e\<rparr>"
    "payload s = (\<lambda>y. if y \<in> set (pc_time P # map pi_time (pc_items P)) then None else payload (ep_store (ev_epoll env)) y)"
    "w = del_world K (ep_fd (ev_epoll env)) fds nfds (world p)"
    by (rule poll_leave_returns [OF st p(2) P(1) p(4) live n bl])
  have w: "win (ep_timer (ev_epoll env)) w" "stall w \<le> stall (world p)"
    using steady_ctl [OF K ctl_world_del, where w = "world p"] p(6) unfolding *(6) by blast+
  have q: "store_of q t = s" "timer_of q t = ep_timer (ev_epoll env)" "next_id q = next_id p" "world q = w"
    by (simp_all add: *(4) store_of_def timer_of_def)
  have "items s i = None" if "next_id p \<le> i" for i
    using fun_cong [OF *(5), of i] p(3) that by (auto simp: payload_def poll_fresh_def split: if_splits)
  then have "poll_fresh q s" using p(3) live_blocks_gone [of "polls p", OF P(1)] by (simp add: poll_fresh_def *(4))
  moreover have "unlimited q c" by (rule unlimited_cong [OF p(5)]) (simp_all add: *(4))
  ultimately have "may_wait win q t xs a c" using *(2,3) w(1) q by (auto simp: may_wait_def)
  with that [OF *(1)] w(2) q(4) show thesis by simp
qed

lemma may_wait_hooked:
  assumes ok: "may_wait win (hp h) t xs a c" and K: "steady K win stall" and S: "resumes sched win stall t xs a c"
    and ms: "-1 \<le> timeout" and n: "nfds \<le> length fds" and epoll: "\<forall>epfd. \<not> refuses K epfd fds"
  shows "\<exists>n fds' h'. poll_hook L K sched h t fds nfds timeout = Inr (n, fds', h') \<and> may_wait win (hp h') t xs a c \<and>
    stall (world (hp h')) \<le> stall (world (hp h)) \<and> (\<forall>f. g_sys h f \<longrightarrow> g_sys h' f)"
proof -
  let ?h = "HOOK_SYS_FUNC L Sys_poll h" and ?pf = "sys_pollfunc L (HOOK_SYS_FUNC L Sys_poll h) t"
  note en = may_wait_enabled [OF ok]
  from enabled_env [OF en, of K] obtain e where e: "get_epoll_context K (hp h) t = Inr (e, hp h)" by blast
  obtain pc q where q: "poll_enter K (hp h) t fds nfds timeout ?pf = Inr (PollWaits pc q)" "waiting win q t xs a c pc nfds"
    "stall (world q) \<le> stall (world (hp h))" by (rule enter_waits [OF ok K ms n epoll])
  have "waiting win (hp (?h\<lparr>hp := q\<rparr>)) t xs a c pc nfds" using q(2) by simp
  with S obtain h1 P where h1: "sched pc (?h\<lparr>hp := q\<rparr>) = Inr h1" "may_wait win (hp h1) t xs a c" "polls (hp h1) pc = Some P"
    "poll_live (store_of (hp h1) t) pc c P nfds" "stall (world (hp h1)) \<le> stall (world q)"
    "\<forall>f. g_sys (?h\<lparr>hp := q\<rparr>) f \<longrightarrow> g_sys h1 f" unfolding resumes_def by fastforce
  obtain r fds' q' where q': "poll_leave K (hp h1) t pc fds nfds = Inr (r, fds', q')" "may_wait win q' t xs a c"
    "stall (world q') \<le> stall (world (hp h1))" by (rule leave_returns [OF h1(2) K h1(3,4) n])
  have "poll_hook L K sched h t fds nfds timeout = Inr (r, fds', h1\<lparr>hp := q'\<rparr>)"
    using en e q(1) h1(1) q'(1) by (simp add: poll_hook_def Let_def poll_inner_def)
  moreover have "\<forall>f. g_sys h f \<longrightarrow> g_sys h1 f" using h1(6) by (simp add: HOOK_SYS_FUNC_keeps)
  ultimately show ?thesis using q'(2,3) h1(5) q(3) by auto
qed

lemma wait_succeeds:
  assumes ok: "may_wait win (hp h) t xs a c" and K: "steady K win stall" and S: "resumes sched win stall t xs a c"
    and ms: "-1 \<le> timeout" and epoll: "\<forall>epfd. \<not> refuses K epfd [\<lparr>pf_fd = fd, pf_events = events, pf_revents = 0\<rparr>]"
  shows "\<exists>h'. wait_io_ready L K sched t (Some c) fd events timeout h = Inr (1, h') \<and> may_wait win (hp h') t xs a c \<and>
    stall (world (hp h')) \<le> stall (world (hp h)) \<and> (\<forall>f. g_sys h f \<longrightarrow> g_sys h' f)"
proof -
  let ?fds = "[\<lparr>pf_fd = fd, pf_events = events, pf_revents = 0\<rparr>]"
  have "1 \<le> length ?fds" by simp
  from may_wait_hooked [OF ok K S ms this epoll, of L] obtain n fds' h' where
    "poll_hook L K sched h t ?fds 1 timeout = Inr (n, fds', h')" "may_wait win (hp h') t xs a c"
    "stall (world (hp h')) \<le> stall (world (hp h))" "\<forall>f. g_sys h f \<longrightarrow> g_sys h' f" by blast
  then show ?thesis by (auto simp: wait_io_ready_def Let_def may_wait_def unlimited_def get_co_def get_task_def)
qed

section \<open>Writing ends\<close>

text \<open>
  A descriptor that makes progress: each call of the C library takes at least one byte, or asks to try
  again, which it does only finitely often (\<open>stall\<close> bounds how often it still may). The call takes no
  longer than \<open>win\<close> allows.
\<close>

definition progresses :: "(bytes \<Rightarrow> (unit, 'k) libcall) \<Rightarrow> (epoll_timer_t \<Rightarrow> 'k \<Rightarrow> bool) \<Rightarrow> ('k \<Rightarrow> nat) \<Rightarrow> bool" where
  "progresses call win stall \<longleftrightarrow> (\<forall>bs w r e w'. bs \<noteq> [] \<longrightarrow> call bs w = ((r, e, ()), w') \<longrightarrow>
     (0 < r \<and> r \<le> int (length bs) \<or> r < 0 \<and> e = EAGAIN \<and> stall w' < stall w) \<and> (\<forall>timer. win timer w \<longrightarrow> win timer w'))"

lemma may_wait_call:
  assumes "may_wait win p t xs a c" and "win (timer_of p t) w"
  shows "may_wait win (p\<lparr>world := w\<rparr>) t xs a c" "may_wait win (p\<lparr>world := w, c_errno := e\<rparr>) t xs a c"
  using assms unfolding may_wait_def poll_fresh_def unlimited_def store_of_def timer_of_def stack_ok_def env_stack_def co_of_def saved_def by simp_all

lemma progress_step:
  assumes P: "progresses call win stall" and ok: "may_wait win (hp h) t xs a c" and f: "g_sys h f" and bs: "bs \<noteq> []"
  shows "\<exists>r h'. sys_call f (call bs) t h = Inr (r, (), h') \<and> (may_wait win (hp h') t xs a c \<and> g_sys h' f) \<and>
    (0 < r \<and> r \<le> int (length bs) \<or> r < 0 \<and> errno h' t = EAGAIN \<and> stall (world (hp h')) < stall (world (hp h)))"
proof -
  obtain r e w where c: "call bs (world (hp h)) = ((r, e, ()), w)" by (metis surj_pair old.unit.exhaust)
  with P bs have w: "0 < r \<and> r \<le> int (length bs) \<or> r < 0 \<and> e = EAGAIN \<and> stall w < stall (world (hp h))"
      "win (timer_of (hp h) t) (world (hp h)) \<longrightarrow> win (timer_of (hp h) t) w" unfolding progresses_def by blast+
  have "win (timer_of (hp h) t) w" using w(2) ok by (simp add: may_wait_def)
  from may_wait_call [OF ok this] w(1) c f show ?thesis
    by (auto simp: sys_call_def set_errno_def errno_def)
qed

lemma writes_end:
  assumes ok: "may_wait win (hp h) t xs a c" and K: "steady K win stall" and S: "resumes sched win stall t xs a c"
    and ms: "-1 \<le> timeout" and epoll: "\<forall>epfd. \<not> refuses K epfd [\<lparr>pf_fd = fd, pf_events = POLL_WRITE, pf_revents = 0\<rparr>]"
    and P: "progresses call win stall" and f: "g_sys h f" and buf: "buf \<noteq> []"
  shows "\<exists>h'. write_all (wait_io_ready L K sched t (Some c) fd POLL_WRITE timeout) (\<lambda>b. sys_call f (call b) t) t buf h =
    Inr (int (length buf), h') \<and> may_wait win (hp h') t xs a c \<and> g_sys h' f"
proof (rule write_all_completes [where J = "\<lambda>h. may_wait win (hp h) t xs a c \<and> g_sys h f" and stall = "\<lambda>h. stall (world (hp h))"])
  show "\<exists>h'. wait_io_ready L K sched t (Some c) fd POLL_WRITE timeout h = Inr (1, h') \<and>
      (may_wait win (hp h') t xs a c \<and> g_sys h' f) \<and> stall (world (hp h')) \<le> stall (world (hp h))"
    if "may_wait win (hp h) t xs a c \<and> g_sys h f" for h
    using wait_succeeds [OF _ K S ms epoll, of h L] that by blast
qed (use ok f buf progress_step [OF P] in blast)+

text \<open>
  C17. \<open>write\<close> and \<open>send\<close> end, and accept the whole buffer, whenever the descriptor makes progress: in a
  coroutine whose task has hooks and no time limit, on a hooked descriptor that epoll takes, with a program
  that resumes what waits. However often the descriptor asks to try again, the coroutine waits and comes
  back; the thread is well formed afterwards, and the coroutine runs in it.
\<close>

theorem write_completes:
  assumes ok: "may_wait win (hp h) t xs a c" and lp: "get_by_fd h fd = Some lp" "-1 \<le> timeout_ms_of (write_timeout lp)"
    and K: "steady K win stall" and S: "resumes sched win stall t xs a c"
    and epoll: "\<forall>epfd. \<not> refuses K epfd [\<lparr>pf_fd = fd, pf_events = POLL_WRITE, pf_revents = 0\<rparr>]"
    and dl: "l_dlsym L Sys_write" "l_dlsym L Sys_send" and buf: "buf \<noteq> []"
  shows "(progresses (l_write L fd) win stall \<longrightarrow>
      (\<exists>h'. write_hook L K sched h t fd buf = Inr (int (length buf), h') \<and> may_wait win (hp h') t xs a c)) \<and>
    (progresses (\<lambda>bs. l_send L fd bs fl) win stall \<longrightarrow>
      (\<exists>h'. send_hook L K sched h t fd buf fl = Inr (int (length buf), h') \<and> may_wait win (hp h') t xs a c))"
proof -
  have "\<exists>h'. write_all (wait_io_ready L K sched t (Some c) fd POLL_WRITE (timeout_ms_of (write_timeout lp))) (\<lambda>b. sys_call f (call b) t) t buf
      (HOOK_SYS_FUNC L f h) = Inr (int (length buf), h') \<and> may_wait win (hp h') t xs a c"
    if "l_dlsym L f" "progresses call win stall" for f call
    using writes_end [OF _ K S lp(2) epoll that(2) HOOK_SYS_FUNC_sets [OF that(1)] buf, of h L] ok by auto
  note all = this [OF dl(1), of "l_write L fd"] this [OF dl(2), of "\<lambda>bs. l_send L fd bs fl"]
  show ?thesis using all may_wait_enabled [OF ok] lp(1) by (simp add: write_hook_def send_hook_def Let_def)
qed

text \<open>
  A thread whose running coroutine \<open>2\<close> has a task without a time limit, and a library whose descriptor asks
  to try again as often as the first component of the world says and then takes two bytes at a time. The
  program resumes the waiting coroutine at once.
\<close>

definition free_process :: "'k \<Rightarrow> 'k process" where
  "free_process w = (io_process w)\<lparr>gEnv := [7 \<mapsto> wait_env],
     tasks := [5 \<mapsto> (the (tasks late_process 5))\<lparr>tk_attr := demo_attr\<lparr>at_max_timeout_ms := -1\<rparr>, tk_timeout := False\<rparr>]\<rparr>"

definition free_hooks :: "'k \<Rightarrow> 'k hooks" where
  "free_hooks w = (io_hooks w)\<lparr>hp := free_process w\<rparr>"

definition busy_bytes :: "bytes \<Rightarrow> (unit, nat \<times> bytes) libcall" where
  "busy_bytes bs w = (if fst w = 0 then ((int (min 2 (length bs)), 0, ()), (0, snd w @ take 2 bs))
     else ((-1, EAGAIN, ()), (fst w - 1, snd w)))"

definition busy_libc :: "(nat \<times> bytes) libc" where
  "busy_libc = io_libc (\<lambda>_ w. ((0, 0, []), w)) busy_bytes"

definition at_once :: "nat \<Rightarrow> nat \<Rightarrow> 'k sched" where
  "at_once t c pc h = bindR (coroutine_resume (hp h) t (Some c)) (\<lambda>p. Inr (h\<lparr>hp := p\<rparr>))"

definition on_wheel :: "epoll_timer_t \<Rightarrow> 'k \<Rightarrow> bool" where
  "on_wheel timer w \<longleftrightarrow> timer = wait_timer"

lemma free_may_wait: "may_wait on_wheel (free_process w) 7 [] 0 2"
proof -
  have "stack_ok (free_process w) 7 [0, 2]" using wait_stack
    by (auto simp: stack_ok_def env_stack_def co_of_def saved_def free_process_def io_process_def wait_process_def timed_process_def)
  moreover have "poll_fresh (free_process w) wait_store"
    by (auto simp: poll_fresh_def live_blocks_def wait_store_def free_process_def io_process_def late_process_def pool_process_def
        demo_process_def elim: live_block.elims)
  moreover have "unlimited (free_process w) 2"
    by (simp add: unlimited_def free_process_def io_process_def late_process_def pool_process_def pool_co_def demo_attr_def)
  moreover have "store_of (free_process w) 7 = wait_store" "timer_of (free_process w) 7 = wait_timer"
    by (simp_all add: store_of_def timer_of_def free_process_def wait_env_def)
  ultimately show ?thesis using wait_inv by (auto simp: may_wait_def on_wheel_def)
qed

lemma at_once_resumes: "resumes (at_once t c) on_wheel stall t xs a c"
  unfolding resumes_def
proof (intro allI impI)
  fix pc n and h :: "'a hooks" assume w: "waiting on_wheel (hp h) t xs a c pc n"
  then obtain A x where st: "stack_ok (hp h) t (xs @ [a])" "c \<notin> set (xs @ [a])" "ready (hp h) t c" "length (xs @ [a]) < kMaxCallStack"
    and pin: "poll_in (hp h) t A pc c n x" and u: "unlimited (hp h) c" and t: "timer_of (hp h) t = wait_timer"
    by (auto simp: waiting_def on_wheel_def)
  let ?p = "resumed (hp h) t (xs @ [a]) c"
  note res = coroutine_resume_resumed [OF st]
  have fr: "switch_frame t (hp h) ?p" by (rule resumed_frame(1) [OF st(1,3,2)])
  obtain env P where env: "gEnv (hp h) t = Some env" "polls (hp h) pc = Some P" "wheel_inv (ep_store (ev_epoll env)) A (ep_timer (ev_epoll env))"
    "poll_fresh (hp h) (ep_store (ev_epoll env))" "poll_live (ep_store (ev_epoll env)) pc c P n" using pin by (auto simp: poll_in_def poll_ready_def)
  have p: "store_of ?p t = ep_store (ev_epoll env)" "timer_of ?p t = ep_timer (ev_epoll env)" "polls ?p = polls (hp h)" "heap ?p = heap (hp h)"
    "next_id ?p = next_id (hp h)" "world ?p = world (hp h)" "tasks ?p = tasks (hp h)"
    using env(1) by (simp_all add: resumed_def store_of_def timer_of_def push_env_def)
  have "unlimited ?p c" by (rule unlimited_cong [OF u p(7)]) (use fr in \<open>simp add: switch_frame_def\<close>)
  moreover have "timer_of ?p t = wait_timer" using p(2) t env(1) by (simp add: timer_of_def)
  ultimately have "may_wait on_wheel ?p t xs a c" using res(2) p env(3,4) by (auto simp: may_wait_def on_wheel_def poll_fresh_def)
  then show "\<exists>h' P. at_once t c pc h = Inr h' \<and> may_wait on_wheel (hp h') t xs a c \<and> polls (hp h') pc = Some P \<and>
      poll_live (store_of (hp h') t) pc c P n \<and> stall (world (hp h')) \<le> stall (world (hp h)) \<and> (\<forall>f. g_sys h f \<longrightarrow> g_sys h' f)"
    using res(1) p env(2,5) by (auto simp: at_once_def)
qed

lemma quiet_steady: "steady quiet_kernel on_wheel stall" "\<not> refuses quiet_kernel epfd fds"
proof -
  have "clock_ok quiet_kernel w wait_timer" for w :: 'a
    by (simp add: clock_ok_def clock_at_def quiet_kernel_def wait_timer_def kMaxTimeoutMs_def)
  then show "steady quiet_kernel on_wheel stall"
    by (auto simp: steady_def on_wheel_def ctl_step_def quiet_kernel_def)
  show "\<not> refuses quiet_kernel epfd fds" by (simp add: refuses_def quiet_kernel_def)
qed

theorem write_completes_witness:
  "\<exists>h' h''. write_hook busy_libc quiet_kernel (at_once 7 2) (free_hooks (4, [])) 7 9 [1, 2, 3] = Inr (3, h') \<and>
     send_hook busy_libc quiet_kernel (at_once 7 2) (free_hooks (4, [])) 7 9 [1, 2, 3] 0 = Inr (3, h'')"
proof -
  have "progresses busy_bytes on_wheel fst"
    by (auto simp: progresses_def busy_bytes_def on_wheel_def errno_defs split: if_splits)
  then have p: "progresses (l_write busy_libc 9) on_wheel fst" "progresses (\<lambda>bs. l_send busy_libc 9 bs 0) on_wheel fst"
    by (simp_all add: busy_libc_def io_libc_def)
  have lp: "get_by_fd (free_hooks (4, [])) 9 = Some new_rpchook" "-1 \<le> timeout_ms_of (write_timeout new_rpchook)"
    by (simp_all add: get_by_fd_def free_hooks_def io_hooks_def gSocketFd_size_def new_rpchook_def timeout_ms_of_def wrap32_def c_quot_def)
  have h: "may_wait on_wheel (hp (free_hooks (4, []))) 7 [] 0 2" using free_may_wait by (simp add: free_hooks_def)
  show ?thesis
    using write_completes [OF h lp quiet_steady(1) at_once_resumes [where stall = fst], of busy_libc "[1, 2, 3]" 0] p quiet_steady(2)
    by (auto simp: busy_libc_def io_libc_def)
qed

end
