(* ===== verification/Hook_Socket.thy ===== *)
theory Hook_Socket
  imports Hook_Wait
begin

unbundle bit_operations_syntax

text \<open>
  The hooks that make, connect and configure sockets (\<^verbatim>\<open>src/src/hook_sys_call.c\<close>): \<open>socket\<close>
  (lines 149 to 167), \<open>select\<close> (169 to 264), \<open>accept\<close> (266 to 310), \<open>connect\<close> (312 to 379) and
  \<open>setsockopt\<close> (645 to 664).
\<close>

section \<open>socket and setsockopt\<close>

definition set_nonblock :: "'k libc \<Rightarrow> 'k hooks \<Rightarrow> nat \<Rightarrow> int \<Rightarrow> 'k hooks c_result" where
  "set_nonblock L h t fd =
     bindR (fcntl_hook L h t fd F_GETFL (IntArg 0)) (\<lambda>(f, h).
     bindR (fcntl_hook L h t fd F_SETFL (IntArg (f OR O_NONBLOCK))) (\<lambda>(_, h). Inr h))"

definition socket_hook :: "'k libc \<Rightarrow> 'k hooks \<Rightarrow> nat \<Rightarrow> int \<Rightarrow> int \<Rightarrow> int \<Rightarrow> (int \<times> 'k hooks) c_result" where
  "socket_hook L h t domain type protocol =
     (let h = HOOK_SYS_FUNC L Sys_socket h in
      bindR (enabled h t) (\<lambda>(co, en).
      if \<not> en then bindR (sys_call Sys_socket (l_socket L domain type protocol) t h) (\<lambda>(ret, _, h). Inr (ret, h))
      else
        bindR (sys_call Sys_socket (l_socket L domain type protocol) t h) (\<lambda>(fd, _, h).
        if fd < 0 then Inr (fd, h)
        else
          let (lp, h) = alloc_by_fd h fd in
          bindR (set_lp h fd (\<lambda>lp. lp\<lparr>rh_domain := domain\<rparr>)) (\<lambda>h.
          let h = HOOK_SYS_FUNC L Sys_fcntl h in
          bindR (set_nonblock L h t fd) (\<lambda>h. Inr (fd, h))))))"

definition SOL_SOCKET :: int where "SOL_SOCKET = 1"
definition SO_RCVTIMEO :: int where "SO_RCVTIMEO = 20"
definition SO_SNDTIMEO :: int where "SO_SNDTIMEO = 21"

text \<open>Two \<open>long\<close>s of eight bytes, least significant byte first, copied from the option's value.\<close>

definition le_long :: "bytes \<Rightarrow> int" where
  "le_long bs = sint (word_of_int (foldr (\<lambda>b n. uint b + 256 * n) bs 0) :: 64 word)"

definition timeval_of_bytes :: "bytes \<Rightarrow> timeval c_result" where
  "timeval_of_bytes bs =
     (if length bs < 16 then Inl OutOfBounds
      else Inr \<lparr>tv_sec = le_long (take 8 bs), tv_usec = le_long (take 8 (drop 8 bs))\<rparr>)"

definition setsockopt_hook ::
  "'k libc \<Rightarrow> 'k hooks \<Rightarrow> nat \<Rightarrow> int \<Rightarrow> int \<Rightarrow> int \<Rightarrow> bytes \<Rightarrow> (int \<times> 'k hooks) c_result" where
  "setsockopt_hook L h t fd level option_name option_value =
     (let h = HOOK_SYS_FUNC L Sys_setsockopt h;
          sys = (\<lambda>h. bindR (sys_call Sys_setsockopt (l_setsockopt L fd level option_name option_value) t h)
                   (\<lambda>(ret, _, h). Inr (ret, h))) in
      bindR (enabled h t) (\<lambda>(co, en).
      if \<not> en then sys h
      else
        bindR (if get_by_fd h fd \<noteq> None \<and> SOL_SOCKET = level then
                 (if SO_RCVTIMEO = option_name then
                    bindR (timeval_of_bytes option_value) (\<lambda>val. set_lp h fd (\<lambda>lp. lp\<lparr>read_timeout := val\<rparr>))
                  else if SO_SNDTIMEO = option_name then
                    bindR (timeval_of_bytes option_value) (\<lambda>val. set_lp h fd (\<lambda>lp. lp\<lparr>write_timeout := val\<rparr>))
                  else Inr h)
               else Inr h) sys))"

section \<open>accept and connect\<close>

text \<open>The loop of \<open>accept\<close>; the descriptor, or the value that is returned at once.\<close>

partial_function (option) accept_loop ::
  "'k libc \<Rightarrow> 'k kernel \<Rightarrow> 'k sched \<Rightarrow> nat \<Rightarrow> nat option \<Rightarrow> int \<Rightarrow> int \<Rightarrow> 'k hooks \<Rightarrow> (int \<times> 'k hooks) c_result option" where
  "accept_loop L K sched t co listen_fd fd h =
     (if fd < 0 then
        if errno h t = EAGAIN then
          (case bindR (get_epoll_context K (hp h) t) (\<lambda>(_, p).
              poll_inner K sched (h\<lparr>hp := p\<rparr>) t
                [\<lparr>pf_fd = listen_fd, pf_events = POLLIN OR POLLERR OR POLLHUP, pf_revents = 0\<rparr>] 1 (-1) None) of
             Inl e \<Rightarrow> Some (Inl e)
           | Inr (n, _, h) \<Rightarrow>
               (case (if n \<le> 0
                      then bindR (get_co (hp h) co) (\<lambda>c. bindR (get_task (hp h) (co_task c)) (\<lambda>tk. Inr (tk_timeout tk)))
                      else Inr False) of
                  Inl e \<Rightarrow> Some (Inl e)
                | Inr out_of_time \<Rightarrow>
                    if out_of_time then
                      Some (bindR (close_hook L h t listen_fd) (\<lambda>(_, h). Inr (-1, set_errno t EBADF h)))
                    else
                      (case sys_call Sys_accept (l_accept L listen_fd) t h of
                         Inl e \<Rightarrow> Some (Inl e)
                       | Inr (fd, _, h) \<Rightarrow> accept_loop L K sched t co listen_fd fd h)))
        else Some (Inr (fd, h))
      else Some (Inr (fd, h)))"

definition accept_hook ::
  "'k libc \<Rightarrow> 'k kernel \<Rightarrow> 'k sched \<Rightarrow> 'k hooks \<Rightarrow> nat \<Rightarrow> int \<Rightarrow> (int \<times> 'k hooks) c_result" where
  "accept_hook L K sched h t listen_fd =
     (let h = HOOK_SYS_FUNC L Sys_accept h in
      bindR (enabled h t) (\<lambda>(co, en).
      if \<not> en then bindR (sys_call Sys_accept (l_accept L listen_fd) t h) (\<lambda>(ret, _, h). Inr (ret, h))
      else
        bindR (if get_by_fd h listen_fd = None
               then let (_, h) = alloc_by_fd h listen_fd in set_nonblock L h t listen_fd
               else Inr h) (\<lambda>h.
        bindR (sys_call Sys_accept (l_accept L listen_fd) t h) (\<lambda>(fd, _, h).
        bindR (case accept_loop L K sched t co listen_fd fd h of None \<Rightarrow> Inl Diverges | Some r \<Rightarrow> r) (\<lambda>(fd, h).
        if fd < 0 then Inr (fd, h)
        else
          let (lp, h) = alloc_by_fd h fd in
          bindR (fcntl_hook L h t fd F_GETFL (IntArg 0)) (\<lambda>(current_flags, h).
          bindR (fcntl_hook L h t fd F_SETFL (IntArg (current_flags OR O_NONBLOCK))) (\<lambda>(ret, h).
          bindR (if 0 = ret \<and> lp then set_lp h fd (\<lambda>lp. lp\<lparr>user_flag := current_flags\<rparr>) else Inr h) (\<lambda>h.
          Inr (fd, h)))))))))"

text \<open>The loop of \<open>connect\<close>, with the number of rounds that are left; the descriptor with its events.\<close>

fun connect_wait ::
  "'k libc \<Rightarrow> 'k kernel \<Rightarrow> 'k sched \<Rightarrow> nat \<Rightarrow> int \<Rightarrow> nat \<Rightarrow> pollfd \<Rightarrow> 'k hooks \<Rightarrow> (pollfd \<times> 'k hooks) c_result" where
  "connect_wait L K sched t fd 0 pf h = Inr (pf, h)"
| "connect_wait L K sched t fd (Suc n) pf h =
     (let pf = \<lparr>pf_fd = fd, pf_events = POLLOUT OR POLLERR OR POLLHUP, pf_revents = 0\<rparr> in
      bindR (poll_hook L K sched h t [pf] 1 10) (\<lambda>(pollret, fds, h).
      bindR (array_get fds 0) (\<lambda>pf.
      if pollret = 1 then Inr (pf, h) else connect_wait L K sched t fd n pf h)))"

definition connect_hook ::
  "'k libc \<Rightarrow> 'k kernel \<Rightarrow> 'k sched \<Rightarrow> 'k hooks \<Rightarrow> nat \<Rightarrow> int \<Rightarrow> bytes \<Rightarrow> (int \<times> 'k hooks) c_result" where
  "connect_hook L K sched h t fd address =
     (let h = HOOK_SYS_FUNC L Sys_connect h in
      bindR (enabled h t) (\<lambda>(co, en).
      bindR (sys_call Sys_connect (l_connect L fd address) t h) (\<lambda>(ret, _, h).
      if \<not> en then Inr (ret, h)
      else
        (case get_by_fd h fd of
           None \<Rightarrow> Inr (ret, h)
         | Some lp \<Rightarrow>
             bindR (if length (rh_dest lp) \<ge> length address
                    then set_lp h fd (\<lambda>lp. lp\<lparr>rh_dest := address @ drop (length address) (rh_dest lp)\<rparr>)
                    else Inr h) (\<lambda>h.
             if \<not> (ret < 0 \<and> errno h t = EINPROGRESS) then Inr (ret, h)
             else
               bindR (connect_wait L K sched t fd 10 zero_pollfd h) (\<lambda>(pf, h).
               if pf_revents pf AND POLLOUT \<noteq> 0 then Inr (0, set_errno t 0 h) else Inr (ret, h)))))))"

section \<open>select\<close>

definition FD_SETSIZE :: nat where "FD_SETSIZE = 1024"

text \<open>
  The descriptors below \<open>nfds\<close> that are in the set, in the order of the loop. Looking at a descriptor
  beyond the set's size reads past its end.
\<close>

definition FD_ISSET_all :: "int \<Rightarrow> fd_set option \<Rightarrow> nat list c_result" where
  "FD_ISSET_all nfds s =
     (case s of
        None \<Rightarrow> Inr []
      | Some s \<Rightarrow> if nfds > int FD_SETSIZE then Inl OutOfBounds
                 else Inr (filter (\<lambda>fd. fd \<in> s) [0..<nat nfds]))"

text \<open>The loop that fills the array: every descriptor of set number \<open>i\<close> is written to element \<open>i\<close>.\<close>

definition fill_pollfds :: "nat \<Rightarrow> 16 word \<Rightarrow> nat list \<Rightarrow> pollfd list \<Rightarrow> pollfd list c_result" where
  "fill_pollfds i events fds poll_fds =
     foldR (\<lambda>pfs fd. bindR (array_get pfs (int i)) (\<lambda>pf.
       array_set pfs (int i) (pf\<lparr>pf_fd := int fd, pf_events := events\<rparr>))) poll_fds fds"

text \<open>One round of the loop that translates the result back.\<close>

definition add_fd :: "bool \<Rightarrow> int \<Rightarrow> fd_set option \<Rightarrow> int \<Rightarrow> fd_set option \<times> int" where
  "add_fd b fd s ret = (case s of Some s \<Rightarrow> if b then (Some (insert (nat fd) s), ret + 1) else (Some s, ret) | None \<Rightarrow> (None, ret))"

definition pollfd_to_sets ::
  "fd_set option \<times> fd_set option \<times> fd_set option \<times> int \<Rightarrow> pollfd \<Rightarrow> fd_set option \<times> fd_set option \<times> fd_set option \<times> int" where
  "pollfd_to_sets st pfd =
     (let (rs, ws, es, ret) = st;
          (rs, ret) = add_fd (pf_events pfd AND POLLIN \<noteq> 0) (pf_fd pfd) rs ret;
          (ws, ret) = add_fd (pf_events pfd AND POLLOUT \<noteq> 0) (pf_fd pfd) ws ret;
          (es, ret) = add_fd (pf_events pfd AND NOT (POLLIN OR POLLOUT) \<noteq> 0) (pf_fd pfd) es ret
      in (rs, ws, es, ret))"

definition select_hook ::
  "'k libc \<Rightarrow> 'k kernel \<Rightarrow> 'k sched \<Rightarrow> 'k hooks \<Rightarrow> nat \<Rightarrow> int \<Rightarrow> fd_set option \<Rightarrow> fd_set option \<Rightarrow> fd_set option
   \<Rightarrow> timeval option \<Rightarrow> (int \<times> (fd_set option \<times> fd_set option \<times> fd_set option) \<times> 'k hooks) c_result" where
  "select_hook L K sched h t nfds readfds writefds exceptfds timeout =
     (let h = HOOK_SYS_FUNC L Sys_select h in
      bindR (enabled h t) (\<lambda>(co, en).
      if \<not> en then sys_call Sys_select (l_select L nfds readfds writefds exceptfds timeout) t h
      else
        let timeout_ms = (case timeout of None \<Rightarrow> -1 | Some tv \<Rightarrow> timeout_ms_of tv) in
        if timeout = None then sys_call Sys_select (l_select L nfds readfds writefds exceptfds timeout) t h
        else
          bindR (sys_call Sys_select (l_select L nfds readfds writefds exceptfds (Some \<lparr>tv_sec = 0, tv_usec = 0\<rparr>)) t h)
          (\<lambda>(n, sets, h).
          if n \<noteq> 0 then Inr (n, sets, h)
          else
            bindR (FD_ISSET_all nfds readfds) (\<lambda>r.
            bindR (FD_ISSET_all nfds writefds) (\<lambda>w.
            bindR (FD_ISSET_all nfds exceptfds) (\<lambda>e.
            let total = length r + length w + length e;
                poll_fds = replicate total zero_pollfd in
            bindR (fill_pollfds 0 POLLIN r poll_fds) (\<lambda>poll_fds.
            bindR (fill_pollfds 1 POLLOUT w poll_fds) (\<lambda>poll_fds.
            bindR (fill_pollfds 2 0 e poll_fds) (\<lambda>poll_fds.
            bindR (poll_hook L K sched h t poll_fds total timeout_ms) (\<lambda>(n, poll_fds, h).
            if n \<le> 0 then Inl Uninitialised
            else
              let (readfds, writefds, exceptfds, ret) = foldl pollfd_to_sets (readfds, writefds, exceptfds, 0) poll_fds
              in Inr (ret, (readfds, writefds, exceptfds), h))))))))))) "

section \<open>Non-blocking mode\<close>

text \<open>
  \<open>fl fd\<close> gives the file status flags of a descriptor. \<open>F_SETFL\<close> of the C library sets the bit
  \<open>O_NONBLOCK\<close> to that of its argument when it succeeds, and no other call of \<open>fcntl\<close> changes it.
\<close>

definition nonblock :: "int \<Rightarrow> bool" where
  "nonblock f \<longleftrightarrow> bit f 11"

definition fcntl_law :: "'k libc \<Rightarrow> (int \<Rightarrow> 'k \<Rightarrow> int) \<Rightarrow> bool" where
  "fcntl_law L fl \<longleftrightarrow> (\<forall>fd cmd a w r e w'. l_fcntl L fd cmd a w = ((r, e, ()), w') \<longrightarrow>
     nonblock (fl fd w') = (if cmd = F_SETFL \<and> r = 0 then (case a of IntArg p \<Rightarrow> nonblock p | _ \<Rightarrow> False) else nonblock (fl fd w)))"

lemma nonblock_or [simp]: "nonblock (f OR O_NONBLOCK)"
  by (simp add: nonblock_def O_NONBLOCK_def bit_or_iff)

definition arg_fits :: "int \<times> fcntl_arg \<Rightarrow> bool" where
  "arg_fits c = (let (cmd, a) = c in
     (cmd \<in> {F_DUPFD, F_SETFD, F_SETOWN, F_SETFL} \<longrightarrow> (\<exists>i. a = IntArg i)) \<and> (cmd \<in> {F_GETLK, F_SETLK, F_SETLKW} \<longrightarrow> (\<exists>l. a = LockArg l)))"

text \<open>What the table and \<open>enabled\<close> see of the state.\<close>

lemma enabled_cong:
  assumes "gEnv (hp h') = gEnv (hp h)" "coroutines (hp h') = coroutines (hp h)" "tasks (hp h') = tasks (hp h)"
  shows "enabled h' t = enabled h t"
proof -
  have "coroutine_self (hp h') t = coroutine_self (hp h) t"
    using assms(1) by (simp add: coroutine_self_def get_curr_thread_env_def get_env_def)
  moreover have "is_enable_sys_hook (hp h') co = is_enable_sys_hook (hp h) co" for co
    unfolding is_enable_sys_hook_def get_co_def get_task_def assms(2,3) ..
  ultimately show ?thesis by (simp add: enabled_def)
qed

lemma sys_call_frame:
  assumes "sys_call f c t h = Inr (r, a, h')"
  shows "enabled h' t' = enabled h t'" "gSocketFd h' = gSocketFd h" "g_sys h' = g_sys h" "get_by_fd h' fd = get_by_fd h fd"
proof -
  have "gEnv (hp h') = gEnv (hp h) \<and> coroutines (hp h') = coroutines (hp h) \<and> tasks (hp h') = tasks (hp h) \<and>
      gSocketFd h' = gSocketFd h \<and> g_sys h' = g_sys h"
    using assms by (auto simp: sys_call_def Let_def split_beta set_errno_def split: if_splits)
  then show "enabled h' t' = enabled h t'" "gSocketFd h' = gSocketFd h" "g_sys h' = g_sys h" "get_by_fd h' fd = get_by_fd h fd"
    using enabled_cong [of h' h] by (auto simp: get_by_fd_def)
qed

lemma sys_call_total: "g_sys h f \<Longrightarrow> \<exists>r a h'. sys_call f c t h = Inr (r, a, h')"
  by (simp add: sys_call_def Let_def split_beta)

lemma set_lp_frame:
  assumes "set_lp h fd f = Inr h'"
  shows "hp h' = hp h" "enabled h' t = enabled h t" "g_sys h' = g_sys h" "get_by_fd h' fd = map_option f (get_by_fd h fd)"
  using assms by (auto simp: set_lp_def enabled_def get_by_fd_def split: option.splits if_splits)

lemma set_lp_total: "get_by_fd h fd = Some lp \<Longrightarrow> \<exists>h'. set_lp h fd f = Inr h'"
  by (simp add: set_lp_def)

lemma fcntl_hook_other:
  assumes cmd: "cmd \<noteq> F_SETFL" and fits: "arg_fits (cmd, a)" and fd: "0 \<le> fd"
  shows "(\<exists>b. fcntl_hook L h t fd cmd a = fcntl_sys L (HOOK_SYS_FUNC L Sys_fcntl h) t fd cmd b) \<or>
    fcntl_hook L h t fd cmd a = Inr (-1, HOOK_SYS_FUNC L Sys_fcntl h)"
proof -
  consider i where "cmd \<in> {F_DUPFD, F_SETFD, F_SETOWN}" "a = IntArg i"
    | "cmd \<notin> {F_DUPFD, F_SETFD, F_SETOWN}" "cmd \<in> {F_GETFD, F_GETFL, F_GETOWN}"
    | l where "cmd \<notin> {F_DUPFD, F_SETFD, F_SETOWN}" "cmd \<notin> {F_GETFD, F_GETFL, F_GETOWN}" "cmd \<in> {F_GETLK, F_SETLK, F_SETLKW}" "a = LockArg l"
    | "cmd \<notin> {F_DUPFD, F_SETFD, F_SETOWN}" "cmd \<notin> {F_GETFD, F_GETFL, F_GETOWN}" "cmd \<notin> {F_GETLK, F_SETLK, F_SETLKW}"
    using fits unfolding arg_fits_def Let_def split by blast
  then show ?thesis
  proof cases
    case 1
    then have "fcntl_hook L h t fd cmd a = fcntl_sys L (HOOK_SYS_FUNC L Sys_fcntl h) t fd cmd (IntArg i)"
      using fd by (simp only: fcntl_hook_def Let_def arg_int_def fcntl_arg.case bindR.simps if_True not_less[symmetric] if_False)
    then show ?thesis by blast
  next
    case 2
    then have "fcntl_hook L h t fd cmd a = fcntl_sys L (HOOK_SYS_FUNC L Sys_fcntl h) t fd cmd NoArg"
      using fd by (simp only: fcntl_hook_def Let_def if_True not_less[symmetric] if_False)
    then show ?thesis by blast
  next
    case 3
    then have "fcntl_hook L h t fd cmd a = fcntl_sys L (HOOK_SYS_FUNC L Sys_fcntl h) t fd cmd (LockArg l)"
      using fd cmd by (simp only: fcntl_hook_def Let_def arg_lock_def fcntl_arg.case bindR.simps if_True not_less[symmetric] if_False)
    then show ?thesis by blast
  next
    case 4
    then show ?thesis using fd cmd by (simp only: fcntl_hook_def Let_def not_less[symmetric] if_False simp_thms)
  qed
qed

lemma fcntl_hook_nonblock:
  assumes law: "fcntl_law L fl" and en: "enabled h t = Inr (co, True)" and lp: "get_by_fd h fd \<noteq> None" and fd: "0 \<le> fd"
    and sys: "g_sys (HOOK_SYS_FUNC L Sys_fcntl h) Sys_fcntl" and fits: "arg_fits (cmd, a)"
  shows "\<exists>ret h'. fcntl_hook L h t fd cmd a = Inr (ret, h') \<and> (\<forall>t'. enabled h' t' = enabled h t') \<and> get_by_fd h' fd \<noteq> None \<and>
    g_sys h' Sys_fcntl \<and> (nonblock (fl fd (world (hp h))) \<or> cmd = F_SETFL \<and> ret = 0 \<longrightarrow> nonblock (fl fd (world (hp h')))) \<and>
    (\<exists>u. get_by_fd h' fd = map_option (user_flag_update u) (get_by_fd h fd)) \<and>
    (cmd = F_SETFL \<longrightarrow> ret = fst (fst (l_fcntl L fd F_SETFL (case a of IntArg p \<Rightarrow> IntArg (p OR O_NONBLOCK) | _ \<Rightarrow> NoArg) (world (hp h)))))"
proof -
  let ?h = "HOOK_SYS_FUNC L Sys_fcntl h"
  have call: "\<exists>ret h'. fcntl_sys L ?h t fd cmd b = Inr (ret, h') \<and> (\<forall>t'. enabled h' t' = enabled h t') \<and> get_by_fd h' fd = get_by_fd h fd \<and> g_sys h' Sys_fcntl \<and>
      ret = fst (fst (l_fcntl L fd cmd b (world (hp h)))) \<and> nonblock (fl fd (world (hp h'))) = (if cmd = F_SETFL \<and> ret = 0 then (case b of IntArg p \<Rightarrow> nonblock p | _ \<Rightarrow> False) else nonblock (fl fd (world (hp h))))" for b
  proof -
    obtain r h' where c: "sys_call Sys_fcntl (l_fcntl L fd cmd b) t ?h = Inr (r, (), h')"
      using sys_call_total [OF sys, of "l_fcntl L fd cmd b" t] by auto
    have "nonblock (fl fd (world (hp h'))) = (if cmd = F_SETFL \<and> r = 0 then (case b of IntArg p \<Rightarrow> nonblock p | _ \<Rightarrow> False) else nonblock (fl fd (world (hp h))))"
      using law sys_call_world [OF c] by (auto simp: fcntl_law_def)
    moreover have "r = fst (fst (l_fcntl L fd cmd b (world (hp h))))" using sys_call_world [OF c] by auto
    ultimately show ?thesis using c sys_call_frame [OF c] en lp sys by (auto simp: fcntl_sys_def)
  qed
  show ?thesis
  proof (cases "cmd = F_SETFL")
    case True
    then obtain p where a: "a = IntArg p" using fits by (auto simp: arg_fits_def)
    from call [of "IntArg (p OR O_NONBLOCK)"] obtain ret h' where c: "fcntl_sys L ?h t fd cmd (IntArg (p OR O_NONBLOCK)) = Inr (ret, h')"
      "\<forall>t'. enabled h' t' = enabled h t'" "get_by_fd h' fd = get_by_fd h fd" "g_sys h' Sys_fcntl"
      "nonblock (fl fd (world (hp h'))) = (ret = 0 \<or> nonblock (fl fd (world (hp h))))"
      "ret = fst (fst (l_fcntl L fd F_SETFL (IntArg (p OR O_NONBLOCK)) (world (hp h))))"
      using True by (auto split: if_splits)
    from lp obtain r where r: "get_by_fd h fd = Some r" by blast
    then obtain h2 where h2: "set_lp h' fd (\<lambda>lp. lp\<lparr>user_flag := p\<rparr>) = Inr h2" using c(3) set_lp_total by metis
    have same: "map_option (user_flag_update (\<lambda>x. x)) (Some r) = Some r" by simp
    show ?thesis
    proof (cases "ret = 0")
      case ok: True
      then have "fcntl_hook L h t fd cmd a = Inr (0, h2)"
        using True a c(1) en r fd h2 by (simp add: fcntl_hook_def Let_def arg_int_def fcntl_defs)
      with True a c r ok set_lp_frame [OF h2] show ?thesis by auto
    next
      case False
      then have "fcntl_hook L h t fd cmd a = Inr (ret, h')"
        using True a c(1) en r fd by (simp add: fcntl_hook_def Let_def arg_int_def fcntl_defs)
      with True a c r False same show ?thesis by (auto intro!: exI [of _ "\<lambda>x. x"])
    qed
  next
    case False
    have "(\<exists>b. fcntl_hook L h t fd cmd a = fcntl_sys L ?h t fd cmd b) \<or> fcntl_hook L h t fd cmd a = Inr (-1, ?h)"
      by (rule fcntl_hook_other [OF False fits fd])
    then consider b where "fcntl_hook L h t fd cmd a = fcntl_sys L ?h t fd cmd b" | "fcntl_hook L h t fd cmd a = Inr (-1, ?h)" by blast
    then show ?thesis
    proof cases
      case 1
      with call [of b] False lp show ?thesis by (auto intro!: exI [of _ "\<lambda>x. x"])
    qed (use False en lp sys in \<open>auto intro!: exI [of _ "\<lambda>x. x"]\<close>)
  qed
qed

text \<open>A call of \<open>fcntl\<close> on the descriptor, by the code that runs on some thread.\<close>

definition fcntl_step :: "'k libc \<Rightarrow> int \<Rightarrow> 'k hooks \<Rightarrow> nat \<times> int \<times> fcntl_arg \<Rightarrow> 'k hooks c_result" where
  "fcntl_step L fd h c = bindR (fcntl_hook L h (fst c) fd (fst (snd c)) (snd (snd c))) (\<lambda>(_, h). Inr h)"

definition hooked_call :: "'k hooks \<Rightarrow> nat \<times> int \<times> fcntl_arg \<Rightarrow> bool" where
  "hooked_call h c \<longleftrightarrow> arg_fits (snd c) \<and> (\<exists>co. enabled h (fst c) = Inr (co, True))"

lemma fcntl_steps:
  assumes law: "fcntl_law L fl" and fd: "0 \<le> fd"
  shows "list_all (hooked_call h) cs \<Longrightarrow> get_by_fd h fd \<noteq> None \<Longrightarrow> g_sys h Sys_fcntl \<Longrightarrow> nonblock (fl fd (world (hp h))) \<Longrightarrow>
    \<exists>h'. foldR (fcntl_step L fd) h cs = Inr h' \<and> nonblock (fl fd (world (hp h'))) \<and> (\<forall>t'. enabled h' t' = enabled h t') \<and>
      get_by_fd h' fd \<noteq> None \<and> g_sys h' Sys_fcntl"
proof (induction cs arbitrary: h)
  case (Cons c cs)
  from Cons.prems(1) obtain co where c: "arg_fits (fst (snd c), snd (snd c))" "enabled h (fst c) = Inr (co, True)" by (auto simp: hooked_call_def)
  have "g_sys (HOOK_SYS_FUNC L Sys_fcntl h) Sys_fcntl" using Cons.prems(3) by (simp add: HOOK_SYS_FUNC_def)
  from fcntl_hook_nonblock [OF law c(2) Cons.prems(2) fd this c(1)] Cons.prems(4)
  obtain ret h' where h': "fcntl_hook L h (fst c) fd (fst (snd c)) (snd (snd c)) = Inr (ret, h')" "\<forall>t'. enabled h' t' = enabled h t'"
      "get_by_fd h' fd \<noteq> None" "g_sys h' Sys_fcntl" "nonblock (fl fd (world (hp h')))" by blast
  have "list_all (hooked_call h') cs" using Cons.prems(1) h'(2) by (simp add: hooked_call_def list_all_iff)
  from Cons.IH [OF this h'(3-5)] h'(1,2) show ?case by (auto simp: fcntl_step_def)
qed auto

text \<open>\<open>F_SETFL\<close> by code without hooks is passed on as it is.\<close>

lemma fcntl_plain:
  assumes law: "fcntl_law L fl" and en: "enabled h t = Inr (co, False)" and lp: "get_by_fd h fd \<noteq> None" and fd: "0 \<le> fd"
    and sys: "g_sys h Sys_fcntl" and setfl: "\<And>p w. fst (fst (l_fcntl L fd F_SETFL (IntArg p) w)) = 0"
  shows "\<exists>h'. fcntl_hook L h t fd F_SETFL (IntArg p) = Inr (0, h') \<and> nonblock (fl fd (world (hp h'))) = nonblock p"
proof -
  have h: "HOOK_SYS_FUNC L Sys_fcntl h = h" using sys by (simp add: HOOK_SYS_FUNC_def)
  obtain r h1 where c: "sys_call Sys_fcntl (l_fcntl L fd F_SETFL (IntArg p)) t h = Inr (r, (), h1)"
    using sys_call_total [OF sys, of "l_fcntl L fd F_SETFL (IntArg p)" t] by auto
  from sys_call_world [OF c] setfl [of p "world (hp h)"] have r: "r = 0" by auto
  with sys_call_world [OF c] law have nb: "nonblock (fl fd (world (hp h1))) = nonblock p" unfolding fcntl_law_def by fastforce
  from lp sys_call_frame(4) [OF c] obtain lp' where "get_by_fd h1 fd = Some lp'" by fastforce
  then obtain h2 where h2: "set_lp h1 fd (\<lambda>lp. lp\<lparr>user_flag := p\<rparr>) = Inr h2" using set_lp_total by blast
  have "fcntl_hook L h t fd F_SETFL (IntArg p) = Inr (0, h2)"
    using c r h2 en lp fd h by (simp add: fcntl_hook_def Let_def arg_int_def fcntl_sys_def fcntl_defs)
  with nb set_lp_frame(1) [OF h2] show ?thesis by simp
qed

lemma set_nonblock_ok:
  assumes law: "fcntl_law L fl" and en: "enabled h t = Inr (co, True)" and lp: "get_by_fd h fd = Some lp" and fd: "0 \<le> fd"
    and sys: "g_sys (HOOK_SYS_FUNC L Sys_fcntl h) Sys_fcntl" and setfl: "\<And>p w. fst (fst (l_fcntl L fd F_SETFL (IntArg p) w)) = 0"
  shows "\<exists>h' u. set_nonblock L h t fd = Inr h' \<and> (\<forall>t'. enabled h' t' = enabled h t') \<and> get_by_fd h' fd = Some (user_flag_update u lp) \<and>
    g_sys h' Sys_fcntl \<and> nonblock (fl fd (world (hp h')))"
proof -
  have lp': "get_by_fd h fd \<noteq> None" using lp by simp
  have "arg_fits (F_GETFL, IntArg 0)" by (simp add: arg_fits_def fcntl_defs)
  from fcntl_hook_nonblock [OF law en lp' fd sys this] obtain f h1 u where h1: "fcntl_hook L h t fd F_GETFL (IntArg 0) = Inr (f, h1)"
      "\<forall>t'. enabled h1 t' = enabled h t'" "get_by_fd h1 fd = Some (user_flag_update u lp)" "g_sys h1 Sys_fcntl"
    using lp by auto
  have en1: "enabled h1 t = Inr (co, True)" using h1(2) en by simp
  have "arg_fits (F_SETFL, IntArg (f OR O_NONBLOCK))" by (simp add: arg_fits_def fcntl_defs)
  moreover have "get_by_fd h1 fd \<noteq> None" "g_sys (HOOK_SYS_FUNC L Sys_fcntl h1) Sys_fcntl" using h1 by (simp_all add: HOOK_SYS_FUNC_def)
  ultimately obtain r h2 v where h2: "fcntl_hook L h1 t fd F_SETFL (IntArg (f OR O_NONBLOCK)) = Inr (r, h2)" "r = 0 \<longrightarrow> nonblock (fl fd (world (hp h2)))"
      "\<forall>t'. enabled h2 t' = enabled h1 t'" "get_by_fd h2 fd = Some (user_flag_update v (user_flag_update u lp))" "g_sys h2 Sys_fcntl"
      "r = fst (fst (l_fcntl L fd F_SETFL (IntArg ((f OR O_NONBLOCK) OR O_NONBLOCK)) (world (hp h1))))"
    using fcntl_hook_nonblock [OF law en1 _ fd, of F_SETFL "IntArg (f OR O_NONBLOCK)"] h1(3) by auto
  have "user_flag_update v (user_flag_update u lp) = user_flag_update (v \<circ> u) lp" by (cases lp) simp
  then show ?thesis using h1(1,2) h2 setfl by (auto simp: set_nonblock_def)
qed

text \<open>
  C13. A socket made by \<open>socket\<close> in a coroutine with hooks is entered into the table with its domain and
  the default timeouts, and is non-blocking. It stays so through every sequence of \<open>fcntl\<close> calls that
  coroutines with hooks make on it, of whatever thread, also if they ask for blocking mode. Code without
  hooks does change the mode: its \<open>F_SETFL\<close> is passed on as it is. The table ends at 102400: with a
  descriptor beyond it, \<open>socket\<close> writes through a null pointer.
\<close>

theorem socket_stays_nonblocking:
  assumes law: "fcntl_law L fl" and en: "enabled h t = Inr (co, True)" and dl: "l_dlsym L Sys_fcntl"
    and call: "sys_call Sys_socket (l_socket L domain type protocol) t (HOOK_SYS_FUNC L Sys_socket h) = Inr (fd, (), h1)" and fd: "0 \<le> fd"
    and setfl: "\<And>p w. fst (fst (l_fcntl L fd F_SETFL (IntArg p) w)) = 0" and cs: "list_all (hooked_call h) cs"
  shows "if fd < int gSocketFd_size
    then \<exists>h2 u h3. socket_hook L h t domain type protocol = Inr (fd, h2) \<and>
      get_by_fd h2 fd = Some (new_rpchook\<lparr>rh_domain := domain, user_flag := u\<rparr>) \<and>
      foldR (fcntl_step L fd) h2 cs = Inr h3 \<and> nonblock (fl fd (world (hp h3))) \<and>
      (\<forall>t' co' p. enabled h t' = Inr (co', False) \<longrightarrow>
         (\<exists>h4. fcntl_hook L h3 t' fd F_SETFL (IntArg p) = Inr (0, h4) \<and> nonblock (fl fd (world (hp h4))) = nonblock p))
    else socket_hook L h t domain type protocol = Inl NullDeref"
proof (cases "fd < int gSocketFd_size")
  case True
  let ?lp = "new_rpchook\<lparr>rh_domain := domain\<rparr>"
  let ?h2 = "HOOK_SYS_FUNC L Sys_fcntl (h1\<lparr>gSocketFd := (gSocketFd h1)(nat fd \<mapsto> ?lp)\<rparr>)"
  have lp: "get_by_fd ?h2 fd = Some ?lp" using True fd by (simp add: get_by_fd_def)
  have "enabled ?h2 t' = enabled h1 t'" for t' by (simp, rule enabled_cong) simp_all
  then have en2: "enabled ?h2 t' = enabled h t'" for t' using sys_call_frame(1) [OF call] by simp
  then have en2': "enabled ?h2 t = Inr (co, True)" using en by simp
  have "g_sys (HOOK_SYS_FUNC L Sys_fcntl ?h2) Sys_fcntl" using dl by (auto simp: HOOK_SYS_FUNC_def)
  from set_nonblock_ok [OF law en2' lp fd this setfl] obtain h2 u where h2: "set_nonblock L ?h2 t fd = Inr h2" "\<forall>t'. enabled h2 t' = enabled ?h2 t'"
      "get_by_fd h2 fd = Some (user_flag_update u ?lp)" "g_sys h2 Sys_fcntl" "nonblock (fl fd (world (hp h2)))" by blast
  have run: "socket_hook L h t domain type protocol = Inr (fd, h2)"
    using en call fd True h2(1) by (simp add: socket_hook_def Let_def alloc_by_fd_def set_lp_def get_by_fd_def)
  have "list_all (hooked_call h2) cs" using cs h2(2) en2 by (simp add: hooked_call_def list_all_iff)
  moreover have "get_by_fd h2 fd \<noteq> None" using h2(3) by simp
  ultimately obtain h3 where h3: "foldR (fcntl_step L fd) h2 cs = Inr h3" "nonblock (fl fd (world (hp h3)))" "\<forall>t'. enabled h3 t' = enabled h2 t'"
      "get_by_fd h3 fd \<noteq> None" "g_sys h3 Sys_fcntl" using fcntl_steps [OF law fd _ _ h2(4,5)] by blast
  have plain: "\<exists>h4. fcntl_hook L h3 t' fd F_SETFL (IntArg p) = Inr (0, h4) \<and> nonblock (fl fd (world (hp h4))) = nonblock p"
    if "enabled h t' = Inr (co', False)" for t' co' p
    by (rule fcntl_plain [OF law _ h3(4) fd h3(5) setfl, where co = co']) (use that h3(3) h2(2) en2 in simp)
  have "user_flag_update u ?lp = ?lp\<lparr>user_flag := u (user_flag ?lp)\<rparr>" by (simp add: new_rpchook_def)
  with run h2(3) h3(1,2) plain True show ?thesis by auto
next
  case False
  with en call fd show ?thesis by (simp add: socket_hook_def Let_def alloc_by_fd_def set_lp_def get_by_fd_def)
qed

text \<open>A C library whose world is the flags of the only descriptor.\<close>

definition flag_libc :: "int libc" where
  "flag_libc = (io_libc (\<lambda>_ w. ((0, 0, []), w)) (\<lambda>_ w. ((0, 0, ()), w)))\<lparr>l_fcntl := \<lambda>_ cmd a w.
     if cmd = F_SETFL then (case a of IntArg p \<Rightarrow> ((0, 0, ()), p) | _ \<Rightarrow> ((-1, EINVAL, ()), w))
     else if cmd = F_GETFL then ((w, 0, ()), w) else ((0, 0, ()), w)\<rparr>"

theorem socket_stays_nonblocking_witness:
  "\<exists>h2 u h3. socket_hook flag_libc (io_hooks 2) 7 2 1 0 = Inr (9, h2) \<and>
     get_by_fd h2 9 = Some (new_rpchook\<lparr>rh_domain := 2, user_flag := u\<rparr>) \<and>
     foldR (fcntl_step flag_libc 9) h2 [(7, F_SETFL, IntArg 0), (7, 99, NoArg), (7, F_GETFL, NoArg)] = Inr h3 \<and> nonblock (world (hp h3))"
proof -
  let ?h = "HOOK_SYS_FUNC flag_libc Sys_socket (io_hooks 2)"
  have "fcntl_law flag_libc (\<lambda>_ w. w)"
    by (auto simp: fcntl_law_def flag_libc_def split: fcntl_arg.splits if_splits)
  moreover have "g_sys ?h Sys_socket" by (rule HOOK_SYS_FUNC_sets) (simp add: flag_libc_def io_libc_def)
  then have "sys_call Sys_socket (l_socket flag_libc 2 1 0) 7 ?h = Inr (9, (), ?h)"
    by (simp add: sys_call_def flag_libc_def io_libc_def)
  moreover have "list_all (hooked_call (io_hooks (2 :: int))) [(7, F_SETFL, IntArg 0), (7, 99, NoArg), (7, F_GETFL, NoArg)]"
    using io_start(1) [of "2 :: int"] by (simp add: hooked_call_def arg_fits_def fcntl_defs)
  moreover have "l_dlsym flag_libc Sys_fcntl" "\<And>p w. fst (fst (l_fcntl flag_libc 9 F_SETFL (IntArg p) w)) = 0"
    by (simp_all add: flag_libc_def io_libc_def)
  ultimately show ?thesis
    using socket_stays_nonblocking [of flag_libc "\<lambda>_ w. w" "io_hooks 2" 7 "Some 2" 2 1 0 9 ?h "[(7, F_SETFL, IntArg 0), (7, 99, NoArg), (7, F_GETFL, NoArg)]"]
      io_start(1) [of "2 :: int"] by (simp add: gSocketFd_size_def) blast
qed

section \<open>Timeouts of a socket\<close>

text \<open>The value of the option as a program passes it: a \<open>struct timeval\<close> in memory.\<close>

definition bytes_of_long :: "int \<Rightarrow> bytes" where
  "bytes_of_long n = map (\<lambda>i. ucast (drop_bit (8 * i) (word_of_int n :: 64 word))) [0..<8]"

definition bytes_of_timeval :: "timeval \<Rightarrow> bytes" where
  "bytes_of_timeval tv = bytes_of_long (tv_sec tv) @ bytes_of_long (tv_usec tv)"

lemma bytes_value:
  "foldr (\<lambda>b n. uint b + 256 * n) (map (\<lambda>i. ucast (drop_bit (8 * i) w) :: 8 word) [0..<k]) 0 = uint w mod 2 ^ (8 * k)" for w :: "64 word"
proof (induction k arbitrary: w)
  case (Suc k)
  have "map (\<lambda>i. ucast (drop_bit (8 * i) w) :: 8 word) [0..<Suc k] =
      ucast w # map (\<lambda>i. ucast (drop_bit (8 * i) (drop_bit 8 w))) [0..<k]"
    by (simp add: upt_conv_Cons map_Suc_upt [symmetric] add.commute del: upt_Suc)
  moreover have "uint (ucast w :: 8 word) = uint w mod 256" by (simp add: unsigned_ucast_eq take_bit_eq_mod)
  moreover have "uint (drop_bit 8 w) = uint w div 256" by (simp add: drop_bit_eq_div uint_div)
  moreover have "(2 :: int) ^ (8 * Suc k) = 256 * 2 ^ (8 * k)" by (simp add: power_add)
  ultimately show ?case using Suc [of "drop_bit 8 w"] mod_mult2_eq' [of "uint w" 256 "2 ^ (8 * k)"] by simp
qed simp

definition long_range :: "int \<Rightarrow> bool" where
  "long_range n \<longleftrightarrow> - (2 ^ 63) \<le> n \<and> n < 2 ^ 63"

lemma le_long_of_bytes: "long_range n \<Longrightarrow> le_long (bytes_of_long n) = n"
proof -
  assume n: "long_range n"
  have "foldr (\<lambda>b n. uint b + 256 * n) (bytes_of_long n) 0 = uint (word_of_int n :: 64 word)"
    unfolding bytes_of_long_def bytes_value using uint_lt2p [of "word_of_int n :: 64 word"] by (simp del: uint_lt2p)
  then have "le_long (bytes_of_long n) = sint (word_of_int n :: 64 word)" by (simp add: le_long_def)
  with n show ?thesis by (simp add: long_range_def sint_sbintrunc' signed_take_bit_int_eq_self)
qed

lemma timeval_roundtrip:
  assumes "long_range (tv_sec tv)" and "long_range (tv_usec tv)"
  shows "timeval_of_bytes (bytes_of_timeval tv) = Inr tv"
proof -
  have "length (bytes_of_long n) = 8" for n by (simp add: bytes_of_long_def)
  then show ?thesis using assms by (simp add: timeval_of_bytes_def bytes_of_timeval_def le_long_of_bytes)
qed

text \<open>\<open>poll_inner\<close> does not wait for longer than \<open>kMaxTimeoutMs\<close>, whatever time it is given.\<close>

lemma poll_inner_cut:
  assumes "0 \<le> ms"
  shows "poll_inner K sched h t fds n ms pf = poll_inner K sched h t fds n (min ms kMaxTimeoutMs) pf"
proof -
  have "fix_coroutine_timeout p t c ms = fix_coroutine_timeout p t c (min ms kMaxTimeoutMs)" for p :: "'a process" and c
    unfolding fix_coroutine_timeout_def Let_def
    by (intro bindR_cong refl if_cong arg_cong [of _ _ Inr]; use assms in \<open>auto simp: kMaxTimeoutMs_def\<close>)
  then show ?thesis by (simp add: poll_inner_def poll_enter_def)
qed

text \<open>
  C26. Setting a timeout with \<open>setsockopt\<close> makes exactly that time the one that \<open>read\<close> and \<open>recv\<close>
  (\<open>SO_RCVTIMEO\<close>), or \<open>write\<close> and \<open>send\<close> (\<open>SO_SNDTIMEO\<close>), hand to \<open>wait_io_ready\<close> whenever they wait for
  the descriptor, in milliseconds, and changes nothing else of the record. Each single wait is then cut
  to \<open>kMaxTimeoutMs\<close>, ten milliseconds, by \<open>poll_inner\<close>. The code reads a whole \<open>struct timeval\<close>, so a
  shorter value is read beyond its end.
\<close>

theorem setsockopt_roundtrip:
  assumes en: "enabled h t = Inr (co, True)" and lp: "get_by_fd h fd = Some lp" and dl: "l_dlsym L Sys_setsockopt"
    and tv: "long_range (tv_sec tv)" "long_range (tv_usec tv)" and ms: "0 \<le> timeout_ms_of tv" and short: "length bs < 16"
  shows "(\<exists>ret h'. setsockopt_hook L h t fd SOL_SOCKET SO_RCVTIMEO (bytes_of_timeval tv) = Inr (ret, h') \<and>
      get_by_fd h' fd = Some (lp\<lparr>read_timeout := tv\<rparr>) \<and>
      read_hook L K sched h' t fd n = read_result (read_loop (wait_io_ready L K sched t co fd POLL_READ (timeout_ms_of tv))
        (\<lambda>k. sys_call Sys_read (l_read L fd k) t) t n 0 [] (HOOK_SYS_FUNC L Sys_read h')) \<and>
      recv_hook L K sched h' t fd n fl = read_result (read_loop (wait_io_ready L K sched t co fd POLL_READ (timeout_ms_of tv))
        (\<lambda>k. sys_call Sys_recv (l_recv L fd k fl) t) t n 0 [] (HOOK_SYS_FUNC L Sys_recv h'))) \<and>
    (\<exists>ret h'. setsockopt_hook L h t fd SOL_SOCKET SO_SNDTIMEO (bytes_of_timeval tv) = Inr (ret, h') \<and>
      get_by_fd h' fd = Some (lp\<lparr>write_timeout := tv\<rparr>) \<and>
      write_hook L K sched h' t fd buf = write_all (wait_io_ready L K sched t co fd POLL_WRITE (timeout_ms_of tv))
        (\<lambda>b. sys_call Sys_write (l_write L fd b) t) t buf (HOOK_SYS_FUNC L Sys_write h') \<and>
      send_hook L K sched h' t fd buf fl = write_all (wait_io_ready L K sched t co fd POLL_WRITE (timeout_ms_of tv))
        (\<lambda>b. sys_call Sys_send (l_send L fd b fl) t) t buf (HOOK_SYS_FUNC L Sys_send h')) \<and>
    poll_inner K sched g t fds k (timeout_ms_of tv) pf = poll_inner K sched g t fds k (min (timeout_ms_of tv) kMaxTimeoutMs) pf \<and>
    setsockopt_hook L h t fd SOL_SOCKET SO_RCVTIMEO bs = Inl OutOfBounds"
proof -
  let ?h = "HOOK_SYS_FUNC L Sys_setsockopt h"
  have sys: "\<exists>ret h2. bindR (sys_call Sys_setsockopt c t h1) (\<lambda>(ret, _, h). Inr (ret, h)) = Inr (ret, h2) \<and> get_by_fd h2 fd = Some (f lp) \<and>
      enabled h2 t = Inr (co, True)"
    if "set_lp ?h fd f = Inr h1" for h1 f and c :: "(unit, _) libcall"
  proof -
    have "g_sys h1 Sys_setsockopt" using set_lp_frame(3) [OF that] dl by (simp add: HOOK_SYS_FUNC_sets)
    then obtain r h2 where r: "sys_call Sys_setsockopt c t h1 = Inr (r, (), h2)" using sys_call_total [of h1 Sys_setsockopt c t] by auto
    with sys_call_frame(1,4) [OF r] set_lp_frame(2,4) [OF that] lp en show ?thesis by auto
  qed
  have "get_by_fd ?h fd = Some lp" using lp by simp
  then obtain h1 h2 where set: "set_lp ?h fd (\<lambda>lp. lp\<lparr>read_timeout := tv\<rparr>) = Inr h1" "set_lp ?h fd (\<lambda>lp. lp\<lparr>write_timeout := tv\<rparr>) = Inr h2"
    using set_lp_total by blast
  let ?c = "\<lambda>nm. l_setsockopt L fd SOL_SOCKET nm (bytes_of_timeval tv)"
  from sys [OF set(1), of "?c SO_RCVTIMEO"] obtain r1 h3 where h3: "setsockopt_hook L h t fd SOL_SOCKET SO_RCVTIMEO (bytes_of_timeval tv) = Inr (r1, h3)"
    "get_by_fd h3 fd = Some (lp\<lparr>read_timeout := tv\<rparr>)" "enabled h3 t = Inr (co, True)"
    using set(1) en lp tv by (auto simp: setsockopt_hook_def Let_def timeval_roundtrip)
  from sys [OF set(2), of "?c SO_SNDTIMEO"] obtain r2 h4 where h4: "setsockopt_hook L h t fd SOL_SOCKET SO_SNDTIMEO (bytes_of_timeval tv) = Inr (r2, h4)"
    "get_by_fd h4 fd = Some (lp\<lparr>write_timeout := tv\<rparr>)" "enabled h4 t = Inr (co, True)"
    using set(2) en lp tv by (auto simp: setsockopt_hook_def Let_def timeval_roundtrip SO_RCVTIMEO_def SO_SNDTIMEO_def)
  have "setsockopt_hook L h t fd SOL_SOCKET SO_RCVTIMEO bs = Inl OutOfBounds"
    using en lp short by (simp add: setsockopt_hook_def Let_def timeval_of_bytes_def)
  with h3 h4 poll_inner_cut [OF ms] show ?thesis
    by (auto simp: read_hook_def recv_hook_def write_hook_def send_hook_def Let_def)
qed

theorem setsockopt_roundtrip_witness:
  "(\<exists>ret h'. setsockopt_hook flag_libc (io_hooks 2) 7 9 SOL_SOCKET SO_RCVTIMEO (bytes_of_timeval \<lparr>tv_sec = 3, tv_usec = 5000\<rparr>) = Inr (ret, h') \<and>
     read_hook flag_libc quiet_kernel (\<lambda>_. Inr) h' 7 9 64 = read_result (read_loop (wait_io_ready flag_libc quiet_kernel (\<lambda>_. Inr) 7 (Some 2) 9 POLL_READ 3005)
        (\<lambda>k. sys_call Sys_read (l_read flag_libc 9 k) 7) 7 64 0 [] (HOOK_SYS_FUNC flag_libc Sys_read h'))) \<and>
   setsockopt_hook flag_libc (io_hooks 2) 7 9 SOL_SOCKET SO_RCVTIMEO [1, 0, 0, 0] = Inl OutOfBounds"
proof -
  let ?tv = "\<lparr>tv_sec = 3, tv_usec = 5000\<rparr>"
  have "l_dlsym flag_libc Sys_setsockopt" by (simp add: flag_libc_def io_libc_def)
  moreover have "long_range (tv_sec ?tv)" "long_range (tv_usec ?tv)" "length [1, 0, 0, 0 :: 8 word] < 16" "timeout_ms_of ?tv = 3005"
    by (simp_all add: long_range_def timeout_ms_of_def c_quot_def wrap32_def)
  ultimately show ?thesis
    using setsockopt_roundtrip [of "io_hooks 2" 7 "Some 2" 9 new_rpchook flag_libc ?tv "[1, 0, 0, 0]" quiet_kernel "\<lambda>_. Inr" 64, OF io_start(1,2)]
    by (simp del: read_loop.simps) blast
qed

section \<open>select as it is translated to poll\<close>

lemma fill_none: "fds \<noteq> [] \<Longrightarrow> length pfs \<le> i \<Longrightarrow> fill_pollfds i ev fds pfs = Inl OutOfBounds"
  by (cases fds) (simp_all add: fill_pollfds_def array_get_def)

lemma fill_last:
  "i < length pfs \<Longrightarrow> fill_pollfds i ev fds pfs =
     Inr (if fds = [] then pfs else pfs[i := (pfs ! i)\<lparr>pf_fd := int (last fds), pf_events := ev\<rparr>])"
  by (induction fds arbitrary: pfs) (simp_all add: fill_pollfds_def)

lemma fill_empty [simp]: "fill_pollfds i ev [] pfs = Inr pfs"
  by (simp add: fill_pollfds_def)

text \<open>The members of a set, as the loops of \<open>select\<close> see them.\<close>

definition members :: "int \<Rightarrow> fd_set option \<Rightarrow> nat list" where
  "members nfds s = (case s of None \<Rightarrow> [] | Some s \<Rightarrow> filter (\<lambda>fd. fd \<in> s) [0..<nat nfds])"

lemma FD_ISSET_members: "nfds \<le> int FD_SETSIZE \<Longrightarrow> FD_ISSET_all nfds s = Inr (members nfds s)"
  by (simp add: FD_ISSET_all_def members_def split: option.split)

text \<open>
  C32. \<open>select\<close> writes the descriptors of its second and third set behind the end of the array it has
  allocated, when they are all there is: the entries are indexed by the number of the set.
\<close>

theorem select_overflows:
  assumes en: "enabled h t = Inr (co, True)" and nfds: "nfds \<le> int FD_SETSIZE"
    and none: "sys_call Sys_select (l_select L nfds rs ws es (Some \<lparr>tv_sec = 0, tv_usec = 0\<rparr>)) t (HOOK_SYS_FUNC L Sys_select h) = Inr (0, sets, h1)"
    and few: "members nfds rs = []" "members nfds ws \<noteq> [] \<and> length (members nfds ws) + length (members nfds es) = 1 \<or>
      members nfds ws = [] \<and> members nfds es \<noteq> [] \<and> length (members nfds es) \<le> 2"
  shows "select_hook L K sched h t nfds rs ws es (Some tv) = Inl OutOfBounds"
  using few(2)
proof
  assume w: "members nfds ws \<noteq> [] \<and> length (members nfds ws) + length (members nfds es) = 1"
  then show ?thesis using en none few(1) nfds
    by (simp add: select_hook_def Let_def FD_ISSET_members fill_none)
next
  assume w: "members nfds ws = [] \<and> members nfds es \<noteq> [] \<and> length (members nfds es) \<le> 2"
  then show ?thesis using en none few(1) nfds
    by (simp add: select_hook_def Let_def FD_ISSET_members fill_none)
qed

text \<open>
  C33. \<open>select\<close> on a set of \<open>k\<close> descriptors to read from waits for the last one of them only (the other
  entries of the array are for descriptor zero, with no events), and when nothing happens in time it
  returns a variable that was never given a value.
\<close>

theorem select_watches_last:
  assumes en: "enabled h t = Inr (co, True)" and nfds: "nfds \<le> int FD_SETSIZE"
    and none: "sys_call Sys_select (l_select L nfds (Some s) None None (Some \<lparr>tv_sec = 0, tv_usec = 0\<rparr>)) t (HOOK_SYS_FUNC L Sys_select h) = Inr (0, sets, h1)"
    and some: "members nfds (Some s) \<noteq> []" and k: "k = length (members nfds (Some s))"
    and poll: "poll_hook L K sched h1 t (\<lparr>pf_fd = int (last (members nfds (Some s))), pf_events = POLLIN, pf_revents = 0\<rparr> # replicate (k - 1) zero_pollfd) k
      (timeout_ms_of tv) = Inr (n, pfs, h2)"
  shows "select_hook L K sched h t nfds (Some s) None None (Some tv) =
    (if n \<le> 0 then Inl Uninitialised
     else let (rs, ws, es, ret) = foldl pollfd_to_sets (Some s, None, None, 0) pfs in Inr (ret, (rs, ws, es), h2))"
proof -
  let ?pf = "\<lparr>pf_fd = int (last (members nfds (Some s))), pf_events = POLLIN, pf_revents = 0\<rparr>"
  have upd: "(replicate k z)[0 := v] = v # replicate (k - 1) z" if "0 < k" for k and z v :: pollfd using that by (cases k) simp_all
  have "0 < k" using some k by simp
  then have fill: "fill_pollfds 0 POLLIN (members nfds (Some s)) (replicate k zero_pollfd) = Inr (?pf # replicate (k - 1) zero_pollfd)"
    using some by (simp add: fill_last upd) (simp add: zero_pollfd_def)
  have mem: "members nfds None = []" by (simp add: members_def)
  have "select_hook L K sched h t nfds (Some s) None None (Some tv) =
      bindR (poll_hook L K sched h1 t (?pf # replicate (k - 1) zero_pollfd) k (timeout_ms_of tv)) (\<lambda>(n, poll_fds, h).
        if n \<le> 0 then Inl Uninitialised
        else let (readfds, writefds, exceptfds, ret) = foldl pollfd_to_sets (Some s, None, None, 0) poll_fds
             in Inr (ret, (readfds, writefds, exceptfds), h))"
    unfolding select_hook_def Let_def HOOK_SYS_FUNC_simps en bindR.simps split none FD_ISSET_members [OF nfds] mem
    by (simp add: k [symmetric] fill)
  with poll show ?thesis by simp
qed

definition three_fds :: fd_set where "three_fds = {3, 5, 9}"

lemma select_none:
  "sys_call Sys_select (l_select flag_libc n r w e tv) 7 (HOOK_SYS_FUNC flag_libc Sys_select (io_hooks 2)) =
    Inr (0, (r, w, e), HOOK_SYS_FUNC flag_libc Sys_select (io_hooks 2))"
  by (simp add: sys_call_def flag_libc_def io_libc_def HOOK_SYS_FUNC_def io_hooks_def)

theorem select_overflows_witness:
  "select_hook flag_libc quiet_kernel (\<lambda>_. Inr) (io_hooks 2) 7 10 None (Some {9}) None (Some \<lparr>tv_sec = 1, tv_usec = 0\<rparr>) = Inl OutOfBounds"
proof -
  have "[0..<nat 10] = [0, 1, 2, 3, 4, 5, 6, 7, 8, 9]" by (simp add: upt_rec)
  then have "members 10 (Some {9}) = [9]" "members 10 None = []" by (simp_all add: members_def)
  then show ?thesis by (intro select_overflows [OF io_start(1) _ select_none]) (simp_all add: FD_SETSIZE_def)
qed

theorem select_watches_last_witness:
  "select_hook flag_libc quiet_kernel (\<lambda>_. Inr) (io_hooks 2) 7 10 (Some three_fds) None None (Some \<lparr>tv_sec = 1, tv_usec = 0\<rparr>) = Inl Uninitialised"
proof -
  have "[0..<nat 10] = [0, 1, 2, 3, 4, 5, 6, 7, 8, 9]" by (simp add: upt_rec)
  then have "members 10 (Some three_fds) = [3, 5, 9]" by (simp add: members_def three_fds_def)
  moreover have "expired (HOOK_SYS_FUNC flag_libc Sys_select (io_hooks 2)) 7 2" using io_expired by simp
  ultimately show ?thesis
    using select_watches_last [OF io_start(1) _ select_none _ refl poll_expired, of 10 three_fds 2 quiet_kernel "\<lambda>_. Inr"] by (simp add: FD_SETSIZE_def)
qed

end
