(* ===== verification/Hook_Name.thy ===== *)
theory Hook_Name
  imports Hook_IO
begin

text \<open>
  Name resolution (\<^verbatim>\<open>src/src/hook_sys_call.c\<close>, lines 740 to 795): \<open>gethostbyname\<close> and
  \<open>coroutine_gethostbyname\<close>, whose buffer is kept by each coroutine under the key that
  \<^verbatim>\<open>src/src/coroutine_specific.c\<close> creates, and \<open>coroutine_init_env\<close> (\<^verbatim>\<open>src/src/coroutine_impl.c\<close>), which
  has that key created and sets the options of the library.
\<close>

section \<open>Operations\<close>

definition ERANGE :: int where "ERANGE = 34"
definition NETDB_INTERNAL :: int where "NETDB_INTERNAL = -1"

definition coroutine_pthread_key_init :: "'k libc \<Rightarrow> 'k hooks \<Rightarrow> 'k hooks" where
  "coroutine_pthread_key_init L h =
     (let (key, w) = l_pthread_key_create L (world (hp h));
          h = h\<lparr>hp := (hp h)\<lparr>world := w\<rparr>\<rparr>
      in case key of None \<Rightarrow> h | Some key \<Rightarrow> h\<lparr>hostbuf_key := key\<rparr>)"

definition SIGPIPE :: int where "SIGPIPE = 13"
definition SIG_IGN :: nat where "SIG_IGN = 1"

definition coroutine_init_env :: "'k libc \<Rightarrow> 'k hooks \<Rightarrow> coroutine_options_t \<Rightarrow> 'k hooks" where
  "coroutine_init_env L h options =
     (let h = coroutine_pthread_key_init L h;
          p = (hp h)\<lparr>gOptions := adjust_options options\<rparr>
      in h\<lparr>hp := p\<lparr>world := l_signal L SIGPIPE SIG_IGN (world p)\<rparr>\<rparr>)"

definition zero_hostbuf :: hostbuf_wrap where
  "zero_hostbuf = \<lparr>hb_host = [], hb_buffer = None, hb_buffer_size = 0, hb_host_errno = 0\<rparr>"

text \<open>
  The address of the record of the running coroutine, allocated on first use; a null pointer when
  \<open>coroutine_setspecific\<close> fails.
\<close>

definition own_hostbuf :: "'k kernel \<Rightarrow> 'k hooks \<Rightarrow> nat \<Rightarrow> (vptr \<times> 'k hooks) c_result" where
  "own_hostbuf K h t =
     bindR (coroutine_getspecific K (hp h) t (hostbuf_key h)) (\<lambda>(v, p).
     let h = h\<lparr>hp := p\<rparr> in
     if v \<noteq> NullPtr then Inr (v, h)
     else
       let a = next_id p;
           p = p\<lparr>next_id := a + 1\<rparr>;
           h = h\<lparr>hp := p, hostbufs := (hostbufs h)(a \<mapsto> zero_hostbuf)\<rparr> in
       bindR (coroutine_setspecific K (hp h) t (hostbuf_key h) (UserPtr a)) (\<lambda>(ret, p).
       let h = h\<lparr>hp := p\<rparr> in
       if ret \<noteq> 0 then Inr (NullPtr, h\<lparr>hostbufs := (hostbufs h)(a := None)\<rparr>) else Inr (UserPtr a, h)))"

definition get_hostbuf :: "'k hooks \<Rightarrow> vptr \<Rightarrow> (nat \<times> hostbuf_wrap) c_result" where
  "get_hostbuf h v =
     (case v of
        NullPtr \<Rightarrow> Inl NullDeref
      | UserPtr a \<Rightarrow> (case hostbufs h a of None \<Rightarrow> Inl DeadPointer | Some hb \<Rightarrow> Inr (a, hb))
      | _ \<Rightarrow> Inl DeadPointer)"

text \<open>The buffer before the first attempt: one that has grown is given back.\<close>

definition fresh_buffer :: "hostbuf_wrap \<Rightarrow> hostbuf_wrap" where
  "fresh_buffer hb =
     (let hb = (if hb_buffer hb \<noteq> None \<and> hb_buffer_size hb > 1024 then hb\<lparr>hb_buffer := None\<rparr> else hb)
      in if hb_buffer hb = None then hb\<lparr>hb_buffer := Some 1024, hb_buffer_size := 1024\<rparr> else hb)"

text \<open>The loop that doubles the buffer; \<open>size_t\<close> wraps around.\<close>

partial_function (option) host_loop ::
  "'k libc \<Rightarrow> string \<Rightarrow> hostbuf_wrap \<Rightarrow> 'k \<Rightarrow> (int \<times> bool \<times> hostbuf_wrap \<times> 'k) option" where
  "host_loop L name hb w =
     (let ((ret, h_errno, result), w) = l_gethostbyname_r L name (hb_buffer_size hb) w;
          hb = hb\<lparr>hb_host_errno := h_errno, hb_host := (case result of None \<Rightarrow> hb_host hb | Some x \<Rightarrow> x)\<rparr> in
      if ret = ERANGE \<and> h_errno = NETDB_INTERNAL then
        host_loop L name
          (hb\<lparr>hb_buffer_size := hb_buffer_size hb * 2 mod 2 ^ 64, hb_buffer := Some (hb_buffer_size hb * 2 mod 2 ^ 64)\<rparr>) w
      else Some (ret, result \<noteq> None, hb, w))"

definition coroutine_gethostbyname ::
  "'k libc \<Rightarrow> 'k kernel \<Rightarrow> 'k hooks \<Rightarrow> nat \<Rightarrow> string option \<Rightarrow> (nat option \<times> 'k hooks) c_result" where
  "coroutine_gethostbyname L K h t name =
     (case name of
        None \<Rightarrow> Inr (None, h)
      | Some name \<Rightarrow>
          bindR (own_hostbuf K h t) (\<lambda>(v, h).
          bindR (get_hostbuf h v) (\<lambda>(a, hb).
          case host_loop L name (fresh_buffer hb) (world (hp h)) of
            None \<Rightarrow> Inl Diverges
          | Some (ret, found, hb, w) \<Rightarrow>
              let h = h\<lparr>hp := (hp h)\<lparr>world := w\<rparr>, hostbufs := (hostbufs h)(a \<mapsto> hb)\<rparr> in
              if ret = 0 \<and> found then Inr (Some a, h) else Inr (None, h))))"

text \<open>
  \<open>gethostbyname\<close> gives the answer of the C library, or the address of the coroutine's own record. No
  \<open>HOOK_SYS_FUNC\<close> precedes the call of \<open>g_sys_gethostbyname\<close>.
\<close>

definition gethostbyname_hook ::
  "'k libc \<Rightarrow> 'k kernel \<Rightarrow> 'k hooks \<Rightarrow> nat \<Rightarrow> string option \<Rightarrow> ((bytes + nat option) \<times> 'k hooks) c_result" where
  "gethostbyname_hook L K h t name =
     bindR (enabled h t) (\<lambda>(co, en).
     if \<not> en then
       bindR (sys_call Sys_gethostbyname (l_gethostbyname L name) t h)
         (\<lambda>(_, host, h). Inr (Inl host, h))
     else bindR (coroutine_gethostbyname L K h t name) (\<lambda>(r, h). Inr (Inr r, h)))"

section \<open>The buffer grows until the answer fits\<close>

text \<open>
  \<open>gethostbyname_r\<close> asks for a larger buffer exactly when the one it is given is smaller than what the
  answer needs.
\<close>

definition resolver :: "'k libc \<Rightarrow> string \<Rightarrow> nat \<Rightarrow> bool" where
  "resolver L name need \<longleftrightarrow> (\<forall>k w ret e res w'. l_gethostbyname_r L name k w = ((ret, e, res), w') \<longrightarrow>
     (ret = ERANGE \<and> e = NETDB_INTERNAL \<longleftrightarrow> k < need))"

text \<open>A record between two calls: no buffer, or a buffer of the size that is noted, at least 1024 bytes.\<close>

definition hostbuf_ok :: "hostbuf_wrap \<Rightarrow> bool" where
  "hostbuf_ok hb \<longleftrightarrow> (case hb_buffer hb of None \<Rightarrow> True | Some n \<Rightarrow> n = hb_buffer_size hb \<and> 1024 \<le> n)"

lemma fresh_buffer_1024: "hostbuf_ok hb \<Longrightarrow> hb_buffer (fresh_buffer hb) = Some 1024 \<and> hb_buffer_size (fresh_buffer hb) = 1024"
  by (auto simp: hostbuf_ok_def fresh_buffer_def Let_def split: option.splits)

lemma host_loop_returns:
  assumes "resolver L name need" and "need \<le> 2 ^ 63"
  shows "hb_buffer hb = Some (hb_buffer_size hb) \<Longrightarrow> 1024 \<le> hb_buffer_size hb \<Longrightarrow> hb_buffer_size hb < max 1025 (2 * need) \<Longrightarrow>
    \<exists>ret found hb' w'. host_loop L name hb w = Some (ret, found, hb', w') \<and> hb_buffer hb' = Some (hb_buffer_size hb') \<and>
      1024 \<le> hb_buffer_size hb' \<and> need \<le> hb_buffer_size hb' \<and> hb_buffer_size hb' < max 1025 (2 * need)"
proof (induction "need - hb_buffer_size hb" arbitrary: hb w rule: less_induct)
  case less
  obtain ret e res w' where c: "l_gethostbyname_r L name (hb_buffer_size hb) w = ((ret, e, res), w')" by (metis prod.exhaust)
  then have iff: "ret = ERANGE \<and> e = NETDB_INTERNAL \<longleftrightarrow> hb_buffer_size hb < need" using assms(1) unfolding resolver_def by blast
  define hb1 where "hb1 = hb\<lparr>hb_host_errno := e, hb_host := (case res of None \<Rightarrow> hb_host hb | Some x \<Rightarrow> x)\<rparr>"
  show ?case
  proof (cases "hb_buffer_size hb < need")
    case True
    let ?hb = "hb1\<lparr>hb_buffer_size := hb_buffer_size hb * 2, hb_buffer := Some (hb_buffer_size hb * 2)\<rparr>"
    have "hb_buffer_size hb * 2 < 2 ^ 64" using True assms(2) by simp
    then have step: "host_loop L name hb w = host_loop L name ?hb w'"
      using c iff True by (subst host_loop.simps) (simp add: hb1_def)
    have "\<exists>ret found hb' w''. host_loop L name ?hb w' = Some (ret, found, hb', w'') \<and> hb_buffer hb' = Some (hb_buffer_size hb') \<and>
        1024 \<le> hb_buffer_size hb' \<and> need \<le> hb_buffer_size hb' \<and> hb_buffer_size hb' < max 1025 (2 * need)"
      by (rule less.hyps) (use True less.prems in auto)
    with step show ?thesis by simp
  next
    case False
    then have "host_loop L name hb w = Some (ret, res \<noteq> None, hb1, w')"
      using c iff by (subst host_loop.simps) (auto simp: hb1_def Let_def)
    then show ?thesis using less.prems False by (simp add: hb1_def)
  qed
qed

text \<open>The record the running coroutine keeps under the key, if it has one.\<close>

definition host_record :: "'k hooks \<Rightarrow> vptr \<Rightarrow> bool" where
  "host_record h v \<longleftrightarrow> v = NullPtr \<or> (\<exists>a hb. v = UserPtr a \<and> hostbufs h a = Some hb \<and> hostbuf_ok hb)"

lemma own_hostbuf_run:
  assumes st: "stack_ok (hp h) t xs" and v: "spec_of (hp h) (last xs) (hostbuf_key h) = Some v" "host_record h v"
  shows "\<exists>a h1 hb. own_hostbuf K h t = Inr (UserPtr a, h1) \<and> hostbufs h1 a = Some hb \<and> hostbuf_ok hb \<and> hostbuf_key h1 = hostbuf_key h \<and>
    spec_of (hp h1) (last xs) (hostbuf_key h) = Some (UserPtr a)"
proof (cases "v = NullPtr")
  case True
  let ?a = "next_id (hp h)" and ?p = "(hp h)\<lparr>next_id := next_id (hp h) + 1\<rparr>"
  have st': "stack_ok ?p t xs" using st by (auto simp: stack_ok_def co_of_def saved_def)
  have "spec_of ?p (last xs) (hostbuf_key h) = Some NullPtr" using v True by (simp add: spec_of_def)
  from setspecific_own [OF st' this] obtain p' where p': "coroutine_setspecific K ?p t (hostbuf_key h) (UserPtr ?a) = Inr (0, p')"
    "\<And>c k. spec_of p' c k = (if c = last xs \<and> k = hostbuf_key h then Some (UserPtr ?a) else spec_of ?p c k)" by metis
  have "coroutine_getspecific K (hp h) t (hostbuf_key h) = Inr (NullPtr, hp h)" by (rule getspecific_own [OF st]) (use v True in simp)
  with p' show ?thesis by (auto simp: own_hostbuf_def Let_def zero_hostbuf_def hostbuf_ok_def)
next
  case False
  with v obtain a hb where "v = UserPtr a" "hostbufs h a = Some hb" "hostbuf_ok hb" by (auto simp: host_record_def)
  then show ?thesis using getspecific_own [OF st v(1)] v(1) by (auto simp: own_hostbuf_def Let_def)
qed

text \<open>
  C23. \<open>coroutine_gethostbyname\<close> returns: the buffer of the coroutine doubles until the answer fits, ends
  at less than twice what is needed (or at the first 1024 bytes), and is left in a state from which the
  next call can start again. The answer, if any, is in the record that belongs to the coroutine.
\<close>

theorem gethostbyname_returns:
  assumes st: "stack_ok (hp h) t xs" and v: "spec_of (hp h) (last xs) (hostbuf_key h) = Some v" "host_record h v"
    and res: "resolver L name need" "need \<le> 2 ^ 63"
  shows "\<exists>r h2 a hb2. coroutine_gethostbyname L K h t (Some name) = Inr (r, h2) \<and> (r = None \<or> r = Some a) \<and>
    spec_of (hp h2) (last xs) (hostbuf_key h2) = Some (UserPtr a) \<and> host_record h2 (UserPtr a) \<and> hostbufs h2 a = Some hb2 \<and>
    need \<le> hb_buffer_size hb2 \<and> hb_buffer_size hb2 < max 1025 (2 * need)"
proof -
  from own_hostbuf_run [OF st v, of K] obtain a h1 hb where own: "own_hostbuf K h t = Inr (UserPtr a, h1)" and hb: "hostbufs h1 a = Some hb" "hostbuf_ok hb"
    and key: "hostbuf_key h1 = hostbuf_key h" "spec_of (hp h1) (last xs) (hostbuf_key h) = Some (UserPtr a)" by blast
  note f = fresh_buffer_1024 [OF hb(2)]
  have "hb_buffer (fresh_buffer hb) = Some (hb_buffer_size (fresh_buffer hb))" "1024 \<le> hb_buffer_size (fresh_buffer hb)"
    "hb_buffer_size (fresh_buffer hb) < max 1025 (2 * need)" using f by auto
  from host_loop_returns [OF res this, of "world (hp h1)"] obtain ret found hb' w' where l:
    "host_loop L name (fresh_buffer hb) (world (hp h1)) = Some (ret, found, hb', w')" "hb_buffer hb' = Some (hb_buffer_size hb')"
    "1024 \<le> hb_buffer_size hb'" "need \<le> hb_buffer_size hb'" "hb_buffer_size hb' < max 1025 (2 * need)" by blast
  let ?h2 = "h1\<lparr>hp := (hp h1)\<lparr>world := w'\<rparr>, hostbufs := (hostbufs h1)(a \<mapsto> hb')\<rparr>"
  have "coroutine_gethostbyname L K h t (Some name) = Inr (if ret = 0 \<and> found then Some a else None, ?h2)"
    using own hb(1) l(1) by (simp add: coroutine_gethostbyname_def get_hostbuf_def Let_def)
  moreover have "spec_of (hp ?h2) (last xs) (hostbuf_key ?h2) = Some (UserPtr a)" using key by (simp add: spec_of_def)
  moreover have "host_record ?h2 (UserPtr a)" using l by (simp add: host_record_def hostbuf_ok_def)
  ultimately show ?thesis using l(4,5)
    by (intro exI [of _ "if ret = 0 \<and> found then Some a else None"] exI [of _ ?h2] exI [of _ a] exI [of _ hb']) simp
qed

definition big_answer :: "unit libc" where
  "big_answer = (io_libc (\<lambda>_ w. ((0, 0, []), w)) (\<lambda>_ w. ((0, 0, ()), w)))\<lparr>l_gethostbyname_r := \<lambda>_ k w.
     if k < 5000 then ((ERANGE, NETDB_INTERNAL, None), w) else ((0, 0, Some [1, 2, 3, 4]), w)\<rparr>"

lemma io_stack: "stack_ok (io_process w) 7 [0, 2]"
proof -
  have "stack_ok late_process 7 [0, 2]" by (rule pool_ok_parts(1) [OF late_process_ok])
  then show ?thesis by (auto simp: stack_ok_def env_stack_def co_of_def saved_def io_process_def)
qed

lemma io_spec: "spec_of (io_process w) 2 0 = Some NullPtr"
  by (simp add: spec_of_def io_process_def late_process_def pool_process_def pool_co_def zero_coroutine_def spec_size_def)

theorem gethostbyname_returns_witness:
  "\<exists>r h2 a hb2. coroutine_gethostbyname big_answer quiet_kernel (io_hooks ()) 7 (Some ''host'') = Inr (r, h2) \<and> hostbufs h2 a = Some hb2 \<and>
     5000 \<le> hb_buffer_size hb2 \<and> hb_buffer_size hb2 < 10000"
proof -
  have "resolver big_answer ''host'' 5000"
    by (auto simp: resolver_def big_answer_def ERANGE_def split: if_splits)
  moreover have "stack_ok (hp (io_hooks ())) 7 [0, 2]" "spec_of (hp (io_hooks ())) (last [0, 2]) (hostbuf_key (io_hooks ())) = Some NullPtr"
    "host_record (io_hooks ()) NullPtr"
    using io_stack io_spec by (simp_all add: io_hooks_def host_record_def)
  ultimately show ?thesis
    using gethostbyname_returns [of "io_hooks ()" 7 "[0, 2]" NullPtr big_answer "''host''" 5000 quiet_kernel] by auto
qed

text \<open>\<open>coroutine_gethostbyname\<close> reads through a null pointer when the thread's own value cannot be set.\<close>

lemma host_without_buffer:
  assumes "stack_ok (hp h) t [c]" and "coroutines (hp h) c = Some cr" and "co_main cr"
    and "k_pthread_getspecific K t (hostbuf_key h) (world (hp h)) = (NullPtr, w1)"
    and "fst (k_pthread_setspecific K t (hostbuf_key h) (UserPtr (next_id (hp h))) w1) \<noteq> 0"
  shows "coroutine_gethostbyname L K h t (Some nm) = Inl NullDeref"
proof -
  let ?n = "next_id (hp h)" and ?p = "(hp h)\<lparr>world := w1, next_id := next_id (hp h) + 1\<rparr>"
  have run: "get_curr_thread_coroutine (hp h) t = Inr (Some c)" using curr_thread_is_running [OF assms(1)] by simp
  then have get: "coroutine_getspecific K (hp h) t (hostbuf_key h) = Inr (NullPtr, (hp h)\<lparr>world := w1\<rparr>)"
    using assms(2-4) by (simp add: coroutine_getspecific_def get_co_def)
  have "get_curr_thread_coroutine ?p t = Inr (Some c)" using run by (simp add: get_curr_thread_coroutine_def get_curr_thread_env_def split: if_splits)
  then obtain p' where set: "coroutine_setspecific K ?p t (hostbuf_key h) (UserPtr ?n) =
      Inr (fst (k_pthread_setspecific K t (hostbuf_key h) (UserPtr ?n) w1), p')"
    using assms(2,3) by (simp add: coroutine_setspecific_def get_co_def Let_def split_beta)
  have "own_hostbuf K h t = Inr (NullPtr, h\<lparr>hp := p', hostbufs := (hostbufs h)(?n := None)\<rparr>)"
    using get set assms(5) by (simp add: own_hostbuf_def Let_def)
  then show ?thesis by (simp add: coroutine_gethostbyname_def get_hostbuf_def)
qed

section \<open>The options\<close>

text \<open>
  C29. \<open>coroutine_init_env\<close> leaves a stack size that is a multiple of the page size within the two
  bounds, the smallest one that holds the requested size when that lies between the bounds, and
  a number of tasks per thread that is never zero and is the requested one otherwise.
\<close>

theorem init_env_options:
  assumes "opts' = gOptions (hp (coroutine_init_env L h opts))"
  shows "op_stack_size opts' mod 4096 = 0 \<and> kMinStackSize \<le> op_stack_size opts' \<and>
    op_stack_size opts' \<le> kMaxStackSize \<and>
    (kMinStackSize \<le> op_stack_size opts \<and> op_stack_size opts \<le> kMaxStackSize \<longrightarrow>
       op_stack_size opts \<le> op_stack_size opts' \<and> op_stack_size opts' < op_stack_size opts + 4096) \<and>
    op_task_per_thread opts' =
      (if op_task_per_thread opts = 0 then kDefaultTaskPerThread else op_task_per_thread opts)"
proof -
  have "opts' = adjust_options opts" by (simp add: assms coroutine_init_env_def Let_def)
  from adjust_options_bounds [OF this] show ?thesis by simp
qed

theorem init_env_options_witness:
  "op_stack_size (gOptions (hp (coroutine_init_env big_answer (io_hooks ()) \<lparr>op_stack_size = 200001, op_task_per_thread = 0\<rparr>))) = 200704"
proof -
  have page: "x = 200704" if "x mod 4096 = 0" "200001 \<le> x" "x < 204097" for x :: int
  proof -
    from that(1) obtain k where "x = 4096 * k" by (auto simp: mod_eq_0_iff_dvd)
    with that(2,3) show ?thesis by simp
  qed
  show ?thesis
    by (rule page)
      (use init_env_options [OF refl, of big_answer "io_hooks ()" "\<lparr>op_stack_size = 200001, op_task_per_thread = 0\<rparr>"]
        in \<open>simp_all add: kMinStackSize_def kMaxStackSize_def\<close>)
qed

end
