(* ===== verification/Hook_Calls.thy ===== *)
theory Hook_Calls
  imports Hook_Socket Hook_Name
begin

unbundle bit_operations_syntax

text \<open>
  All hooked calls together: a program is a sequence of them. Locale \<open>hook_invariant\<close> says what of the state
  no hooked call can destroy; the table of descriptors stays well typed, and the pointer
  \<open>g_sys_gethostbyname\<close> stays null.
\<close>

section \<open>The calls\<close>

datatype hook_call = CSocket int int int | CAccept int | CConnect int bytes | CClose int
  | CSelect int "fd_set option" "fd_set option" "fd_set option" "timeval option"
  | CSleep u32 | CUsleep u32 | CNanosleep int int | CRead int nat | CWrite int bytes | CSend int bytes int | CRecv int nat int
  | CPoll "pollfd list" nat int | CPoll2 "pollfd list" nat int | CSetsockopt int int int bytes | CFcntl int int fcntl_arg
  | CGethostbyname "string option"

text \<open>What a call gives back to the program.\<close>

datatype outcome = Ret int | Data int bytes | Events int "pollfd list" | Sets int "fd_set option \<times> fd_set option \<times> fd_set option"
  | Host "bytes + nat option"

abbreviation returning :: "(int \<times> 'k hooks) c_result \<Rightarrow> (outcome \<times> 'k hooks) c_result" where
  "returning m \<equiv> bindR m (\<lambda>(r, h). Inr (Ret r, h))"

fun do_call :: "'k libc \<Rightarrow> 'k kernel \<Rightarrow> 'k sched \<Rightarrow> nat \<Rightarrow> 'k hooks \<Rightarrow> hook_call \<Rightarrow> (outcome \<times> 'k hooks) c_result" where
  "do_call L K sched t h (CSocket d ty pr) = returning (socket_hook L h t d ty pr)"
| "do_call L K sched t h (CAccept fd) = returning (accept_hook L K sched h t fd)"
| "do_call L K sched t h (CConnect fd a) = returning (connect_hook L K sched h t fd a)"
| "do_call L K sched t h (CClose fd) = returning (close_hook L h t fd)"
| "do_call L K sched t h (CSelect n r w e tv) = bindR (select_hook L K sched h t n r w e tv) (\<lambda>(n, s, h). Inr (Sets n s, h))"
| "do_call L K sched t h (CSleep s) = returning (sleep_hook L K sched h t s)"
| "do_call L K sched t h (CUsleep us) = returning (usleep_hook L K sched h t us)"
| "do_call L K sched t h (CNanosleep s ns) = returning (nanosleep_hook L K sched h t s ns)"
| "do_call L K sched t h (CRead fd n) = bindR (read_hook L K sched h t fd n) (\<lambda>(n, b, h). Inr (Data n b, h))"
| "do_call L K sched t h (CWrite fd b) = returning (write_hook L K sched h t fd b)"
| "do_call L K sched t h (CSend fd b fl) = returning (send_hook L K sched h t fd b fl)"
| "do_call L K sched t h (CRecv fd n fl) = bindR (recv_hook L K sched h t fd n fl) (\<lambda>(n, b, h). Inr (Data n b, h))"
| "do_call L K sched t h (CPoll fds n ms) = bindR (poll_hook L K sched h t fds n ms) (\<lambda>(n, fds, h). Inr (Events n fds, h))"
| "do_call L K sched t h (CPoll2 fds n ms) = bindR (poll2_hook L K sched h t fds n ms) (\<lambda>(n, fds, h). Inr (Events n fds, h))"
| "do_call L K sched t h (CSetsockopt fd lv nm v) = returning (setsockopt_hook L h t fd lv nm v)"
| "do_call L K sched t h (CFcntl fd cmd a) = returning (fcntl_hook L h t fd cmd a)"
| "do_call L K sched t h (CGethostbyname nm) = bindR (gethostbyname_hook L K h t nm) (\<lambda>(r, h). Inr (Host r, h))"

fun run_calls :: "('s \<Rightarrow> hook_call \<Rightarrow> (outcome \<times> 's) c_result) \<Rightarrow> 's \<Rightarrow> hook_call list \<Rightarrow> (outcome list \<times> 's) c_result" where
  "run_calls f s [] = Inr ([], s)"
| "run_calls f s (c # cs) = bindR (f s c) (\<lambda>(r, s). bindR (run_calls f s cs) (\<lambda>(rs, s). Inr (r # rs, s)))"

lemma outcome_E:
  "bindR m2 (\<lambda>(r, h). Inr (f r, h)) = Inr (out, h') \<Longrightarrow> (\<And>r. m2 = Inr (r, h') \<Longrightarrow> R) \<Longrightarrow> R"
  "bindR m3 (\<lambda>(r, x, h). Inr (g r x, h)) = Inr (out, h') \<Longrightarrow> (\<And>r x. m3 = Inr (r, x, h') \<Longrightarrow> R) \<Longrightarrow> R"
  by (auto simp: bindR_eq_Inr)

text \<open>The arguments that are kept in the table are values of their types.\<close>

fun call_typed :: "hook_call \<Rightarrow> bool" where
  "call_typed (CSocket d ty pr) = int32_range d"
| "call_typed (CFcntl fd cmd (IntArg i)) = int32_range i"
| "call_typed _ = True"

section \<open>What no call destroys\<close>

text \<open>
  Every entry of the table is in the array, its address has the size of a \<open>struct sockaddr_in\<close>, its
  numbers are values of their types.
\<close>

definition entry_typed :: "rpchook_t \<Rightarrow> bool" where
  "entry_typed lp \<longleftrightarrow> length (rh_dest lp) = 16 \<and> int32_range (user_flag lp) \<and> int32_range (rh_domain lp) \<and>
     long_range (tv_sec (read_timeout lp)) \<and> long_range (tv_usec (read_timeout lp)) \<and>
     long_range (tv_sec (write_timeout lp)) \<and> long_range (tv_usec (write_timeout lp))"

definition table_typed :: "'k hooks \<Rightarrow> bool" where
  "table_typed h \<longleftrightarrow> (\<forall>fd lp. gSocketFd h fd = Some lp \<longrightarrow> fd < gSocketFd_size \<and> entry_typed lp)"

text \<open>What the C library and the other coroutines do.\<close>

definition fcntl_typed :: "'k libc \<Rightarrow> bool" where
  "fcntl_typed L \<longleftrightarrow> (\<forall>fd cmd a w. int32_range (fst (fst (l_fcntl L fd cmd a w))))"

definition sched_inv :: "('k hooks \<Rightarrow> bool) \<Rightarrow> 'k sched \<Rightarrow> bool" where
  "sched_inv I sched \<longleftrightarrow> (\<forall>pc h h'. sched pc h = Inr h' \<longrightarrow> I h \<longrightarrow> I h')"

lemma new_rpchook_typed: "entry_typed new_rpchook"
  by (simp add: entry_typed_def new_rpchook_def int32_range_def long_range_def)

lemma fcntl_sys_ret: "fcntl_typed L \<Longrightarrow> fcntl_sys L h t fd cmd a = Inr (r, h') \<Longrightarrow> int32_range r"
  unfolding fcntl_sys_def fcntl_typed_def
  by (elim bindR_E; simp only: split_paired_all split) (auto dest!: sys_call_world, metis fst_conv)

lemma fcntl_ret: "fcntl_typed L \<Longrightarrow> fcntl_hook L h t fd F_GETFL a = Inr (r, h') \<Longrightarrow> int32_range r"
  unfolding fcntl_hook_def Let_def fcntl_defs
  by (elim if_E) (auto dest: fcntl_sys_ret simp: int32_range_def [of "-1"])

lemma or_int32: "int32_range i \<Longrightarrow> int32_range (i OR O_NONBLOCK)"
proof -
  assume "int32_range i"
  then have "i = sint (word_of_int i :: 32 word)" using wrap32_id [of i] by (simp add: wrap32_def)
  moreover have "O_NONBLOCK = sint (2048 :: 32 word)" by (simp add: O_NONBLOCK_def)
  ultimately have "i OR O_NONBLOCK = sint (word_of_int i OR 2048 :: 32 word)" by (metis signed_or_eq)
  then show ?thesis
    using sint_lt [of "word_of_int i OR 2048 :: 32 word"] sint_ge [of "word_of_int i OR 2048 :: 32 word"] by (simp add: int32_range_def)
qed

lemma timeval_typed: "timeval_of_bytes bs = Inr tv \<Longrightarrow> long_range (tv_sec tv) \<and> long_range (tv_usec tv)"
proof -
  have "long_range (le_long xs)" for xs
    using sint_lt [of "word_of_int (foldr (\<lambda>b n. uint b + 256 * n) xs 0) :: 64 word"]
      sint_ge [of "word_of_int (foldr (\<lambda>b n. uint b + 256 * n) xs 0) :: 64 word"] by (simp add: long_range_def le_long_def)
  then show "timeval_of_bytes bs = Inr tv \<Longrightarrow> long_range (tv_sec tv) \<and> long_range (tv_usec tv)"
    by (auto simp: timeval_of_bytes_def split: if_splits)
qed

lemmas accept_loop_induct = accept_loop.raw_induct [rotated, consumes 1, case_names step]

text \<open>
  A property of the state that depends on the table of descriptors, which it keeps well typed, and on the
  pointers to the C library, which may all be set but \<open>g_sys_gethostbyname\<close>.
\<close>

locale hook_invariant =
  fixes I :: "'k hooks \<Rightarrow> bool"
  assumes I_hp: "I (h\<lparr>hp := p\<rparr>) = I h"
    and I_host: "I (h\<lparr>hostbufs := m\<rparr>) = I h"
    and I_sys: "f \<noteq> Sys_gethostbyname \<Longrightarrow> I h \<Longrightarrow> I (h\<lparr>g_sys := (g_sys h)(f := b)\<rparr>)"
    and I_entry: "I h \<Longrightarrow> fd < gSocketFd_size \<Longrightarrow> entry_typed lp \<Longrightarrow> I (h\<lparr>gSocketFd := (gSocketFd h)(fd \<mapsto> lp)\<rparr>)"
    and I_free: "I h \<Longrightarrow> I (h\<lparr>gSocketFd := (gSocketFd h)(fd := None)\<rparr>)"
    and I_typed: "I h \<Longrightarrow> table_typed h"
begin

lemma HOOK_inv [simp]: "f \<noteq> Sys_gethostbyname \<Longrightarrow> I h \<Longrightarrow> I (HOOK_SYS_FUNC L f h)"
  by (simp add: HOOK_SYS_FUNC_def I_sys)

lemma frame_inv [simp]: "I (h\<lparr>hp := p\<rparr>) = I h" "I (h\<lparr>hostbufs := m\<rparr>) = I h" "I (h\<lparr>hp := p, hostbufs := m\<rparr>) = I h" "I (set_errno t e h) = I h"
  by (simp_all add: I_hp I_host set_errno_def)

lemma sys_call_inv: "sys_call f c t h = Inr (r, a, h') \<Longrightarrow> I h' = I h"
  by (auto simp: sys_call_def Let_def split_beta split: if_splits)

lemma passed_inv: "sys_call f c t (HOOK_SYS_FUNC L f h) = Inr (r, a, h') \<Longrightarrow> f \<noteq> Sys_gethostbyname \<Longrightarrow> I h \<Longrightarrow> I h'"
  by (drule sys_call_inv) simp

lemma set_lp_inv: "set_lp h fd f = Inr h' \<Longrightarrow> I h \<Longrightarrow> (\<And>lp. entry_typed lp \<Longrightarrow> entry_typed (f lp)) \<Longrightarrow> I h'"
  using I_typed [of h] by (auto simp: set_lp_def table_typed_def get_by_fd_def intro!: I_entry split: option.splits if_splits)

lemma alloc_inv: "I h \<Longrightarrow> I (snd (alloc_by_fd h fd))"
  using new_rpchook_typed by (auto simp: alloc_by_fd_def intro!: I_entry)

lemma free_inv: "I h \<Longrightarrow> I (free_by_fd h fd)"
  by (auto simp: free_by_fd_def I_free split: option.splits)

lemma close_inv: "close_hook L h t fd = Inr (r, h') \<Longrightarrow> I h \<Longrightarrow> I h'"
  unfolding close_hook_def Let_def split_beta
  by (elim bindR_E; simp only: split_paired_all) (auto dest!: sys_call_inv simp: free_inv split: if_splits)

lemma fcntl_sys_inv: "fcntl_sys L h t fd cmd a = Inr (r, h') \<Longrightarrow> I h' = I h"
  unfolding fcntl_sys_def by (elim bindR_E; simp only: split_paired_all) (auto dest!: sys_call_inv)

lemma fcntl_inv:
  assumes run: "fcntl_hook L h t fd cmd a = Inr (r, h')" and h: "I h" and a: "\<And>i. a = IntArg i \<Longrightarrow> int32_range i"
  shows "I h'"
proof -
  let ?h = "HOOK_SYS_FUNC L Sys_fcntl h"
  have "h' = ?h \<or> (\<exists>b. fcntl_sys L ?h t fd cmd b = Inr (r, h')) \<or>
      (\<exists>i b h1. a = IntArg i \<and> fcntl_sys L ?h t fd cmd b = Inr (r, h1) \<and> set_lp h1 fd (\<lambda>lp. lp\<lparr>user_flag := i\<rparr>) = Inr h')"
    using run unfolding fcntl_hook_def Let_def
    by (elim if_E bindR_E; simp only: split_paired_all split)
      (auto simp: arg_int_def bindR_eq_Inr split: fcntl_arg.splits if_splits)
  then show ?thesis
    by (elim disjE exE conjE) (auto simp: h a entry_typed_def dest: fcntl_sys_inv elim!: set_lp_inv)
qed

lemma poll_inv:
  assumes S: "sched_inv I sched" and h: "I h"
  shows "poll_inner K sched h t fds n ms pf = Inr (r, fds', h') \<Longrightarrow> I h'"
    and "poll_hook L K sched h t fds n ms = Inr (r, fds', h') \<Longrightarrow> I h'"
proof -
  have inner: "I h'" if "poll_inner K sched h t fds n ms pf = Inr (r, fds', h')" "I h" for h pf
    using that S unfolding poll_inner_def
    by (elim bindR_E) (auto simp: bindR_eq_Inr sched_inv_def split: poll_step.splits)
  then show "poll_inner K sched h t fds n ms pf = Inr (r, fds', h') \<Longrightarrow> I h'" using h by blast
  show "poll_hook L K sched h t fds n ms = Inr (r, fds', h') \<Longrightarrow> I h'"
    unfolding poll_hook_def Let_def
    by (elim bindR_E; simp only: split_paired_all split; elim if_E bindR_E; simp only: split_paired_all split)
      (auto simp: h dest!: sys_call_inv inner)
qed

lemma set_nonblock_inv:
  assumes "fcntl_typed L" and "set_nonblock L h t fd = Inr h'" and "I h"
  shows "I h'"
proof -
  from assms(2) obtain f h1 r where "fcntl_hook L h t fd F_GETFL (IntArg 0) = Inr (f, h1)" "fcntl_hook L h1 t fd F_SETFL (IntArg (f OR O_NONBLOCK)) = Inr (r, h')"
    by (auto simp: set_nonblock_def bindR_eq_Inr)
  moreover from this(1) have "I h1" by (rule fcntl_inv) (simp_all add: assms(3) int32_range_def)
  ultimately show ?thesis using or_int32 fcntl_ret [OF assms(1)] by (auto elim!: fcntl_inv)
qed

lemma accept_loop_inv:
  assumes "accept_loop L K sched t co lfd fd h = Some r" and "r = Inr (fd', h')" and "sched_inv I sched" and "I h"
  shows "I h'"
  using assms
proof (induction L K sched t co lfd fd h r rule: accept_loop_induct)
  case (step loop L K sched t co lfd fd h r)
  show ?case
  proof (cases "fd < 0 \<and> errno h t = EAGAIN")
    case True
    let ?P = "bindR (get_epoll_context K (hp h) t) (\<lambda>(_, p). poll_inner K sched (h\<lparr>hp := p\<rparr>) t
       [\<lparr>pf_fd = lfd, pf_events = POLLIN OR POLLERR OR POLLHUP, pf_revents = 0\<rparr>] 1 (-1) None)"
    from True step.hyps step.prems(1) obtain n fds h1 where P: "?P = Inr (n, fds, h1)" by (cases ?P) auto
    then have h1: "I h1" using step.prems(3) by (auto simp: bindR_eq_Inr dest!: poll_inv(1) [OF step.prems(2), rotated])
    let ?Q = "if n \<le> 0 then bindR (get_co (hp h1) co) (\<lambda>c. bindR (get_task (hp h1) (co_task c)) (\<lambda>tk. Inr (tk_timeout tk))) else Inr False"
    from True step.hyps step.prems(1) P obtain b where Q: "?Q = Inr b" by (cases ?Q) auto
    show ?thesis
    proof (cases b)
      case b: True
      with True step.hyps step.prems(1) P Q obtain r2 h2 where "close_hook L h1 t lfd = Inr (r2, h2)" "h' = set_errno t EBADF h2"
        by (auto simp: bindR_eq_Inr)
      then show ?thesis using close_inv h1 by auto
    next
      case b: False
      with True step.hyps step.prems(1) P Q obtain fd2 h2 where c: "sys_call Sys_accept (l_accept L lfd) t h1 = Inr (fd2, (), h2)"
          "loop L K sched t co lfd fd2 h2 = Some r"
        by (cases "sys_call Sys_accept (l_accept L lfd) t h1") auto
      show ?thesis
        by (rule step.IH [OF c(2) step.prems(1,2)]) (use sys_call_inv [OF c(1)] h1 in simp)
    qed
  next
    case False
    then show ?thesis using step.hyps step.prems by (auto split: if_splits)
  qed
qed

lemma connect_wait_inv:
  "connect_wait L K sched t fd n pf h = Inr (pf', h') \<Longrightarrow> sched_inv I sched \<Longrightarrow> I h \<Longrightarrow> I h'"
proof (induction n arbitrary: pf h)
  case (Suc n)
  then show ?case
    by (auto simp: bindR_eq_Inr Let_def split: if_splits dest!: poll_inv(2) [OF Suc.prems(2,3)])
qed simp

lemma setsockopt_inv:
  assumes run: "setsockopt_hook L h t fd lv nm v = Inr (r, h')" and h: "I h"
  shows "I h'"
proof -
  have lp: "I h2" if "timeval_of_bytes v = Inr tv" "set_lp h1 fd (\<lambda>lp. lp\<lparr>read_timeout := tv\<rparr>) = Inr h2 \<or> set_lp h1 fd (\<lambda>lp. lp\<lparr>write_timeout := tv\<rparr>) = Inr h2"
    "I h1" for tv h1 h2
    using that timeval_typed [OF that(1)] by (auto simp: entry_typed_def elim!: set_lp_inv)
  show ?thesis using run unfolding setsockopt_hook_def Let_def
    by (elim bindR_E; simp only: split_paired_all split; elim bindR_E if_E; simp only: split_paired_all split)
      (auto simp: h bindR_eq_Inr dest!: sys_call_inv split: if_splits intro: lp)
qed

lemma socket_inv:
  assumes L: "fcntl_typed L" and run: "socket_hook L h t d ty pr = Inr (r, h')" and h: "I h" and d: "int32_range d"
  shows "I h'"
proof -
  have lp: "I h2" if "set_lp (snd (alloc_by_fd h1 fd)) fd (\<lambda>lp. lp\<lparr>rh_domain := d\<rparr>) = Inr h2" "I h1" for fd h1 h2
    using that alloc_inv d by (auto simp: entry_typed_def elim!: set_lp_inv)
  show ?thesis using run unfolding socket_hook_def Let_def split_beta
    by (elim bindR_E if_E; simp only: split_paired_all fst_conv snd_conv) (auto simp: h dest!: sys_call_inv set_nonblock_inv [OF L] lp)
qed

lemma connect_inv:
  assumes S: "sched_inv I sched" and run: "connect_hook L K sched h t fd addr = Inr (r, h')" and h: "I h"
  shows "I h'"
proof -
  have lp: "I h2" if "set_lp h1 fd (\<lambda>lp. lp\<lparr>rh_dest := addr @ drop (length addr) (rh_dest lp)\<rparr>) = Inr h2" "I h1" "length addr \<le> 16" for h1 h2
    using that by (auto simp: entry_typed_def elim!: set_lp_inv)
  have len: "length (rh_dest lp) = 16" if "get_by_fd h1 fd = Some lp" "I h1" for h1 lp
    using that I_typed [of h1] by (auto simp: get_by_fd_def table_typed_def entry_typed_def split: if_splits)
  from run obtain co en r1 h1 where en: "enabled h t = Inr (co, en)" and c: "sys_call Sys_connect (l_connect L fd addr) t (HOOK_SYS_FUNC L Sys_connect h) = Inr (r1, (), h1)"
    by (auto simp: connect_hook_def Let_def bindR_eq_Inr)
  have h1: "I h1" using sys_call_inv [OF c] h by simp
  show ?thesis
  proof (cases "en \<and> get_by_fd h1 fd \<noteq> None")
    case True
    then obtain lp' where g: "get_by_fd h1 fd = Some lp'" by blast
    from run en c True g obtain h2 where h2: "(if length (rh_dest lp') \<ge> length addr
        then set_lp h1 fd (\<lambda>lp. lp\<lparr>rh_dest := addr @ drop (length addr) (rh_dest lp)\<rparr>) else Inr h1) = Inr h2"
      "h' = h2 \<or> (\<exists>pf h3. connect_wait L K sched t fd 10 zero_pollfd h2 = Inr (pf, h3) \<and> (h' = h3 \<or> h' = set_errno t 0 h3))"
      by (auto simp: connect_hook_def Let_def bindR_eq_Inr split: if_splits)
    have "I h2" using h2(1) h1 len [OF g h1] lp by (auto split: if_splits)
    then show ?thesis using h2(2) connect_wait_inv [OF _ S] by auto
  next
    case False
    then show ?thesis using run en c h1 by (auto simp: connect_hook_def Let_def split: option.splits)
  qed
qed

lemma accept_inv:
  assumes L: "fcntl_typed L" and S: "sched_inv I sched" and run: "accept_hook L K sched h t lfd = Inr (r, h')" and h: "I h"
  shows "I h'"
proof -
  let ?h = "HOOK_SYS_FUNC L Sys_accept h"
  have reg: "I h5" if "fcntl_hook L (snd (alloc_by_fd h3 fd)) t fd F_GETFL (IntArg 0) = Inr (f, h4)"
      "fcntl_hook L h4 t fd F_SETFL (IntArg (f OR O_NONBLOCK)) = Inr (q, h6)"
      "(if 0 = q \<and> b then set_lp h6 fd (\<lambda>lp. lp\<lparr>user_flag := f\<rparr>) else Inr h6) = Inr h5" "I h3" for h3 h4 h5 h6 fd f q b
  proof -
    have f: "int32_range f" by (rule fcntl_ret [OF L that(1)])
    have "I h4" by (rule fcntl_inv [OF that(1) alloc_inv [OF that(4)]]) (simp add: int32_range_def)
    then have "I h6" by (rule fcntl_inv [OF that(2)]) (use or_int32 [OF f] in simp)
    then show ?thesis using that(3) f by (auto simp: entry_typed_def split: if_splits elim!: set_lp_inv)
  qed
  have loop: "I h3" if "(case accept_loop L K sched t co lfd fd h2 of None \<Rightarrow> Inl Diverges | Some r \<Rightarrow> r) = Inr (fd', h3)" "I h2"
      for co fd h2 fd' h3
    using that accept_loop_inv [of L K sched t co lfd fd h2 _ fd' h3] S by (auto split: option.splits)
  have new: "I h1" if "set_nonblock L (snd (alloc_by_fd ?h lfd)) t lfd = Inr h1" for h1
    by (rule set_nonblock_inv [OF L that alloc_inv]) (simp add: h)
  show ?thesis using run unfolding accept_hook_def Let_def split_beta
    by (elim bindR_E if_E; simp only: split_paired_all fst_conv snd_conv)
      (auto simp: h new dest!: sys_call_inv loop reg)
qed

lemma wait_ready_inv:
  assumes S: "sched_inv I sched" and h: "I h"
  shows "wait_io_ready L K sched t co fd ev ms h = Inr (n, h') \<Longrightarrow> I h'"
  unfolding wait_io_ready_def Let_def split_beta
  by (elim bindR_E if_E; simp only: split_paired_all fst_conv snd_conv) (auto simp: h dest!: poll_inv(2) [OF S, rotated] close_inv)

lemma read_loop_inv:
  assumes "read_loop wait call t nbyte n buf h = Some r" and "r = Inr (rdy', n', buf', h')" and "I h"
    and "\<And>h n h'. wait h = Inr (n, h') \<Longrightarrow> I h \<Longrightarrow> I h'" and "\<And>k h r bs h'. call k h = Inr (r, bs, h') \<Longrightarrow> I h \<Longrightarrow> I h'"
  shows "I h'"
  using assms
proof (induction wait call t nbyte n buf h r rule: read_loop_induct)
  case (step loop wait call t nbyte n buf h r)
  note laws = step.prems(3,4)
  obtain rdy h1 where w: "wait h = Inr (rdy, h1)" using step.hyps step.prems(1) by (auto split: sum.splits)
  have h1: "I h1" by (rule laws(1) [OF w step.prems(2)])
  show ?case
  proof (cases "rdy \<le> 0")
    case True
    then show ?thesis using step.hyps w h1 step.prems(1) by auto
  next
    case False
    then obtain r2 bs h2 where c: "call (nat (int nbyte - n)) h1 = Inr (r2, bs, h2)"
      using step.hyps step.prems(1) w by (auto split: sum.splits)
    have h2: "I h2" by (rule laws(2) [OF c h1])
    have "loop wait call t nbyte m b h2 = Some r \<Longrightarrow> I h'" for m b
      by (rule step.IH [OF _ step.prems(1) h2 laws])
    then show ?thesis using step.hyps step.prems(1) w False c h2 by (auto simp: Let_def split: if_splits)
  qed
qed

lemma write_loop_inv:
  assumes "write_loop wait call t buf ret n h = Some r" and "r = Inr (ret', n', h')" and "I h"
    and "\<And>h n h'. wait h = Inr (n, h') \<Longrightarrow> I h \<Longrightarrow> I h'" and "\<And>bs h r h'. call bs h = Inr (r, (), h') \<Longrightarrow> I h \<Longrightarrow> I h'"
  shows "I h'"
  using assms
proof (induction wait call t buf ret n h r rule: write_loop_induct)
  case (step loop wait call t buf ret n h r)
  note laws = step.prems(3,4)
  show ?case
  proof (cases "n < length buf")
    case True
    then obtain rdy h1 where w: "wait h = Inr (rdy, h1)" using step.hyps step.prems(1) by (auto split: sum.splits)
    have h1: "I h1" by (rule laws(1) [OF w step.prems(2)])
    show ?thesis
    proof (cases "rdy \<le> 0")
      case rdy: True
      then show ?thesis using step.hyps w h1 step.prems(1) True by auto
    next
      case rdy: False
      then obtain r2 h2 where c: "call (drop n buf) h1 = Inr (r2, (), h2)"
        using step.hyps step.prems(1) w True by (auto split: sum.splits)
      have h2: "I h2" by (rule laws(2) [OF c h1])
      have "loop wait call t buf q m h2 = Some r \<Longrightarrow> I h'" for q m
        by (rule step.IH [OF _ step.prems(1) h2 laws])
      then show ?thesis using step.hyps step.prems(1) w True rdy c h2 by (auto split: if_splits)
    qed
  qed (use step.hyps step.prems in auto)
qed

lemma write_all_inv:
  assumes run: "write_all wait call t buf h = Inr (n, h')" and h: "I h"
    and wait: "\<And>h n h'. wait h = Inr (n, h') \<Longrightarrow> I h \<Longrightarrow> I h'" and call: "\<And>bs h r h'. call bs h = Inr (r, (), h') \<Longrightarrow> I h \<Longrightarrow> I h'"
  shows "I h'"
proof -
  from run obtain r h1 where c: "call buf h = Inr (r, (), h1)" by (auto simp: write_all_def bindR_eq_Inr)
  have h1: "I h1" by (rule call [OF c h])
  have "h' = h1 \<or> (\<exists>q m. write_loop wait call t buf r (if r > 0 then nat r else 0) h1 = Some (Inr (q, m, h')))"
    using run c by (auto simp: write_all_def bindR_eq_Inr split: if_splits option.splits)
  then show ?thesis
  proof (elim disjE exE)
    fix q m assume "write_loop wait call t buf r (if r > 0 then nat r else 0) h1 = Some (Inr (q, m, h'))"
    from write_loop_inv [OF this refl h1] wait call show ?thesis by blast
  qed (use h1 in simp)
qed

lemma data_inv:
  assumes S: "sched_inv I sched" and h: "I h"
  shows "read_hook L K sched h t fd n = Inr (r, b, h') \<Longrightarrow> I h'" "recv_hook L K sched h t fd n fl = Inr (r, b, h') \<Longrightarrow> I h'"
    "write_hook L K sched h t fd buf = Inr (r, h') \<Longrightarrow> I h'" "send_hook L K sched h t fd buf fl = Inr (r, h') \<Longrightarrow> I h'"
proof -
  have hook: "I (HOOK_SYS_FUNC L f h)" if "f \<in> {Sys_read, Sys_recv, Sys_write, Sys_send}" for f using that h by auto
  have rd: "I h'" if "read_result (read_loop (wait_io_ready L K sched t co fd POLL_READ ms) (\<lambda>k. sys_call f (c k) t) t n 0 []
      (HOOK_SYS_FUNC L f h)) = Inr (r, b, h')" "f \<in> {Sys_read, Sys_recv, Sys_write, Sys_send}" for co ms f c
  proof -
    from that(1) obtain q m where "read_loop (wait_io_ready L K sched t co fd POLL_READ ms) (\<lambda>k. sys_call f (c k) t) t n 0 []
        (HOOK_SYS_FUNC L f h) = Some (Inr (q, m, b, h'))" by (auto simp: read_result_def bindR_eq_Inr split: option.splits if_splits)
    then show ?thesis by (rule read_loop_inv [OF _ refl hook [OF that(2)]]) (auto dest: wait_ready_inv [OF S, rotated] sys_call_inv)
  qed
  have wr: "I h'" if "write_all (wait_io_ready L K sched t co fd POLL_WRITE ms) (\<lambda>b. sys_call f (c b) t) t buf (HOOK_SYS_FUNC L f h) = Inr (r, h')"
      "f \<in> {Sys_read, Sys_recv, Sys_write, Sys_send}" for co ms f c
    by (rule write_all_inv [OF that(1) hook [OF that(2)]]) (auto dest: wait_ready_inv [OF S, rotated] sys_call_inv)
  show "read_hook L K sched h t fd n = Inr (r, b, h') \<Longrightarrow> I h'" 
    by (drule read_hook_cases) (elim disjE exE, erule passed_inv [OF _ _ h], simp, erule rd, simp)
  show "recv_hook L K sched h t fd n fl = Inr (r, b, h') \<Longrightarrow> I h'" 
    by (drule recv_hook_cases) (elim disjE exE, erule passed_inv [OF _ _ h], simp, erule rd, simp)
  show "write_hook L K sched h t fd buf = Inr (r, h') \<Longrightarrow> I h'" 
    by (drule write_hook_cases) (elim disjE exE, erule passed_inv [OF _ _ h], simp, erule wr, simp)
  show "send_hook L K sched h t fd buf fl = Inr (r, h') \<Longrightarrow> I h'" 
    by (drule send_hook_cases) (elim disjE exE, erule passed_inv [OF _ _ h], simp, erule wr, simp)
qed

lemma doSleep_inv: "sched_inv I sched \<Longrightarrow> doSleep K sched h t ms = Inr h' \<Longrightarrow> I h \<Longrightarrow> I h'"
  unfolding doSleep_def by (elim bindR_E; simp only: split_paired_all split; elim bindR_E) (auto dest!: poll_inv(1) [rotated -1])

lemma sleeping_inv:
  assumes S: "sched_inv I sched" and h: "I h" and f: "f \<noteq> Sys_gethostbyname"
    and run: "bindR (enabled (HOOK_SYS_FUNC L f h) t) (\<lambda>(co, en).
      if \<not> en then bindR (sys_call f c t (HOOK_SYS_FUNC L f h)) (\<lambda>(ret, _, h). Inr (ret, h))
      else bindR (doSleep K sched (HOOK_SYS_FUNC L f h) t ms) (\<lambda>h. Inr (0, h))) = Inr (r, h')"
  shows "I h'"
proof -
  have "(\<exists>a. sys_call f c t (HOOK_SYS_FUNC L f h) = Inr (r, a, h')) \<or> doSleep K sched (HOOK_SYS_FUNC L f h) t ms = Inr h'"
    using run by (auto simp: bindR_eq_Inr split: if_splits)
  then show ?thesis by (elim disjE exE) (erule passed_inv [OF _ f h], erule doSleep_inv [OF S _ HOOK_inv [OF f h]])
qed

lemma sleeps_inv:
  assumes S: "sched_inv I sched" and h: "I h"
  shows "sleep_hook L K sched h t s = Inr (r, h') \<Longrightarrow> I h'" "usleep_hook L K sched h t us = Inr (r, h') \<Longrightarrow> I h'"
    "nanosleep_hook L K sched h t sec ns = Inr (r, h') \<Longrightarrow> I h'"
proof -
  show "sleep_hook L K sched h t s = Inr (r, h') \<Longrightarrow> I h'"
    unfolding sleep_hook_def Let_def by (erule sleeping_inv [OF S h, rotated]) simp
  show "usleep_hook L K sched h t us = Inr (r, h') \<Longrightarrow> I h'"
    unfolding usleep_hook_def Let_def by (erule sleeping_inv [OF S h, rotated]) simp
  show "nanosleep_hook L K sched h t sec ns = Inr (r, h') \<Longrightarrow> I h'"
    unfolding nanosleep_hook_def Let_def by (erule sleeping_inv [OF S h, rotated]) simp
qed

lemma select_inv:
  assumes S: "sched_inv I sched" and h: "I h" and run: "select_hook L K sched h t n rs ws es tv = Inr (r, s, h')"
  shows "I h'"
proof -
  have pass: "I (snd (snd x))" if "sys_call Sys_select c t (HOOK_SYS_FUNC L Sys_select h) = Inr x" for c x
    using that passed_inv [of Sys_select c t L h "fst x" "fst (snd x)" "snd (snd x)"] h by simp
  have waits: "I (snd (snd y))" if "poll_hook L K sched h1 t pfs k ms = Inr y" "I h1" for pfs k ms y h1
    using that poll_inv(2) [OF S that(2), of L K t pfs k ms "fst y" "fst (snd y)" "snd (snd y)"] by simp
  show ?thesis using run unfolding select_hook_def Let_def split_beta
    by (elim bindR_E if_E) (auto dest!: pass dest: waits)
qed

lemma host_inv:
  assumes h: "I h" and run: "gethostbyname_hook L K h t nm = Inr (r, h')"
  shows "I h'"
proof -
  have own: "I h2" if "own_hostbuf K h1 t = Inr (v, h2)" "I h1" for h1 h2 v
    using that by (auto simp: own_hostbuf_def Let_def bindR_eq_Inr split: if_splits)
  have co: "I h2" if "coroutine_gethostbyname L K h1 t nm = Inr (v, h2)" "I h1" for h1 h2 v
  proof (cases nm)
    case (Some name)
    have run: "coroutine_gethostbyname L K h1 t (Some name) = Inr (v, h2)" using that(1) Some by simp
    then obtain v3 h3 a hb where h3: "own_hostbuf K h1 t = Inr (v3, h3)" "get_hostbuf h3 v3 = Inr (a, hb)"
      by (auto simp: coroutine_gethostbyname_def bindR_eq_Inr)
    then obtain q f hb' w where "host_loop L name (fresh_buffer hb) (world (hp h3)) = Some (q, f, hb', w)"
      using run by (cases "host_loop L name (fresh_buffer hb) (world (hp h3))") (auto simp: coroutine_gethostbyname_def)
    then have "h2 = h3\<lparr>hp := (hp h3)\<lparr>world := w\<rparr>, hostbufs := (hostbufs h3)(a \<mapsto> hb')\<rparr>"
      using run h3 by (auto simp: coroutine_gethostbyname_def Let_def split: if_splits)
    then show ?thesis using own [OF h3(1) that(2)] by simp
  qed (use that in \<open>auto simp: coroutine_gethostbyname_def\<close>)
  show ?thesis using run unfolding gethostbyname_hook_def
    by (elim bindR_E; simp only: split_paired_all split; elim if_E bindR_E; simp only: split_paired_all split)
      (auto simp: h dest!: sys_call_inv co)
qed

lemma call_inv:
  assumes L: "fcntl_typed L" and S: "sched_inv I sched" and c: "call_typed c" and h: "I h" and run: "do_call L K sched t h c = Inr (out, h')"
  shows "I h'"
proof -
  note inv = accept_inv [OF L S _ h] connect_inv [OF S _ h] close_inv [OF _ h] setsockopt_inv [OF _ h] sleeps_inv [OF S h]
    data_inv [OF S h] poll_inv(2) [OF S h] select_inv [OF S h] host_inv [OF h]
  show ?thesis
  proof (cases c)
    case (CFcntl fd cmd a)
    with run obtain r where r: "fcntl_hook L h t fd cmd a = Inr (r, h')" by (auto simp: bindR_eq_Inr)
    show ?thesis by (rule fcntl_inv [OF r h]) (use c CFcntl in auto)
  next
    case (CSocket d ty pr)
    with run obtain r where r: "socket_hook L h t d ty pr = Inr (r, h')" by (auto simp: bindR_eq_Inr)
    show ?thesis by (rule socket_inv [OF L r h]) (use c CSocket in simp)
  qed (use run in \<open>simp only: do_call.simps poll2_hook_def, elim outcome_E, elim inv\<close>)+
qed

lemma calls_inv:
  assumes L: "fcntl_typed L" and S: "sched_inv I sched"
  shows "list_all call_typed cs \<Longrightarrow> I h \<Longrightarrow> run_calls (do_call L K sched t) h cs = Inr (outs, h') \<Longrightarrow> I h'"
proof (induction cs arbitrary: h outs)
  case (Cons c cs)
  then obtain out h1 outs1 where "do_call L K sched t h c = Inr (out, h1)" "run_calls (do_call L K sched t) h1 cs = Inr (outs1, h')"
    by (auto simp: bindR_eq_Inr)
  moreover from this(1) Cons.prems(1) have "I h1" by (intro call_inv [OF L S _ Cons.prems(2)]) simp_all
  ultimately show ?case using Cons.IH [of h1] Cons.prems(1) by simp
qed simp

end

interpretation tt: hook_invariant table_typed
  by unfold_locales (auto simp: table_typed_def split: if_splits)

text \<open>As long as the library has not been told where the C library's \<open>gethostbyname\<close> is.\<close>

definition unresolved :: "'k hooks \<Rightarrow> bool" where
  "unresolved h \<longleftrightarrow> table_typed h \<and> \<not> g_sys h Sys_gethostbyname"

interpretation ur: hook_invariant unresolved
  by unfold_locales (auto simp: unresolved_def table_typed_def split: if_splits)

text \<open>
  C19. The table of descriptors stays well formed through every sequence of hooked calls (all seventeen of
  them, those that wait and those that close a descriptor on the way included), whatever the C library
  answers and in whatever order: every entry is in the array, and every field is a value of its type.
\<close>

theorem table_stays_typed:
  assumes "fcntl_typed L" and "sched_inv table_typed sched" and "list_all call_typed cs" and "table_typed h"
    and "run_calls (do_call L K sched t) h cs = Inr (outs, h')"
  shows "table_typed h'"
  by (rule tt.calls_inv [OF assms])

text \<open>
  C37. Code that runs without hooks cannot call \<open>gethostbyname\<close>: it calls through a null pointer. The
  pointer is null when the program starts, and whatever hooked calls have been made since, none of them has
  set it.
\<close>

theorem gethostbyname_faults:
  assumes "fcntl_typed L" and "sched_inv unresolved sched" and "list_all call_typed cs" and "unresolved h"
    and "run_calls (do_call L K sched t) h cs = Inr (outs, h')" and "enabled h' t' = Inr (co, False)"
  shows "gethostbyname_hook L K h' t' name = Inl NullDeref"
proof -
  have "unresolved h'" by (rule ur.calls_inv [OF assms(1-5)])
  with assms(6) show ?thesis by (simp add: gethostbyname_hook_def sys_call_def unresolved_def)
qed

definition still_libc :: "unit libc" where
  "still_libc = io_libc (\<lambda>_ w. ((0, 0, []), w)) (\<lambda>_ w. ((0, 0, ()), w))"

lemma unit_world: "p\<lparr>world := ()\<rparr> = p"
  by (cases p) simp

lemma still_simps: "l_fcntl still_libc fd cmd a w = ((0, 0, ()), w)" "l_close still_libc fd w = ((0, 0, ()), w)" "l_dlsym still_libc f"
  by (simp_all add: still_libc_def io_libc_def)

lemma still_run:
  "\<exists>h'. run_calls (do_call still_libc quiet_kernel (\<lambda>_. Inr) 7) (io_hooks ()) [CFcntl 9 F_SETFL (IntArg 4), CClose 9] = Inr ([Ret 0, Ret 0], h')"
proof -
  let ?h1 = "HOOK_SYS_FUNC still_libc Sys_fcntl (io_hooks ())"
  let ?h2 = "?h1\<lparr>gSocketFd := (gSocketFd ?h1)(9 \<mapsto> new_rpchook\<lparr>user_flag := 4\<rparr>)\<rparr>"
  let ?h3 = "free_by_fd (HOOK_SYS_FUNC still_libc Sys_close ?h2) 9"
  have g: "g_sys ?h1 Sys_fcntl" "g_sys (HOOK_SYS_FUNC still_libc Sys_close ?h2) Sys_close"
    by (rule HOOK_SYS_FUNC_sets, rule still_simps)+
  have "g_sys (free_by_fd h fd) = g_sys h" for h :: "unit hooks" and fd by (simp add: free_by_fd_def split: option.split)
  with g(2) have g3: "g_sys ?h3 Sys_close" by simp
  have en: "enabled ?h2 7 = Inr (Some 2, True)" using enabled_cong [of ?h2 "io_hooks ()" 7] io_start(1) [of "()"] by simp
  have "fcntl_hook still_libc (io_hooks ()) 7 9 F_SETFL (IntArg 4) = Inr (0, ?h2)"
    using g(1) io_start(1,2) [of "()"]
    by (simp add: fcntl_hook_def Let_def arg_int_def fcntl_sys_def sys_call_def set_lp_def fcntl_defs still_simps unit_world)
  moreover have "close_hook still_libc ?h2 7 9 = Inr (0, ?h3)"
    using g3 en by (simp add: close_hook_def Let_def sys_call_def get_by_fd_def gSocketFd_size_def still_simps unit_world)
  ultimately show ?thesis by simp
qed

lemma still_typed: "fcntl_typed still_libc" "sched_inv J (\<lambda>_. Inr)" "unresolved (io_hooks w)"
  "list_all call_typed [CFcntl 9 F_SETFL (IntArg 4), CClose 9]"
  using new_rpchook_typed
  by (auto simp: fcntl_typed_def still_simps int32_range_def sched_inv_def unresolved_def table_typed_def io_hooks_def gSocketFd_size_def split: if_splits)

theorem table_stays_typed_witness:
  "\<exists>h'. run_calls (do_call still_libc quiet_kernel (\<lambda>_. Inr) 7) (io_hooks ()) [CFcntl 9 F_SETFL (IntArg 4), CClose 9] = Inr ([Ret 0, Ret 0], h') \<and>
     table_typed h'"
proof -
  from still_run obtain h' where run: "run_calls (do_call still_libc quiet_kernel (\<lambda>_. Inr) 7) (io_hooks ()) [CFcntl 9 F_SETFL (IntArg 4), CClose 9] =
      Inr ([Ret 0, Ret 0], h')" by blast
  have "table_typed (io_hooks ())" using still_typed(3) [of "()"] by (simp add: unresolved_def)
  from table_stays_typed [OF still_typed(1,2,4) this run] run show ?thesis by blast
qed

text \<open>The thread of \<open>demo_process\<close> runs no task.\<close>

definition main_hooks :: "unit hooks" where
  "main_hooks = (io_hooks ())\<lparr>hp := demo_process\<rparr>"

lemma main_plain: "enabled main_hooks 7 = Inr (Some 0, False)"
  using self_is_running(1) [OF demo_stack]
  by (simp add: enabled_def main_hooks_def is_enable_sys_hook_def get_co_def demo_process_def zero_coroutine_def)

theorem gethostbyname_faults_witness:
  "\<exists>h'. run_calls (do_call still_libc quiet_kernel (\<lambda>_. Inr) 7) main_hooks [CClose 9] = Inr ([Ret 0], h') \<and>
     gethostbyname_hook still_libc quiet_kernel h' 7 (Some ''host'') = Inl NullDeref"
proof -
  let ?h = "HOOK_SYS_FUNC still_libc Sys_close main_hooks"
  have "g_sys ?h Sys_close" by (rule HOOK_SYS_FUNC_sets) (rule still_simps)
  then have run: "run_calls (do_call still_libc quiet_kernel (\<lambda>_. Inr) 7) main_hooks [CClose 9] = Inr ([Ret 0], ?h)"
    using main_plain by (simp add: close_hook_def Let_def sys_call_def still_simps unit_world)
  have "unresolved main_hooks" using still_typed(3) [of "()"] by (simp add: main_hooks_def unresolved_def table_typed_def)
  moreover have "enabled ?h 7 = Inr (Some 0, False)" using main_plain by simp
  ultimately show ?thesis
    using gethostbyname_faults [OF still_typed(1) still_typed(2) _ _ run, of 7 "Some 0" "Some ''host''"] run by auto
qed

end
