(* ===== verification/Sleep_Example.thy ===== *)
theory Sleep_Example
  imports Hook_IO
begin

text \<open>
  A whole program on the runtime: \<^verbatim>\<open>src/example/sleep_coroutine.c\<close>, whose coroutines sleep in turn for
  ever. Between two waits a coroutine does nothing but print. The theory shows that the program keeps
  every promise the event loop asks for, and what follows for it: the loop runs on without a fault and
  wakes every coroutine when its time has come.
\<close>

section \<open>The program\<close>

text \<open>
  The functions \<open>fun1\<close> and \<open>fun2\<close>: an endless loop that prints and sleeps. Without hooks, \<open>sleep\<close> stops
  the thread and never gives the processor to another coroutine, and nor does the loop. With hooks,
  \<open>sleep\<close> waits in \<open>doSleep\<close>, or returns at once and is called again.
\<close>

partial_function (option) sleep_loop :: "'k kernel \<Rightarrow> nat \<Rightarrow> u32 \<Rightarrow> 'k process \<Rightarrow> 'k process c_result option" where
  "sleep_loop K t seconds p =
     (case bindR (coroutine_self p t) (\<lambda>co. is_enable_sys_hook p co) of
        Inl e \<Rightarrow> Some (Inl e)
      | Inr en \<Rightarrow>
          if \<not> en then None
          else
            (case bindR (get_epoll_context K p t) (\<lambda>(_, p).
                poll_enter K p t [zero_pollfd] 0 (int_of_u64 (ucast (seconds * 1000))) None) of
               Inl e \<Rightarrow> Some (Inl e)
             | Inr (PollWaits pc p) \<Rightarrow> Some (Inr p)
             | Inr (PollReturns ret fds p) \<Rightarrow> sleep_loop K t seconds p))"

text \<open>
  What a coroutine does when it is resumed from its sleep, until it sleeps again; \<open>item\<close> is the timer of
  its poll context, which follows the context in memory. \<open>secs\<close> tells how long each coroutine sleeps.
\<close>

definition sleep_run :: "'k kernel \<Rightarrow> nat \<Rightarrow> (nat \<Rightarrow> u32) \<Rightarrow> nat \<Rightarrow> 'k process \<Rightarrow> 'k process c_result" where
  "sleep_run K t secs item p =
     bindR (poll_leave K p t (item - 1) [zero_pollfd] 0) (\<lambda>(_, _, p).
     bindR (coroutine_self p t) (\<lambda>co.
     case sleep_loop K t (secs (the co)) p of None \<Rightarrow> Inl Diverges | Some r \<Rightarrow> r))"

section \<open>What is asked of the kernel\<close>

text \<open>
  The worlds that can be reached while the program runs, between two calls of \<open>epoll_wait\<close>. \<open>window\<close>
  says that the clock stays between the start of the wheel and its end.
\<close>

inductive reach :: "'k kernel \<Rightarrow> 'k \<Rightarrow> 'k \<Rightarrow> bool" for K where
  reach_refl: "reach K w w"
| reach_tick: "reach K w w' \<Longrightarrow> reach K w (snd (k_gettimeofday K w'))"
| reach_ctl: "reach K w w' \<Longrightarrow> reach K w (snd (k_epoll_ctl K epfd opr fd ev w'))"

definition window :: "'k kernel \<Rightarrow> u64 \<Rightarrow> 'k \<Rightarrow> bool" where
  "window K start w \<longleftrightarrow> (\<forall>w'. reach K w w' \<longrightarrow> start \<le> clock_at K w' \<and> uint (clock_at K w') + kMaxTimeoutMs < uint start + 60000)"

text \<open>
  A kernel on which the program lives: epoll has nothing to report, because nothing is registered; the
  clock does not go back, a turn of the loop takes less than the minute the wheel is wide, and one wait
  for epoll less than twelve days.
\<close>

definition patient :: "'k kernel \<Rightarrow> bool" where
  "patient K \<longleftrightarrow> (\<forall>epfd n ms w. let r = k_epoll_wait K epfd n ms w in
     (fst r \<in> range Inl \<or> fst r = Inr []) \<and> window K (clock_at K (snd r)) (snd r) \<and>
     clock_at K w \<le> clock_at K (snd r) \<and> uint (clock_at K (snd r)) - uint (clock_at K w) < 2 ^ 30) \<and>
     (\<forall>w. uint (clock_at K w) + 60000 < 2 ^ 64)"

lemma reach_trans: "reach K w' w'' \<Longrightarrow> reach K w w' \<Longrightarrow> reach K w w''"
  by (induction rule: reach.induct) (auto intro: reach.intros)

lemma reach_ctl_world: "ctl_world K w w' \<Longrightarrow> reach K w w'"
  unfolding ctl_world_def by (induction rule: rtranclp_induct) (auto simp: ctl_step_def intro: reach.intros)

lemma window_reach: "window K start w \<Longrightarrow> reach K w w' \<Longrightarrow> window K start w'"
  unfolding window_def by (intro allI impI) (drule reach_trans, assumption, blast)

lemma windowD:
  assumes "window K start w" and "reach K w w'"
  shows "start \<le> clock_at K w'" "uint (clock_at K w') + kMaxTimeoutMs < uint start + 60000"
  using assms(1) [unfolded window_def, THEN spec, THEN mp, OF assms(2)] by (rule conjunct1, rule conjunct2)

lemma window_clock:
  assumes "window K (et_start timer) w" and n: "et_size timer = 60000" "uint (et_start timer) + 60000 < 2 ^ 64"
  shows "clock_ok K w timer"
  unfolding clock_ok_def n(1)
proof (intro conjI allI impI n(2))
  fix w' assume "ctl_world K w w'"
  then show "et_start timer \<le> clock_at K w'" "uint (clock_at K w') + kMaxTimeoutMs < uint (et_start timer) + 60000"
    by (rule windowD [OF assms(1) reach_ctl_world])+
qed

section \<open>The invariant of the program\<close>

text \<open>
  Only sleeping coroutines wait: their poll contexts have no descriptors. Every coroutine but the thread
  itself has a task with hooks and without a time limit. The wheel starts at \<open>B\<close> or later.
\<close>

definition sleeping :: "(nat \<rightharpoonup> poll_context_t) \<Rightarrow> bool" where
  "sleeping PL \<longleftrightarrow> (\<forall>pc P. PL pc = Some P \<longrightarrow> pc_time P = Suc pc \<and> pc_fds P = [])"

definition tasks_free :: "nat \<Rightarrow> 'k process \<Rightarrow> bool" where
  "tasks_free m p \<longleftrightarrow> (\<forall>c co. c \<noteq> m \<longrightarrow> coroutines p c = Some co \<longrightarrow> (\<exists>k tk. co_task co = Some k \<and> tasks p k = Some tk \<and>
     at_max_timeout_ms (tk_attr tk) = -1 \<and> at_enable_sys_hook (tk_attr tk)))"

definition sleep_inv :: "'k kernel \<Rightarrow> nat \<Rightarrow> nat \<Rightarrow> int \<Rightarrow> 'k process \<Rightarrow> bool" where
  "sleep_inv K t m B p \<longleftrightarrow> window K (et_start (timer_of p t)) (world p) \<and> uint (et_start (timer_of p t)) + 60000 < 2 ^ 64 \<and>
     et_size (timer_of p t) = 60000 \<and> B \<le> uint (et_start (timer_of p t)) \<and>
     0 \<le> ep_size (ev_epoll (the (gEnv p t))) \<and> sleeping (polls p) \<and> tasks_free m p"

lemma co_task_static: "co_task (co_static co) = co_task co"
  by (simp add: co_static_def)

lemma tasks_free_cong:
  assumes "tasks_free m p" and "tasks p' = tasks p" and "\<And>c. map_option co_static (coroutines p' c) = map_option co_static (coroutines p c)"
  shows "tasks_free m p'"
  unfolding tasks_free_def
proof (intro allI impI)
  fix c co assume "c \<noteq> m" "coroutines p' c = Some co"
  with assms(3) [of c] have "map_option co_static (coroutines p c) = Some (co_static co)" by simp
  then obtain co1 where "coroutines p c = Some co1" "co_static co1 = co_static co" unfolding map_option_eq_Some by blast
  then have "co_task co1 = co_task co" using arg_cong [of "co_static co1" "co_static co" co_task] unfolding co_task_static by blast
  moreover obtain k tk where "co_task co1 = Some k" "tasks p k = Some tk" "at_max_timeout_ms (tk_attr tk) = -1" "at_enable_sys_hook (tk_attr tk)"
    using assms(1) \<open>c \<noteq> m\<close> \<open>coroutines p c = Some co1\<close> unfolding tasks_free_def by blast
  ultimately show "\<exists>k tk. co_task co = Some k \<and> tasks p' k = Some tk \<and> at_max_timeout_ms (tk_attr tk) = -1 \<and> at_enable_sys_hook (tk_attr tk)"
    using assms(2) by (intro exI [of _ k] exI [of _ tk]) simp
qed

lemma sleep_framed: "framed t (sleep_inv K t m B)"
  unfolding framed_def
proof (intro allI impI)
  fix p p' :: "'a process" assume f: "loop_frame t p p'" and I: "sleep_inv K t m B p"
  have s: "world p' = world p" "tasks p' = tasks p" "polls p' = polls p" "timer_of p' t = timer_of p t"
    and c: "map_option co_static (coroutines p' c) = map_option co_static (coroutines p c)" for c
    using f unfolding loop_frame_def by blast+
  have n: "ep_size (ev_epoll (the (gEnv p' t))) = ep_size (ev_epoll (the (gEnv p t)))" using f unfolding loop_frame_def Let_def by blast
  have "tasks_free m p" using I unfolding sleep_inv_def by blast
  then have "tasks_free m p'" using s(2) c by (rule tasks_free_cong)
  with I show "sleep_inv K t m B p'" by (simp add: s n sleep_inv_def)
qed

lemma sleep_live:
  "pc_fds Q = [] \<Longrightarrow> poll_live s q d Q (length (pc_fds Q)) \<longleftrightarrow> pc_items Q = [] \<and>
     (\<exists>it. payload s (pc_time Q) = Some it \<and> ti_process it = Some Process_poll_event \<and> ti_coroutine it = Some d)"
  by (auto simp: poll_live_def payload_def)

section \<open>One coroutine, from wait to wait\<close>

text \<open>
  The coroutines that wait in \<open>p\<close> still wait in \<open>p'\<close>, when their contexts and timers have been left alone;
  others may have joined them.
\<close>

lemma turn_ok_extend:
  assumes ok: "turn_ok p t xs W A"
    and new: "stack_ok p' t xs'" "poll_fresh p' (store_of p' t)" "wheel_inv (store_of p' t) A' (timer_of p' t)"
    and keep: "\<And>d q Q. W d = Some q \<Longrightarrow> polls p q = Some Q \<Longrightarrow> poll_live (store_of p t) q d Q (length (pc_fds Q)) \<Longrightarrow>
      (\<exists>l. pc_time Q \<in> set (A l)) \<Longrightarrow> polls p' q = Some Q \<and> poll_live (store_of p' t) q d Q (length (pc_fds Q))"
    and mono: "set xs' \<subseteq> set xs" "\<And>d. ready p t d \<Longrightarrow> ready p' t d" "\<And>l. set (A l) \<subseteq> set (A' l)"
    and W': "\<And>d q. W d = Some q \<Longrightarrow> W' d = Some q"
      "\<And>d q. W' d = Some q \<Longrightarrow> W d \<noteq> Some q \<Longrightarrow> d \<notin> set xs' \<and> ready p' t d \<and> parked (polls p') (store_of p' t) A' d q"
      "\<And>d q Q. W' d = Some q \<Longrightarrow> W d \<noteq> Some q \<Longrightarrow> polls p' q = Some Q \<Longrightarrow> \<not> pc_allEventDetatch Q"
    and linked: "\<And>x l. x \<in> set (A' l) \<Longrightarrow> x \<notin> set (A l) \<Longrightarrow> \<exists>d q Q. W' d = Some q \<and> polls p' q = Some Q \<and> pc_time Q = x"
    and ep: "A' TimeoutList = []" "ep_result (ev_epoll (the (gEnv p' t))) = ep_result (ev_epoll (the (gEnv p t)))"
      "ep_size (ev_epoll (the (gEnv p' t))) = ep_size (ev_epoll (the (gEnv p t)))"
    and dl: "\<And>x. x \<in> pending A \<Longrightarrow> deadline (store_of p' t) x = deadline (store_of p t) x"
  shows "turn_ok p' t xs' W' A' \<and> kept_waiting t p W A p' W' A'"
proof -
  have tok: "thread_ok p t xs W A" using ok by (simp add: turn_ok_def)
  have still: "d \<notin> set xs' \<and> ready p' t d \<and> parked (polls p') (store_of p' t) A' d q \<and> polls p' q = polls p q" if w: "W d = Some q" for d q
  proof -
    obtain Q where Q: "polls p q = Some Q" "poll_live (store_of p t) q d Q (length (pc_fds Q))" "\<exists>l. pc_time Q \<in> set (A l)" "d \<notin> set xs" "ready p t d"
      by (rule thread_ok_waiting [OF tok w])
    note Q' = keep [OF w Q(1-3)]
    moreover have "\<exists>l. pc_time Q \<in> set (A' l)" using Q(3) mono(3) by blast
    ultimately have "parked (polls p') (store_of p' t) A' d q" unfolding parked_def by blast
    then show ?thesis using Q(1,4) Q' mono(1) mono(2) [OF Q(5)] by auto
  qed
  have "d \<notin> set xs' \<and> ready p' t d \<and> parked (polls p') (store_of p' t) A' d q" if "W' d = Some q" for d q
    using still [of d q] W'(2) [OF that] by (cases "W d = Some q") simp_all
  moreover have "\<exists>d q Q. W' d = Some q \<and> polls p' q = Some Q \<and> pc_time Q = x" if x: "x \<in> set (A' l)" for x l
  proof (cases "x \<in> set (A l)")
    case True
    then obtain d q Q where "W d = Some q" "polls p q = Some Q" "pc_time Q = x" by (rule thread_ok_linked [OF tok])
    with still [OF this(1)] W'(1) [OF this(1)] show ?thesis by (intro exI [of _ d] exI [of _ q] exI [of _ Q]) simp
  qed (rule linked [OF x])
  ultimately have "thread_ok p' t xs' W' A'" using new by (simp add: thread_ok_def)
  moreover have "pc_time Q \<in> set (A' ActiveList)" if w: "W' d = Some q" "polls p' q = Some Q" "pc_allEventDetatch Q" for d q Q
  proof -
    have d: "W d = Some q" using W'(3) [OF w(1) _ w(2)] w(3) by blast
    then have "polls p q = Some Q" using still [OF d] w(2) by simp
    with ok d w(3) have "pc_time Q \<in> set (A ActiveList)" unfolding turn_ok_def by blast
    then show ?thesis using mono(3) by blast
  qed
  moreover obtain r where "ep_result (ev_epoll (the (gEnv p t))) = Some r" "length (er_events r) = nat (ep_size (ev_epoll (the (gEnv p t))))"
    using ok unfolding turn_ok_def by blast
  ultimately have "turn_ok p' t xs' W' A'" unfolding turn_ok_def using ep by (intro conjI allI impI exI [of _ r]; simp)
  moreover have "kept_waiting t p W A p' W' A'" unfolding kept_waiting_def
  proof (intro conjI allI impI ballI)
    fix x assume "x \<in> pending A"
    then show "x \<in> pending A'" using mono(3) unfolding pending_def by blast
  qed (use still W'(1) dl in simp_all)
  ultimately show ?thesis ..
qed

text \<open>With hooks, the loop waits when \<open>poll_inner\<close> does.\<close>

lemma sleep_loop_waits:
  assumes st: "stack_ok p t (xs @ [m, c])" and env: "gEnv p t = Some env" and co: "coroutines p c = Some co"
    and tk: "co_task co = Some k" "tasks p k = Some tk" "at_enable_sys_hook (tk_attr tk)"
    and e: "poll_enter K p t [zero_pollfd] 0 (int_of_u64 (ucast (seconds * 1000))) None = Inr (PollWaits pc p')"
  shows "sleep_loop K t seconds p = Some (Inr p')"
proof -
  have self: "coroutine_self p t = Inr (Some c)" using self_is_running(1) [OF st] by simp
  have en: "is_enable_sys_hook p (Some c) = Inr True" using co tk by (simp add: is_enable_sys_hook_def get_co_def get_task_def)
  have "get_epoll_context K p t = Inr (ev_epoll env, p)"
    using env stack_ok_bound [OF st] by (simp add: get_epoll_context_def get_curr_thread_env_def get_env_def)
  with self en e show ?thesis by (subst sleep_loop.simps) simp
qed

lemma sleep_again:
  assumes ok: "turn_ok p t [m, c] W A" and inv: "sleep_inv K t m B p" and s: "-1 \<le> int_of_u64 (ucast (seconds * 1000))"
  obtains p' A' where "sleep_loop K t seconds p = Some (Inr p')" "turn_ok p' t [m] (W(c \<mapsto> next_id p)) A'" "sleep_inv K t m B p'"
    "A' ActiveList = A ActiveList" "kept_waiting t p W A p' (W(c \<mapsto> next_id p)) A'"
proof -
  let ?ms = "int_of_u64 (ucast (seconds * 1000))" and ?n = "next_id p" and ?W = "W(c \<mapsto> next_id p)"
  have tok: "thread_ok p t [m, c] W A" using ok by (simp add: turn_ok_def)
  have st: "stack_ok p t ([] @ [m, c])" using thread_ok_parts(1) [OF tok] by simp
  obtain env where env: "gEnv p t = Some env" using stack_ok_env [OF st] by blast
  have sp: "store_of p t = ep_store (ev_epoll env)" "timer_of p t = ep_timer (ev_epoll env)" using env by (simp_all add: store_of_def timer_of_def)
  have fr: "poll_fresh p (store_of p t)" and wi: "wheel_inv (store_of p t) A (timer_of p t)" using thread_ok_parts(2,3) [OF tok] by simp_all
  have I: "window K (et_start (timer_of p t)) (world p)" "uint (et_start (timer_of p t)) + 60000 < 2 ^ 64" "et_size (timer_of p t) = 60000"
    "sleeping (polls p)" "tasks_free m p" using inv by (simp_all add: sleep_inv_def)
  have cm: "c \<noteq> m" using st by (auto simp: stack_ok_def)
  obtain co where co: "coroutines p c = Some co" using stack_ok_last [OF st] by auto
  from I(5) cm co obtain k tk where tk: "co_task co = Some k" "tasks p k = Some tk" "at_max_timeout_ms (tk_attr tk) = -1" "at_enable_sys_hook (tk_attr tk)"
    unfolding tasks_free_def by blast
  have clk: "clock_ok K (world p) (timer_of p t)" by (rule window_clock [OF I(1,3,2)])
  have le: "0 \<le> length [zero_pollfd]" and z: "(0 :: nat) \<noteq> 1 \<or> None = None \<or> R" for R by simp_all
  obtain p' A' P w where e: "poll_enter K p t [zero_pollfd] 0 ?ms None = Inr (PollWaits ?n p')"
    "stack_ok p' t ([] @ [m])" "poll_in p' t A' ?n c 0 (Suc ?n)" "\<exists>i. A' = A(WheelSlot i := A (WheelSlot i) @ [Suc ?n])"
    "polls p' = (polls p)(?n \<mapsto> P)" "pc_time P = Suc ?n" "w = add_world K (ep_fd (ev_epoll env)) (Suc (Suc ?n)) [zero_pollfd] 0 (world p)"
    "\<forall>y < ?n. payload (store_of p' t) y = payload (store_of p t) y" "timer_of p' t = timer_of p t" "\<forall>d. ready p t d \<longrightarrow> ready p' t d" "ready p' t c"
    "world p' = snd (k_gettimeofday K w)" "\<exists>env'. gEnv p' t = Some env' \<and> ep_result (ev_epoll env') = ep_result (ev_epoll env) \<and>
      ep_size (ev_epoll env') = ep_size (ev_epoll env)"
    "tasks p' = tasks p" "\<forall>d. map_option co_static (coroutines p' d) = map_option co_static (coroutines p d)"
    unfolding sp
    by (rule poll_enter_waits [OF st env fr [unfolded sp] wi [unfolded sp] clk [unfolded sp] le s fix_timeout_unlimited [OF co tk(1-3)] z])
  have run: "sleep_loop K t seconds p = Some (Inr p')" by (rule sleep_loop_waits [OF st env co tk(1,2,4) e(1)])
  from e(13) obtain env' where env': "gEnv p' t = Some env'" "ep_result (ev_epoll env') = ep_result (ev_epoll env)"
    "ep_size (ev_epoll env') = ep_size (ev_epoll env)" by blast
  have new: "wheel_inv (store_of p' t) A' (timer_of p' t)" "poll_fresh p' (store_of p' t)" "poll_ready (store_of p' t) ?n c P 0"
    using e(3,5) env'(1) by (auto simp: poll_in_def store_of_def timer_of_def)
  have P: "pc_fds P = []" "poll_live (store_of p' t) ?n c P (length (pc_fds P))" "\<not> pc_allEventDetatch P"
    using new(3) by (auto simp: poll_ready_def poll_live_def)
  from e(4) obtain i where A': "A' = A(WheelSlot i := A (WheelSlot i) @ [Suc ?n])" by blast
  have pn: "polls p' ?n = Some P" using e(5) by simp
  have "pc_time P \<in> set (A' (WheelSlot i))" by (simp add: A' e(6))
  then have park: "parked (polls p') (store_of p' t) A' c ?n" using pn P(2) unfolding parked_def by blast
  have "turn_ok p' t [m] ?W A' \<and> kept_waiting t p W A p' ?W A'"
  proof (rule turn_ok_extend [OF ok _ new(2,1)])
    fix d q Q assume q: "W d = Some q" "polls p q = Some Q" "poll_live (store_of p t) q d Q (length (pc_fds Q))" "\<exists>l. pc_time Q \<in> set (A l)"
    have "pc_fds Q = []" using I(4) q(2) by (simp add: sleeping_def)
    moreover have "pc_time Q < ?n" using q(4) linked_fresh [OF wi fr] by blast
    moreover have "q \<noteq> ?n" using q(2) fr by (auto simp: poll_fresh_def)
    ultimately show "polls p' q = Some Q \<and> poll_live (store_of p' t) q d Q (length (pc_fds Q))"
      using q(2,3) e(5,8) sleep_live [of Q] by simp
  next
    fix d q assume w: "W d = Some q"
    then have "d \<noteq> c" using thread_ok_waiting [OF tok w] by (metis list.set_intros(1,2))
    then show "?W d = Some q" using w by simp
  next
    fix x assume "x \<in> pending A"
    then have "x < ?n" using linked_fresh [OF wi fr] by (auto simp: pending_def)
    with e(8) show "deadline (store_of p' t) x = deadline (store_of p t) x" by (simp add: deadline_def)
  qed (use ok e(2,5,6,10,11) cm park pn P(3) env env' in \<open>auto simp: A' turn_ok_def split: if_splits\<close>)
  moreover have "reach K (world p) (world p')" using reach_tick [OF reach_refl, of K "world p"] e(7,12) by (simp add: add_world_def)
  then have "sleep_inv K t m B p'"
    using inv I e(5,6,9,14,15) env env'(1,3) P(1) window_reach [OF I(1)] tasks_free_cong [OF I(5), of p'] by (simp add: sleep_inv_def sleeping_def)
  moreover have "A' ActiveList = A ActiveList" by (simp add: A')
  ultimately show thesis using that [OF run, of A'] by simp
qed

lemma sleep_woken:
  assumes ok: "turn_ok p t [m, c] W A" and inv: "sleep_inv K t m B p" and pc: "polls p pc = Some P"
    and live: "poll_live (store_of p t) pc c P (length (pc_fds P))" and out: "\<forall>l. pc_time P \<notin> set (A l)"
  obtains r fds p' where "poll_leave K p t pc [zero_pollfd] 0 = Inr (r, fds, p')" "turn_ok p' t [m, c] W A" "sleep_inv K t m B p'"
    "kept_waiting t p W A p' W A"
proof -
  have tok: "thread_ok p t [m, c] W A" using ok by (simp add: turn_ok_def)
  have st: "stack_ok p t ([m] @ [c])" using thread_ok_parts(1) [OF tok] by simp
  obtain env where env: "gEnv p t = Some env" using stack_ok_env [OF st] by blast
  have sp: "store_of p t = ep_store (ev_epoll env)" "timer_of p t = ep_timer (ev_epoll env)" using env by (simp_all add: store_of_def timer_of_def)
  have I: "window K (et_start (timer_of p t)) (world p)" "sleeping (polls p)" "tasks_free m p" using inv by (simp_all add: sleep_inv_def)
  have P: "pc_fds P = []" using I(2) pc unfolding sleeping_def by blast
  then have live0: "poll_live (ep_store (ev_epoll env)) pc c P 0" and items: "pc_items P = []" using live sleep_live [OF P] sp by simp_all
  have wi: "wheel_inv (store_of p t) A (timer_of p t)" and fr: "poll_fresh p (store_of p t)" by (rule thread_ok_parts [OF tok])+
  have blocks: "heap p = live_blocks (polls p)" using fr by (simp add: poll_fresh_def)
  then have blk: "blocks_of pc P \<subseteq> heap p" using live_blocks_mem [of "polls p", OF pc] by simp
  have le: "(0 :: nat) \<le> length [zero_pollfd]" by simp
  have gone: "(\<lambda>l. removeAll (pc_time P) (A l)) = A" using out by (intro ext removeAll_id) blast
  obtain p' w e s where l: "poll_leave K p t pc [zero_pollfd] 0 = Inr (pc_raise_cnt P, with_revents P [zero_pollfd] 0, p')"
    "stack_ok p' t ([m] @ [c])" "wheel_inv s A (ep_timer (ev_epoll env))"
    "p' = p\<lparr>polls := (polls p)(pc := None), heap := heap p - blocks_of pc P,
       gEnv := (gEnv p)(t \<mapsto> env\<lparr>ev_epoll := (ev_epoll env)\<lparr>ep_store := s\<rparr>\<rparr>), world := w, c_errno := e\<rparr>"
    "payload s = (\<lambda>y. if y \<in> set (pc_time P # map pi_time (pc_items P)) then None else payload (ep_store (ev_epoll env)) y)"
    "w = del_world K (ep_fd (ev_epoll env)) [zero_pollfd] 0 (world p)"
    by (rule poll_leave_returns [OF st env pc wi [unfolded sp] live0 le blk, of K, unfolded gone])
  have p': "store_of p' t = s" "timer_of p' t = timer_of p t" "polls p' = (polls p)(pc := None)" "tasks p' = tasks p" "coroutines p' = coroutines p"
    "world p' = w" "next_id p' = next_id p" "heap p' = heap p - blocks_of pc P" "gEnv p' t = Some (env\<lparr>ev_epoll := (ev_epoll env)\<lparr>ep_store := s\<rparr>\<rparr>)"
    unfolding l(4) using env by (simp_all add: store_of_def timer_of_def)
  have same: "payload s x = payload (store_of p t) x" if "x \<noteq> pc_time P" for x using that unfolding l(5) items sp by simp
  have "items s i = None" if "items (store_of p t) i = None" for i
    using that fun_cong [OF l(5), of i] unfolding sp by (simp add: payload_def split: if_splits)
  then have fr': "poll_fresh p' (store_of p' t)"
    using fr live_blocks_gone [of "polls p", OF pc] unfolding poll_fresh_def p'(1,3,7,8) by simp
  have wi': "stack_ok p' t [m, c]" "wheel_inv (store_of p' t) A (timer_of p' t)" using l(2,3) p'(1,2) sp by simp_all
  have "turn_ok p' t [m, c] W A \<and> kept_waiting t p W A p' W A"
  proof (rule turn_ok_extend [OF ok wi'(1) fr' wi'(2)])
    fix d q Q assume q: "W d = Some q" "polls p q = Some Q" "poll_live (store_of p t) q d Q (length (pc_fds Q))" "\<exists>l. pc_time Q \<in> set (A l)"
    then have ne: "pc_time Q \<noteq> pc_time P" using out by metis
    then have "q \<noteq> pc" using q(2) pc by auto
    moreover have "pc_fds Q = []" using I(2) q(2) unfolding sleeping_def by blast
    ultimately show "polls p' q = Some Q \<and> poll_live (store_of p' t) q d Q (length (pc_fds Q))"
      using q(2,3) same [OF ne] p'(1,3) sleep_live [of Q] by simp
  next
    fix x assume "x \<in> pending A"
    then have "x \<noteq> pc_time P" using out by (auto simp: pending_def)
    then show "deadline (store_of p' t) x = deadline (store_of p t) x" using same p'(1) by (simp add: deadline_def)
  qed (use ok p'(5,9) env in \<open>auto simp: turn_ok_def ready_def\<close>)
  moreover have "window K (et_start (timer_of p t)) w" using I(1) l(6) by (simp add: del_world_def)
  moreover have "sleeping (polls p')" using I(2) unfolding sleeping_def p'(3) by (simp split: if_splits)
  moreover have "tasks_free m p'" using I(3) unfolding tasks_free_def p'(4,5) by blast
  ultimately show thesis using that [OF l(1)] inv env by (simp add: sleep_inv_def p')
qed

lemma kept_waiting_trans:
  assumes "kept_waiting t p W A p1 W1 A1" and "kept_waiting t p1 W1 A1 p2 W2 A2"
  shows "kept_waiting t p W A p2 W2 A2"
  using assms by (simp add: kept_waiting_def) metis

text \<open>Times to sleep that are, as milliseconds in an \<open>int\<close>, not taken for negative.\<close>

definition naps :: "(nat \<Rightarrow> u32) \<Rightarrow> bool" where
  "naps secs \<longleftrightarrow> (\<forall>c. -1 \<le> int_of_u64 (ucast (secs c * 1000)))"

lemma sleep_cooperative:
  assumes "naps secs"
  shows "cooperative (sleep_run K t secs) t m (sleep_inv K t m B)"
  unfolding cooperative_def
proof (intro allI impI)
  fix p c pc P W A
  assume ok: "turn_ok p t [m, c] W A" and inv: "sleep_inv K t m B p" and pc: "polls p pc = Some P"
    and live: "poll_live (store_of p t) pc c P (length (pc_fds P))" "\<forall>l. pc_time P \<notin> set (A l)"
  obtain r fds p1 where w: "poll_leave K p t pc [zero_pollfd] 0 = Inr (r, fds, p1)" "turn_ok p1 t [m, c] W A" "sleep_inv K t m B p1"
    "kept_waiting t p W A p1 W A" by (rule sleep_woken [OF ok inv pc live])
  have nap: "-1 \<le> int_of_u64 (ucast (secs c * 1000))" using assms by (simp only: naps_def)
  obtain p' A' where s: "sleep_loop K t (secs c) p1 = Some (Inr p')" "turn_ok p' t [m] (W(c \<mapsto> next_id p1)) A'" "sleep_inv K t m B p'"
    "A' ActiveList = A ActiveList" "kept_waiting t p1 W A p' (W(c \<mapsto> next_id p1)) A'" by (rule sleep_again [OF w(2,3) nap])
  have "pc_time P = Suc pc" using inv pc unfolding sleep_inv_def sleeping_def by blast
  moreover have "stack_ok p1 t ([m] @ [c])" using w(2) thread_ok_parts(1) by (fastforce simp: turn_ok_def)
  then have "coroutine_self p1 t = Inr (Some c)" using self_is_running(1) by fastforce
  ultimately have "sleep_run K t secs (pc_time P) p = Inr p'" using w(1) s(1) by (simp add: sleep_run_def)
  with s(2-4) kept_waiting_trans [OF w(4) s(5)] show "\<exists>p' W' A'. sleep_run K t secs (pc_time P) p = Inr p' \<and> turn_ok p' t [m] W' A' \<and>
      sleep_inv K t m B p' \<and> A' ActiveList = A ActiveList \<and> kept_waiting t p W A p' W' A'" by blast
qed

section \<open>Turn after turn\<close>

lemma patientD:
  assumes "patient K"
  shows "fst (k_epoll_wait K e n ms w) \<in> range Inl \<or> fst (k_epoll_wait K e n ms w) = Inr []"
    "window K (clock_at K (snd (k_epoll_wait K e n ms w))) (snd (k_epoll_wait K e n ms w))"
    "clock_at K w \<le> clock_at K (snd (k_epoll_wait K e n ms w))"
    "uint (clock_at K (snd (k_epoll_wait K e n ms w))) - uint (clock_at K w) < 2 ^ 30" "uint (clock_at K w) + 60000 < 2 ^ 64"
  using assms unfolding patient_def Let_def by simp_all

lemma sleep_reports: "patient K \<Longrightarrow> sleep_inv K t m B p \<Longrightarrow> reports K p t W []"
proof -
  assume K: "patient K" and I: "sleep_inv K t m B p"
  let ?ep = "ev_epoll (the (gEnv p t))"
  have "fst (k_epoll_wait K (ep_fd ?ep) (ep_size ?ep) 1 (world p)) \<in> range Inl \<or> fst (k_epoll_wait K (ep_fd ?ep) (ep_size ?ep) 1 (world p)) = Inr []"
    by (rule patientD(1) [OF K])
  then show "reports K p t W []" using I by (auto simp: reports_def Let_def sleep_inv_def)
qed

lemma sleep_clock:
  assumes K: "patient K" and I: "sleep_inv K t m B p"
  shows "clock_near (timer_of p t) (awake K p t)" "uint (clock_at K (world p)) \<le> uint (awake K p t)" "B \<le> uint (clock_at K (world p))"
proof -
  have win: "window K (et_start (timer_of p t)) (world p)" and B: "B \<le> uint (et_start (timer_of p t))" using I by (simp_all add: sleep_inv_def)
  note w = windowD [OF win reach_refl, unfolded kMaxTimeoutMs_def]
  have a: "clock_at K (world p) \<le> awake K p t" "uint (awake K p t) - uint (clock_at K (world p)) < 2 ^ 30"
    unfolding awake_def Let_def by (rule patientD [OF K])+
  show "clock_near (timer_of p t) (awake K p t)" using w a unfolding clock_near_def word_le_def by (intro conjI; simp)
  show "uint (clock_at K (world p)) \<le> uint (awake K p t)" "B \<le> uint (clock_at K (world p))" using w a B unfolding word_le_def by simp_all
qed

text \<open>After the first half of a turn the wheel starts at the time epoll returned.\<close>

lemma sleep_collect:
  assumes K: "patient K" and b: "between p t m W A" and I: "sleep_inv K t m B p" and c: "collect K p t = Inr p'"
  shows "sleep_inv K t m (uint (awake K p t)) p'"
proof -
  have "thread_ok p t [m] W A" using b by (simp add: between_def turn_ok_def)
  then obtain env where env: "gEnv p t = Some env" using stack_ok_env [OF thread_ok_parts(1)] by blast
  let ?ep = "ev_epoll env"
  have at: "awake K p t = clock_at K (snd (k_epoll_wait K (ep_fd ?ep) (ep_size ?ep) 1 (world p)))" by (simp add: awake_def env Let_def)
  obtain q where q: "collect K p t = Inr q" "polls q = polls p" "et_start (timer_of q t) = awake K p t" "et_size (timer_of q t) = et_size (timer_of p t)"
    "world q = snd (k_gettimeofday K (snd (k_epoll_wait K (ep_fd ?ep) (ep_size ?ep) 1 (world p))))"
    "ep_size (ev_epoll (the (gEnv q t))) = ep_size ?ep" "coroutines q = coroutines p" "tasks q = tasks p"
    by (rule collect_run [OF b sleep_reports [OF K I] sleep_clock(1) [OF K I] env]) simp
  have [simp]: "q = p'" using c q(1) by simp
  have "window K (awake K p t) (world q)" unfolding at q(5) by (rule window_reach [OF patientD(2) [OF K] reach_tick [OF reach_refl]])
  moreover have "uint (awake K p t) + 60000 < 2 ^ 64" unfolding at by (rule patientD(5) [OF K])
  moreover have "tasks_free m q" using I q(7,8) by (simp add: sleep_inv_def tasks_free_def)
  ultimately show ?thesis using I q env by (simp add: sleep_inv_def)
qed

lemma sleep_collect_weak:
  assumes "patient K" and "between p t m W A" and "sleep_inv K t m B p" and "collect K p t = Inr p'"
  shows "sleep_inv K t m B p'"
  using sleep_collect [OF assms] sleep_clock(2,3) [OF assms(1,3)] by (simp add: sleep_inv_def)

text \<open>The program is one of those the event loop is made for.\<close>

locale sleep_program =
  fixes K :: "'k kernel" and t m :: nat and secs :: "nat \<Rightarrow> u32" and B :: int
  assumes patient_law: "patient K"
    and secs_law: "naps secs"

sublocale sleep_program \<subseteq> event_program K "sleep_run K t secs" t m "sleep_inv K t m B"
proof unfold_locales
  fix p W A assume I: "sleep_inv K t m B p"
  show "\<exists>tes. reports K p t W tes" using sleep_reports [OF patient_law I] by blast
  show "clock_near (timer_of p t) (awake K p t)" by (rule sleep_clock(1) [OF patient_law I])
next
  fix p W A p' assume "between p t m W A" "sleep_inv K t m B p" "collect K p t = Inr p'"
  then show "sleep_inv K t m B p'" by (rule sleep_collect_weak [OF patient_law])
next
  show "cooperative (sleep_run K t secs) t m (sleep_inv K t m B)" by (rule sleep_cooperative [OF secs_law])
  show "framed t (sleep_inv K t m B)" by (rule sleep_framed)
qed

context sleep_program
begin

lemma program_turns:
  assumes "between p t m W A" and "sleep_inv K t m B p"
  shows "\<exists>p' W' A'. foldR (\<lambda>p _. eventloop_turn K (sleep_run K t secs) t p) p (ns :: nat list) = Inr p' \<and> between p' t m W' A' \<and>
    sleep_inv K t m B p'"
  by (rule turns_law [OF assms])

end

lemma sleep_turn:
  assumes K: "patient K" and secs: "naps secs" and b: "between p t m W A" and I: "sleep_inv K t m B p"
  obtains p1 xs p' W' A' where "collect K p t = Inr p1" "eventloop_turn K (sleep_run K t secs) t p = Inr p'"
    "foldR (process_head (sleep_run K t secs) t) p1 xs = Inr p'" "distinct xs"
    "set xs = {x \<in> pending A. deadline (store_of p t) x \<le> uint (awake K p t)}" "between p' t m W' A'"
    "sleep_inv K t m (uint (awake K p t)) p'"
    "kept_waiting t p (unserved (polls p) W xs) (\<lambda>l. filter (\<lambda>x. x \<notin> set xs) (A l)) p' W' A'"
proof -
  have "set xs = set (map (time_at (polls p)) []) \<union> X \<longleftrightarrow> set xs = X" for xs X by simp
  note turn = turn_serves [OF b sleep_reports [OF K I] sleep_clock(1) [OF K I] sleep_collect [OF K b I] sleep_cooperative [OF secs] sleep_framed, unfolded this]
  show thesis by (rule turn) (assumption, rule that)
qed

definition turns :: "'k kernel \<Rightarrow> (nat \<Rightarrow> 'k process \<Rightarrow> 'k process c_result) \<Rightarrow> nat \<Rightarrow> 'k process \<Rightarrow> nat \<Rightarrow> 'k process c_result" where
  "turns K run t p n = foldR (\<lambda>p _. eventloop_turn K run t p) p [0..<n]"

lemma turns_Suc: "eventloop_turn K run t p = Inr p' \<Longrightarrow> turns K run t p (Suc n) = turns K run t p' n"
proof -
  have *: "foldR (\<lambda>p _. eventloop_turn K run t p) p (map Suc xs) = foldR (\<lambda>p _. eventloop_turn K run t p) p xs" for p and xs :: "nat list"
    by (induction xs arbitrary: p) simp_all
  assume "eventloop_turn K run t p = Inr p'"
  then show ?thesis by (simp add: turns_def upt_conv_Cons map_Suc_upt [symmetric] * del: upt_Suc)
qed

text \<open>A clock that moves on while epoll waits, until it shows \<open>L\<close>.\<close>

definition advances :: "'k kernel \<Rightarrow> int \<Rightarrow> bool" where
  "advances K L \<longleftrightarrow> (\<forall>epfd n w. uint (clock_at K w) < L \<longrightarrow> uint (clock_at K w) < uint (clock_at K (snd (k_epoll_wait K epfd n 1 w))))"

lemma sleep_wakes_after:
  assumes K: "patient K" "advances K L" and secs: "naps secs"
  shows "between p t m W A \<Longrightarrow> sleep_inv K t m B p \<Longrightarrow> W c = Some pc \<Longrightarrow> polls p pc = Some P \<Longrightarrow>
    deadline (store_of p t) (pc_time P) = d \<Longrightarrow> d \<le> L \<Longrightarrow> nat (d - B) = k \<Longrightarrow>
    \<exists>n p1 p2 xs p'. n \<le> k \<and> (\<forall>i < n. \<exists>q. turns K (sleep_run K t secs) t p i = Inr q \<and> uint (awake K q t) < d) \<and>
      turns K (sleep_run K t secs) t p n = Inr p1 \<and> collect K p1 t = Inr p2 \<and>
      foldR (process_head (sleep_run K t secs) t) p2 xs = Inr p' \<and> eventloop_turn K (sleep_run K t secs) t p1 = Inr p' \<and>
      pc_time P \<in> set xs \<and> distinct xs \<and> d \<le> uint (awake K p1 t)"
proof (induction k arbitrary: p W A B rule: less_induct)
  case (less k)
  let ?run = "sleep_run K t secs" and ?now = "uint (awake K p t)"
  obtain p1 xs p' W' A' where s: "collect K p t = Inr p1" "eventloop_turn K ?run t p = Inr p'" "foldR (process_head ?run t) p1 xs = Inr p'" "distinct xs"
    "set xs = {x \<in> pending A. deadline (store_of p t) x \<le> ?now}" "between p' t m W' A'" "sleep_inv K t m ?now p'"
    "kept_waiting t p (unserved (polls p) W xs) (\<lambda>l. filter (\<lambda>x. x \<notin> set xs) (A l)) p' W' A'"
    by (rule sleep_turn [OF K(1) secs less.prems(1,2)])
  have tok: "thread_ok p t [m] W A" and e: "A ActiveList = []" "A TimeoutList = []" using less.prems(1) by (simp_all add: between_def turn_ok_def)
  obtain P' where "polls p pc = Some P'" "\<exists>l. pc_time P' \<in> set (A l)" by (rule thread_ok_waiting [OF tok less.prems(3)])
  with less.prems(4) e have pend: "pc_time P \<in> pending A" using linked_iff [of "pc_time P" A] by simp
  show ?case
  proof (cases "d \<le> ?now")
    case True
    then have "pc_time P \<in> set xs" using pend less.prems(5) s(5) by simp
    with s(1-4) True show ?thesis by (intro exI [of _ 0] exI [of _ p] exI [of _ p1] exI [of _ xs] exI [of _ p']) (simp add: turns_def)
  next
    case False
    then have out: "pc_time P \<notin> set xs" using less.prems(5) s(5) by simp
    then have "unserved (polls p) W xs c = Some pc" using less.prems(3,4) by (simp add: unserved_Some)
    then have W': "W' c = Some pc" "polls p' pc = Some P" using s(8) less.prems(4) unfolding kept_waiting_def by simp_all
    have "pc_time P \<in> pending (\<lambda>l. filter (\<lambda>x. x \<notin> set xs) (A l))" using pend out by (auto simp: pending_def)
    then have d: "deadline (store_of p' t) (pc_time P) = d" using s(8) less.prems(5) unfolding kept_waiting_def by simp
    have "uint (clock_at K (world p)) < L" using sleep_clock(2) [OF K(1) less.prems(2)] False less.prems(6) by simp
    then have "uint (clock_at K (world p)) < ?now" using K(2) unfolding advances_def awake_def Let_def by blast
    then have "nat (d - ?now) < k" using sleep_clock(3) [OF K(1) less.prems(2)] False less.prems(7) by simp
    from less.IH [OF this s(6,7) W' d less.prems(6) refl] obtain n q1 q2 ys q' where n: "n \<le> nat (d - ?now)" "turns K ?run t p' n = Inr q1"
      "\<forall>i < n. \<exists>q. turns K ?run t p' i = Inr q \<and> uint (awake K q t) < d" "collect K q1 t = Inr q2" "foldR (process_head ?run t) q2 ys = Inr q'" "eventloop_turn K ?run t q1 = Inr q'" "pc_time P \<in> set ys" "distinct ys"
      "d \<le> uint (awake K q1 t)" by blast
    moreover have "turns K ?run t p (Suc n) = Inr q1" using turns_Suc [OF s(2)] n(2) by simp
    moreover have "\<exists>q. turns K ?run t p i = Inr q \<and> uint (awake K q t) < d" if "i < Suc n" for i
      using that False n(3) turns_Suc [OF s(2)] by (cases i) (auto simp: turns_def [of _ _ _ _ 0])
    moreover have "Suc n \<le> k" using n(1) \<open>nat (d - ?now) < k\<close> by simp
    ultimately show ?thesis by blast
  qed
qed

section \<open>Two sleeping coroutines\<close>

text \<open>
  A thread of the program: coroutine 1 has slept until 5000 and coroutine 2 sleeps until 5005. The clock
  shows 5000 and moves on by a millisecond with each call of \<open>epoll_wait\<close>, for 0.9 seconds.
\<close>

definition nap_kernel :: "nat kernel" where
  "nap_kernel = \<lparr>k_gettimeofday = (\<lambda>n. ((5, 1000 * of_nat (min n 900)), n)), k_epoll_create = (\<lambda>_ n. (3, n)),
     k_epoll_ctl = (\<lambda>_ _ _ _ n. ((0, 0), n)), k_epoll_wait = (\<lambda>_ _ _ n. (Inr [], Suc n)),
     k_pthread_getspecific = (\<lambda>_ _ n. (NullPtr, n)), k_pthread_setspecific = (\<lambda>_ _ _ n. (0, n))\<rparr>"

definition nap_store :: timer_store where
  "nap_store = \<lparr>items = [7 \<mapsto> idle_item 5 2 5005, 10 \<mapsto> idle_item 0 1 5000],
     lists = (\<lambda>l. case l of WheelSlot i \<Rightarrow> if i < 60000 then Some empty_list else None | _ \<Rightarrow> Some empty_list)
       (WheelSlot 5 \<mapsto> \<lparr>tl_head = Some 7, tl_tail = Some 7\<rparr>, WheelSlot 0 \<mapsto> \<lparr>tl_head = Some 10, tl_tail = Some 10\<rparr>)\<rparr>"

definition nap_context :: "nat \<Rightarrow> poll_context_t" where
  "nap_context x = \<lparr>pc_fds = [], pc_nfds = 0, pc_time = x, pc_items = [], pc_items_malloc = False, pc_allEventDetatch = False, pc_raise_cnt = 0\<rparr>"

definition nap_polls :: "nat \<rightharpoonup> poll_context_t" where
  "nap_polls = [6 \<mapsto> nap_context 7, 9 \<mapsto> nap_context 10]"

definition nap_timer :: epoll_timer_t where
  "nap_timer = \<lparr>et_size = 60000, et_start = 5000, et_start_idx = 0\<rparr>"

definition nap_task :: "nat \<Rightarrow> task_t" where
  "nap_task c = zero_task\<lparr>tk_pool := 7, tk_coroutine := Some c, tk_state := TASK_RUNNING,
     tk_attr := demo_attr\<lparr>at_max_timeout_ms := -1\<rparr>\<rparr>"

definition nap_process :: "nat process" where
  "nap_process = \<lparr>gOptions = gOptions pool_process,
     gEnv = [7 \<mapsto> (the (gEnv pool_process 7))\<lparr>ev_epoll := \<lparr>ep_fd = 3, ep_size = 4, ep_now = 5000,
       ep_timer = nap_timer, ep_store = nap_store, ep_result = Some (alloc_epoll_result 4)\<rparr>\<rparr>],
     coroutines = [0 \<mapsto> the (coroutines pool_process 0), 1 \<mapsto> pool_co 4, 2 \<mapsto> pool_co 5],
     tasks = [4 \<mapsto> nap_task 1, 5 \<mapsto> nap_task 2], polls = nap_polls, heap = {FdsBlock 6, FdsBlock 9}, brk = brk pool_process, next_id = 11,
     running = running pool_process, restored = [], c_errno = (\<lambda>_. 0), world = 0\<rparr>"

lemma nap_clock: "uint (clock_at nap_kernel n) = 5000 + int (min n 900)"
proof -
  define k where "k = min n 900"
  have k: "k \<le> 900" by (simp add: k_def)
  then have "unat (1000 * of_nat k :: u64) = 1000 * k" by (simp add: unat_mult_lem [THEN iffD1] unat_word_ariths unat_of_nat)
  then have "unat ((1000 * of_nat k :: u64) div 1000) = k" by (simp add: unat_div)
  then have "unat (5 * 1000 + (1000 * of_nat k :: u64) div 1000) = 5000 + k" using k by (simp add: unat_word_ariths)
  then show ?thesis by (simp add: clock_at_def nap_kernel_def k_def [symmetric] uint_nat)
qed

lemma nap_reach: "reach nap_kernel w w' \<Longrightarrow> w' = w"
  by (induction rule: reach.induct) (simp_all add: nap_kernel_def)

lemma nap_window: "start \<le> clock_at nap_kernel w \<Longrightarrow> uint (clock_at nap_kernel w) + 10 < uint start + 60000 \<Longrightarrow> window nap_kernel start w"
  unfolding window_def kMaxTimeoutMs_def by (intro allI impI; drule nap_reach) blast

lemma nap_wait: "snd (k_epoll_wait nap_kernel e n ms w) = Suc w" "fst (k_epoll_wait nap_kernel e n ms w) = Inr []"
  by (simp_all add: nap_kernel_def)

lemma nap_patient: "patient nap_kernel"
  unfolding patient_def Let_def nap_wait
proof (intro conjI allI)
  show "window nap_kernel (clock_at nap_kernel (Suc w)) (Suc w)" for w by (rule nap_window) simp_all
  show "clock_at nap_kernel w \<le> clock_at nap_kernel (Suc w)" for w unfolding word_le_def nap_clock by simp
qed (simp_all add: nap_clock)

lemma nap_advances: "advances nap_kernel 5900"
  unfolding advances_def nap_wait nap_clock by simp

lemma nap_naps: "naps (\<lambda>c. if c = 1 then 1 else 5)"
  by (simp add: naps_def int_of_u64_def)

interpretation nap: sleep_program nap_kernel 7 0 "\<lambda>c. if c = 1 then 1 else 5" 5000
  by unfold_locales (rule nap_patient, rule nap_naps)

lemma nap_parts: "store_of nap_process 7 = nap_store" "timer_of nap_process 7 = nap_timer" "polls nap_process = nap_polls"
  "world nap_process = 0" "next_id nap_process = 11" "heap nap_process = {FdsBlock 6, FdsBlock 9}"
  by (simp_all add: store_of_def timer_of_def nap_process_def)

lemma nap_inv: "sleep_inv nap_kernel 7 0 5000 nap_process"
proof -
  have "window nap_kernel 5000 0" by (rule nap_window) (simp_all add: nap_clock word_le_def)
  moreover have "tasks_free 0 nap_process"
    by (simp add: tasks_free_def nap_process_def pool_co_def nap_task_def demo_attr_def)
  ultimately show ?thesis by (simp add: sleep_inv_def nap_parts nap_timer_def sleeping_def nap_polls_def nap_context_def)
      (simp add: nap_process_def)
qed

definition nap_waiting :: "nat \<rightharpoonup> nat" where
  "nap_waiting = [1 \<mapsto> 9, 2 \<mapsto> 6]"

lemma nap_between: "between nap_process 7 0 nap_waiting idle_lists"
proof -
  have wf: "wf_store nap_store idle_lists"
    by (auto simp: wf_store_def nap_store_def idle_lists_def dlist_def idle_item_def zero_item_def node_ok_def empty_list_def
        split: if_splits list_ref.splits)
  have inv: "wheel_inv nap_store idle_lists nap_timer"
    using wf by (auto simp: wheel_inv_def idle_lists_def has_list_def nap_store_def nap_timer_def in_slot_def
        deadline_def payload_def idle_item_def split: if_splits)
  have st: "stack_ok nap_process 7 [0]"
    by (simp add: stack_ok_def nap_process_def pool_process_def demo_process_def demo_env_def env_stack_def co_of_def saved_def
        gEnv_size_def kMaxCallStack_def zero_coroutine_def pool_co_def)
  have "{FdsBlock 6, FdsBlock 9} = live_blocks nap_polls"
    by (rule block_set_eqI) (auto simp: live_blocks_def nap_polls_def nap_context_def split: option.splits if_splits)
  then have fresh: "poll_fresh nap_process nap_store" by (simp add: poll_fresh_def nap_parts) (simp add: nap_polls_def nap_store_def)
  have ready: "ready nap_process 7 1" "ready nap_process 7 2"
    by (simp_all add: ready_def nap_process_def pool_co_def)
  have "10 \<in> set (idle_lists (WheelSlot 0))" "7 \<in> set (idle_lists (WheelSlot 5))" by (simp_all add: idle_lists_def)
  then have parked: "parked nap_polls nap_store idle_lists 1 9" "parked nap_polls nap_store idle_lists 2 6"
    unfolding parked_def by (auto simp: nap_polls_def nap_context_def poll_live_def nap_store_def idle_item_def zero_item_def)
  have W: "c = 1 \<and> pc = 9 \<or> c = 2 \<and> pc = 6" if "nap_waiting c = Some pc" for c pc
    using that by (auto simp: nap_waiting_def split: if_splits)
  have L: "x = 7 \<or> x = 10" if "x \<in> set (idle_lists l)" for x l using that by (auto simp: idle_lists_def split: if_splits)
  have "nap_waiting 2 = Some 6" "nap_waiting 1 = Some 9" "nap_polls 6 = Some (nap_context 7)" "nap_polls 9 = Some (nap_context 10)"
    "pc_time (nap_context 7) = 7" "pc_time (nap_context 10) = 10" by (simp_all add: nap_waiting_def nap_polls_def nap_context_def)
  then have owner: "\<exists>c pc P. nap_waiting c = Some pc \<and> nap_polls pc = Some P \<and> pc_time P = x" if "x \<in> set (idle_lists l)" for x l
    using L [OF that] by metis
  have "c \<notin> set [0] \<and> ready nap_process 7 c \<and> parked nap_polls nap_store idle_lists c pc" if "nap_waiting c = Some pc" for c pc
    using W [OF that] ready parked by auto
  then have "thread_ok nap_process 7 [0] nap_waiting idle_lists"
    unfolding thread_ok_def nap_parts using st inv fresh owner by blast
  moreover have "\<not> pc_allEventDetatch P" if "nap_polls pc = Some P" for pc P
    using that by (auto simp: nap_polls_def nap_context_def split: if_splits)
  moreover have "ep_result (ev_epoll (the (gEnv nap_process 7))) = Some (alloc_epoll_result 4)"
    "ep_size (ev_epoll (the (gEnv nap_process 7))) = 4" "length (er_events (alloc_epoll_result 4)) = 4"
    by (simp_all add: nap_process_def alloc_epoll_result_def)
  moreover have "idle_lists TimeoutList = []" "idle_lists ActiveList = []" by (simp_all add: idle_lists_def)
  ultimately show ?thesis unfolding between_def turn_ok_def nap_parts by auto
qed

section \<open>Properties\<close>

text \<open>
  C5. A turn of the event loop serves exactly the coroutines that are ready, for any program whose coroutines
  cooperate. The turn resumes, once each and one after the other, the coroutines that epoll reported an event
  for and those whose time has come; it ends without a fault in a well-formed thread; every other waiting
  coroutine still waits in its context, with its deadline.
\<close>

theorem turn_serves_ready:
  assumes "between p t m W A" and "reports K p t W tes" and "clock_near (timer_of p t) (awake K p t)"
    and "\<forall>p'. collect K p t = Inr p' \<longrightarrow> I p'" and "cooperative run t m I" and "framed t I"
  shows "\<exists>p1 xs p' W' A'. collect K p t = Inr p1 \<and> foldR (process_head run t) p1 xs = Inr p' \<and>
    eventloop_turn K run t p = Inr p' \<and> distinct xs \<and>
    set xs = set (map (time_at (polls p)) tes) \<union> {x \<in> pending A. deadline (store_of p t) x \<le> uint (awake K p t)} \<and>
    between p' t m W' A' \<and> kept_waiting t p (unserved (polls p) W xs) (\<lambda>l. filter (\<lambda>x. x \<notin> set xs) (A l)) p' W' A'"
  by (rule turn_serves [OF assms(1-3) assms(4) [THEN spec, THEN mp] assms(5,6)]) blast+

theorem turn_serves_ready_witness:
  "\<exists>p1 p' W' A'. collect nap_kernel nap_process 7 = Inr p1 \<and>
     foldR (process_head (sleep_run nap_kernel 7 (\<lambda>c. if c = 1 then 1 else 5)) 7) p1 [10] = Inr p' \<and>
     eventloop_turn nap_kernel (sleep_run nap_kernel 7 (\<lambda>c. if c = 1 then 1 else 5)) 7 nap_process = Inr p' \<and>
     between p' 7 0 W' A' \<and> W' 2 = Some 6"
proof -
  let ?run = "sleep_run nap_kernel 7 (\<lambda>c. if c = 1 then 1 else 5)" and ?now = "uint (awake nap_kernel nap_process 7)"
  have now: "?now = 5001" by (simp add: awake_def nap_wait nap_clock nap_parts Let_def)
  have d: "deadline (store_of nap_process 7) 7 = 5005" "deadline (store_of nap_process 7) 10 = 5000"
    by (simp_all add: nap_parts deadline_def payload_def nap_store_def idle_item_def)
  have "7 \<in> set (idle_lists (WheelSlot 5))" "10 \<in> set (idle_lists (WheelSlot 0))" by (simp_all add: idle_lists_def)
  then have "7 \<in> pending idle_lists" "10 \<in> pending idle_lists" unfolding pending_def by blast+
  moreover have "pending idle_lists \<subseteq> {7, 10}" by (auto simp: pending_def idle_lists_def split: if_splits)
  ultimately have pend: "pending idle_lists = {7, 10}" by blast
  have due: "{x \<in> pending idle_lists. deadline (store_of nap_process 7) x \<le> ?now} = {10}" unfolding pend now using d by auto
  have col: "\<forall>p'. collect nap_kernel nap_process 7 = Inr p' \<longrightarrow> sleep_inv nap_kernel 7 0 ?now p'"
    by (intro allI impI) (rule sleep_collect [OF nap_patient nap_between nap_inv])
  have "set (map (time_at (polls nap_process)) []) \<union> {10} = {10}" by simp
  with turn_serves_ready [OF nap_between sleep_reports [OF nap_patient nap_inv] sleep_clock(1) [OF nap_patient nap_inv]
      col sleep_cooperative [OF nap_naps] sleep_framed, unfolded due]
  obtain p1 xs p' W' A' where *: "collect nap_kernel nap_process 7 = Inr p1" "foldR (process_head ?run 7) p1 xs = Inr p'"
    "eventloop_turn nap_kernel ?run 7 nap_process = Inr p'" "distinct xs" "set xs = {10}" "between p' 7 0 W' A'"
    "kept_waiting 7 nap_process (unserved (polls nap_process) nap_waiting xs) (\<lambda>l. filter (\<lambda>x. x \<notin> set xs) (idle_lists l)) p' W' A'"
    by (elim exE conjE) simp
  have "xs = [10]" using *(4,5) by (cases xs; cases "tl xs") auto
  moreover have "unserved (polls nap_process) nap_waiting xs 2 = Some 6"
    using *(5) by (simp add: unserved_Some nap_waiting_def nap_parts nap_polls_def nap_context_def)
  then have "W' 2 = Some 6" using *(7) unfolding kept_waiting_def by blast
  ultimately show ?thesis using *(1-3,6) by blast
qed



text \<open>
  C7. No sleeping coroutine is forgotten. If the clock moves on while epoll waits, every waiting coroutine of the
  example is resumed, in the first turn whose clock has reached its deadline (in every earlier turn the clock
  shows less), and that turn comes after no more turns than there are milliseconds from \<open>B\<close>, a time the
  wheel's start has reached, to the deadline.
\<close>

theorem sleep_wakes:
  assumes "patient K" and "advances K L" and "naps secs" and "between p t m W A" and "sleep_inv K t m B p"
    and "W c = Some pc" and "polls p pc = Some P" and "deadline (store_of p t) (pc_time P) \<le> L"
  shows "\<exists>n p1 p2 xs p'. n \<le> nat (deadline (store_of p t) (pc_time P) - B) \<and>
      (\<forall>i < n. \<exists>q. turns K (sleep_run K t secs) t p i = Inr q \<and> uint (awake K q t) < deadline (store_of p t) (pc_time P)) \<and>
      turns K (sleep_run K t secs) t p n = Inr p1 \<and> collect K p1 t = Inr p2 \<and> foldR (process_head (sleep_run K t secs) t) p2 xs = Inr p' \<and>
      eventloop_turn K (sleep_run K t secs) t p1 = Inr p' \<and> pc_time P \<in> set xs \<and> distinct xs \<and>
      deadline (store_of p t) (pc_time P) \<le> uint (awake K p1 t)"
  by (rule sleep_wakes_after [OF assms(1-7) refl assms(8) refl])

theorem sleep_wakes_witness:
  "\<exists>n p1 p'. n \<le> 5 \<and> turns nap_kernel (sleep_run nap_kernel 7 (\<lambda>c. if c = 1 then 1 else 5)) 7 nap_process n = Inr p1 \<and>
     eventloop_turn nap_kernel (sleep_run nap_kernel 7 (\<lambda>c. if c = 1 then 1 else 5)) 7 p1 = Inr p' \<and> 5005 \<le> uint (awake nap_kernel p1 7)"
proof -
  have w: "nap_waiting 2 = Some 6" and P: "polls nap_process 6 = Some (nap_context 7)" by (simp_all add: nap_waiting_def nap_parts nap_polls_def)
  have d: "deadline (store_of nap_process 7) (pc_time (nap_context 7)) = 5005"
    by (simp add: nap_parts deadline_def payload_def nap_store_def idle_item_def nap_context_def)
  have "deadline (store_of nap_process 7) (pc_time (nap_context 7)) \<le> 5900" unfolding d by simp
  from sleep_wakes [OF nap_patient nap_advances nap_naps nap_between nap_inv w P this, unfolded d] show ?thesis by auto
qed

end
