(* ===== verification/Echo_Example.thy ===== *)
theory Echo_Example
  imports Hook_IO
begin

text \<open>
  The coroutine of a connection in \<^verbatim>\<open>src/example/echoserver.c\<close>: it sends back what it receives, until
  the connection ends. The example terminates the data with a null character before it prints them.
\<close>

text \<open>The loop of \<open>echo\<close>; \<open>buf\<close> is the local array of 1024 bytes.\<close>

partial_function (option) echo ::
  "'k libc \<Rightarrow> 'k kernel \<Rightarrow> 'k sched \<Rightarrow> nat \<Rightarrow> int \<Rightarrow> bytes \<Rightarrow> 'k hooks \<Rightarrow> 'k hooks c_result option" where
  "echo L K sched t fd buf h =
     (case recv_hook L K sched h t fd 1024 0 of
        Inl e \<Rightarrow> Some (Inl e)
      | Inr (n, data, h) \<Rightarrow>
          if n \<le> 0 then Some (bindR (close_hook L h t fd) (\<lambda>(_, h). Inr h))
          else
            (case array_set (data @ drop (length data) buf) n 0 of
               Inl e \<Rightarrow> Some (Inl e)
             | Inr buf \<Rightarrow>
                 (case send_hook L K sched h t fd (take (nat n) buf) 0 of
                    Inl e \<Rightarrow> Some (Inl e)
                  | Inr (n, h) \<Rightarrow>
                      if n \<le> 0 then Some (bindR (close_hook L h t fd) (\<lambda>(_, h). Inr h))
                      else echo L K sched t fd buf h)))"

text \<open>A block that fills the array leaves no room for the null character: it is written behind the end.\<close>

lemma echo_overflows:
  assumes "recv_hook L K sched h t fd 1024 0 = Inr (1024, data, h')" and "length data = 1024" and "length buf = 1024"
  shows "echo L K sched t fd buf h = Some (Inl OutOfBounds)"
  using assms by (subst echo.simps) (simp add: array_set_def)

text \<open>With any shorter block, what is given to \<open>send\<close> is what was received.\<close>

lemma echo_round:
  assumes "recv_hook L K sched h t fd 1024 0 = Inr (n, data, h1)" and "0 < n" "n < 1024" "length data = nat n" and "length buf = 1024"
    and "send_hook L K sched h1 t fd data 0 = Inr (m, h2)" and "0 < m"
  shows "echo L K sched t fd buf h = echo L K sched t fd (data @ 0 # drop (Suc (nat n)) buf) h2"
proof -
  have "(data @ drop (length data) buf)[nat n := 0] = data @ 0 # drop (Suc (nat n)) buf"
    using assms(2-5) by (simp add: list_update_append Cons_nth_drop_Suc [symmetric])
  then show ?thesis using assms by (subst echo.simps) (simp add: array_set_def)
qed

end
