(* ===== verification/Id_Map.thy ===== *)
theory Id_Map
  imports Process
begin

unbundle bit_operations_syntax

text \<open>
  The identifiers of the older C++ library (\<^verbatim>\<open>src/oldsrc/idmap.cc\<close> and
  \<^verbatim>\<open>idmap.h\<close>): a bitmap from which \<open>Allocate\<close> takes the next free number and to which
  \<open>Free\<close> gives it back. The word of a bit is found by shifting its number by
  \<open>sizeof(unsigned long) + 1\<close>, which is 9 and not 6, so eight numbers share each bit; the theory shows
  what is still true of the allocator.
\<close>

section \<open>Operations\<close>

text \<open>The page has 32768 bytes, which the functions access as 4096 words of 64 bits.\<close>

definition ID_MAX_DEFAULT :: int where "ID_MAX_DEFAULT = 32768"
definition BITS_PER_PAGE :: nat where "BITS_PER_PAGE = 32768"
definition BITS_PER_PAGE_MASK :: int where "BITS_PER_PAGE_MASK = 32767"

record id_map =
  nr_free :: int
  last_id :: int
  id_page :: "u64 list"

definition IdMap_new :: id_map where
  "IdMap_new = \<lparr>nr_free = ID_MAX_DEFAULT, last_id = -1, id_page = replicate 4096 0\<rparr>"

definition bit_mask :: "nat \<Rightarrow> u64" where
  "bit_mask offset = push_bit (offset AND 63) 1"

definition bit_word :: "nat \<Rightarrow> int" where
  "bit_word offset = int (drop_bit 9 offset)"

definition test_and_set_bit :: "nat \<Rightarrow> u64 list \<Rightarrow> (bool \<times> u64 list) c_result" where
  "test_and_set_bit offset addr =
     bindR (array_get addr (bit_word offset)) (\<lambda>old.
     bindR (array_set addr (bit_word offset) (old OR bit_mask offset)) (\<lambda>addr.
     Inr (old AND bit_mask offset \<noteq> 0, addr)))"

definition clear_bit :: "nat \<Rightarrow> u64 list \<Rightarrow> u64 list c_result" where
  "clear_bit offset addr =
     bindR (array_get addr (bit_word offset)) (\<lambda>old.
     array_set addr (bit_word offset) (old AND NOT (bit_mask offset)))"

function find_next_zero_bit :: "u64 list \<Rightarrow> nat \<Rightarrow> nat \<Rightarrow> nat c_result" where
  "find_next_zero_bit addr sz offset =
     (if offset < sz then
        bindR (array_get addr (bit_word offset)) (\<lambda>p.
        if NOT p AND bit_mask offset \<noteq> 0 then Inr offset else find_next_zero_bit addr sz (Suc offset))
      else Inr offset)"
  by pat_completeness auto
termination by (relation "measure (\<lambda>(addr, sz, offset). sz - offset)") auto

declare find_next_zero_bit.simps [simp del]

definition Allocate :: "id_map \<Rightarrow> (int \<times> id_map) c_result" where
  "Allocate m =
     (let id = last_id m + 1;
          offset = nat (id AND BITS_PER_PAGE_MASK) in
      if nr_free m = 0 then Inr (-1, m)
      else
        bindR (find_next_zero_bit (id_page m) BITS_PER_PAGE offset) (\<lambda>offset.
        if BITS_PER_PAGE \<noteq> offset then
          bindR (test_and_set_bit offset (id_page m)) (\<lambda>(old, page).
          if \<not> old then Inr (int offset, m\<lparr>nr_free := nr_free m - 1, last_id := int offset, id_page := page\<rparr>)
          else Inr (-1, m\<lparr>id_page := page\<rparr>))
        else Inr (-1, m)))"

definition Free :: "id_map \<Rightarrow> int \<Rightarrow> id_map c_result" where
  "Free m i =
     (let offset = nat (i AND BITS_PER_PAGE_MASK) in
      bindR (clear_bit offset (id_page m)) (\<lambda>page. Inr (m\<lparr>nr_free := nr_free m + 1, id_page := page\<rparr>)))"

section \<open>The bit of a number\<close>

definition slot :: "nat \<Rightarrow> nat \<times> nat" where
  "slot offset = (offset div 512, offset mod 64)"

definition set_slots :: "u64 list \<Rightarrow> (nat \<times> nat) set" where
  "set_slots page = {(i, b). i < length page \<and> bit (page ! i) b}"

lemma and_63 [simp]: "(n :: nat) AND 63 = n mod 64"
  using take_bit_eq_mask [of 6 n] by (simp add: take_bit_eq_mod mask_eq_exp_minus_1)

lemma and_page [simp]: "i AND BITS_PER_PAGE_MASK = i mod 32768"
  using take_bit_eq_mask [of 15 i] by (simp add: BITS_PER_PAGE_MASK_def take_bit_eq_mod mask_eq_exp_minus_1)

lemma bit_bit_mask: "bit (bit_mask n) b \<longleftrightarrow> b = n mod 64"
proof -
  have "n mod 64 < 64" by simp
  then show ?thesis unfolding bit_mask_def by (auto simp: bit_exp_iff possible_bit_def)
qed

lemma bit_u64: "bit (w :: u64) b \<Longrightarrow> b < 64"
  using bit_imp_le_length [of w b] by simp

lemma bit_word_div: "bit_word n = int (n div 512)"
  by (simp add: bit_word_def drop_bit_eq_div)

lemma and_bit_mask: "w AND bit_mask n \<noteq> 0 \<longleftrightarrow> bit w (n mod 64)"
proof
  assume "w AND bit_mask n \<noteq> 0"
  then obtain b where "bit (w AND bit_mask n) b" by (metis bit_eqI bit_0_eq bot_apply bot_bool_def)
  then show "bit w (n mod 64)" by (auto simp: bit_and_iff bit_bit_mask)
next
  assume "bit w (n mod 64)"
  then have "bit (w AND bit_mask n) (n mod 64)" by (simp add: bit_and_iff bit_bit_mask)
  then show "w AND bit_mask n \<noteq> 0" by auto
qed

lemma not_and_bit_mask: "NOT w AND bit_mask n \<noteq> 0 \<longleftrightarrow> \<not> bit w (n mod 64)"
  unfolding and_bit_mask by (simp add: bit_not_iff)

lemma set_slots_test:
  assumes "offset < 32768" and "length page = 4096"
  obtains page' where "test_and_set_bit offset page = Inr (slot offset \<in> set_slots page, page')" "length page' = 4096"
    "set_slots page' = insert (slot offset) (set_slots page)"
proof -
  let ?i = "offset div 512" and ?b = "offset mod 64"
  let ?page = "page[?i := page ! ?i OR bit_mask offset]"
  have i: "?i < 4096" using assms(1) by simp
  then have "test_and_set_bit offset page = Inr (slot offset \<in> set_slots page, ?page)"
    using assms(2) and_bit_mask by (simp add: test_and_set_bit_def bit_word_div slot_def set_slots_def)
  moreover have "set_slots ?page = insert (slot offset) (set_slots page)"
    using i assms(2) by (auto simp: set_slots_def slot_def nth_list_update bit_or_iff bit_bit_mask split: if_splits)
  ultimately show thesis using that assms(2) by simp
qed

lemma set_slots_clear:
  assumes "offset < 32768" and "length page = 4096"
  obtains page' where "clear_bit offset page = Inr page'" "length page' = 4096" "set_slots page' = set_slots page - {slot offset}"
proof -
  let ?i = "offset div 512" and ?b = "offset mod 64"
  let ?page = "page[?i := page ! ?i AND NOT (bit_mask offset)]"
  have i: "?i < 4096" using assms(1) by simp
  then have "clear_bit offset page = Inr ?page" using assms(2) by (simp add: clear_bit_def bit_word_div)
  moreover have "set_slots ?page = set_slots page - {slot offset}"
    using i assms(2) by (auto simp: set_slots_def slot_def nth_list_update bit_and_iff bit_not_iff bit_bit_mask dest: bit_u64 split: if_splits)
  ultimately show thesis using that assms(2) by simp
qed

lemma find_next_zero:
  assumes "length page = 4096" and "n \<le> 32768"
  shows "\<exists>k. find_next_zero_bit page 32768 n = Inr k \<and> n \<le> k \<and> k \<le> 32768 \<and> (\<forall>j. n \<le> j \<and> j < k \<longrightarrow> slot j \<in> set_slots page) \<and>
    (k < 32768 \<longrightarrow> slot k \<notin> set_slots page)"
  using assms(2)
proof (induction "32768 - n" arbitrary: n)
  case 0
  then show ?case by (subst find_next_zero_bit.simps) auto
next
  case (Suc x)
  then have n: "n < 32768" by simp
  then have i: "n div 512 < 4096" by simp
  show ?case
  proof (cases "slot n \<in> set_slots page")
    case False
    then have "\<not> bit (page ! (n div 512)) (n mod 64)" using i assms(1) by (simp add: slot_def set_slots_def)
    then have "find_next_zero_bit page 32768 n = Inr n"
      using n i assms(1) not_and_bit_mask by (subst find_next_zero_bit.simps) (simp add: bit_word_div)
    with False n show ?thesis by (intro exI [of _ n]) auto
  next
    case True
    then have "bit (page ! (n div 512)) (n mod 64)" using i assms(1) by (simp add: slot_def set_slots_def)
    then have "find_next_zero_bit page 32768 n = find_next_zero_bit page 32768 (Suc n)"
      using n i assms(1) not_and_bit_mask by (subst find_next_zero_bit.simps) (simp add: bit_word_div)
    moreover have "x = 32768 - Suc n" "Suc n \<le> 32768" using Suc.hyps(2) n by simp_all
    ultimately obtain k where k: "find_next_zero_bit page 32768 n = Inr k" "Suc n \<le> k" "k \<le> 32768"
      "\<forall>j. Suc n \<le> j \<and> j < k \<longrightarrow> slot j \<in> set_slots page" "k < 32768 \<longrightarrow> slot k \<notin> set_slots page"
      using Suc.hyps(1) by metis
    moreover have "\<forall>j. n \<le> j \<and> j < k \<longrightarrow> slot j \<in> set_slots page"
    proof (intro allI impI)
      fix j assume "n \<le> j \<and> j < k"
      then show "slot j \<in> set_slots page" using k(4) True by (cases "j = n") auto
    qed
    ultimately show ?thesis by (intro exI [of _ k]) simp
  qed
qed

section \<open>The allocator\<close>

text \<open>
  \<open>S\<close> is the set of numbers that are in use. Their bits are the ones that are set, and no two of them
  share a bit.
\<close>

definition ids_ok :: "id_map \<Rightarrow> nat set \<Rightarrow> bool" where
  "ids_ok m S \<longleftrightarrow> length (id_page m) = 4096 \<and> S \<subseteq> {..<32768} \<and> inj_on slot S \<and> set_slots (id_page m) = slot ` S \<and>
     nr_free m = 32768 - int (card S) \<and> -1 \<le> last_id m \<and> last_id m < 32768"

definition next_id_from :: "id_map \<Rightarrow> nat" where
  "next_id_from m = nat ((last_id m + 1) mod 32768)"

lemma ids_capacity:
  assumes "ids_ok m S"
  shows "finite S" "card S \<le> 4096"
proof -
  have S: "S \<subseteq> {..<32768}" "inj_on slot S" using assms by (simp_all add: ids_ok_def)
  then show "finite S" using finite_subset by blast
  have "slot ` S \<subseteq> {..<64} \<times> {..<64}" using S(1) by (auto simp: slot_def)
  then have "card (slot ` S) \<le> card ({..<64} \<times> {..<64} :: (nat \<times> nat) set)" by (intro card_mono) simp_all
  then show "card S \<le> 4096" using card_image [OF S(2)] by simp
qed

lemma Allocate_run:
  assumes ok: "ids_ok m S"
  obtains "Allocate m = Inr (-1, m)" "\<And>n. next_id_from m \<le> n \<Longrightarrow> n < 32768 \<Longrightarrow> slot n \<in> slot ` S"
  | k m' where "Allocate m = Inr (int k, m')" "ids_ok m' (insert k S)" "next_id_from m \<le> k" "k < 32768" "slot k \<notin> slot ` S"
      "last_id m' = int k" "\<And>n. next_id_from m \<le> n \<Longrightarrow> n < k \<Longrightarrow> slot n \<in> slot ` S"
proof -
  let ?n = "next_id_from m"
  have m: "length (id_page m) = 4096" "set_slots (id_page m) = slot ` S" "nr_free m = 32768 - int (card S)" "S \<subseteq> {..<32768}" "inj_on slot S"
    using ok by (simp_all add: ids_ok_def)
  have n: "nat ((last_id m + 1) AND BITS_PER_PAGE_MASK) = ?n" "?n < 32768" by (simp_all add: next_id_from_def nat_less_iff)
  have free: "nr_free m \<noteq> 0" using m(3) ids_capacity(2) [OF ok] by simp
  obtain k where k: "find_next_zero_bit (id_page m) 32768 ?n = Inr k" "?n \<le> k" "k \<le> 32768" "\<forall>j. ?n \<le> j \<and> j < k \<longrightarrow> slot j \<in> slot ` S"
    "k < 32768 \<longrightarrow> slot k \<notin> slot ` S" using find_next_zero [OF m(1), of ?n] n(2) m(2) by auto
  show thesis
  proof (cases "k = 32768")
    case True
    then have "Allocate m = Inr (-1, m)" using k(1) free n(1) by (simp add: Allocate_def BITS_PER_PAGE_def Let_def)
    then show thesis using that(1) k(4) True by blast
  next
    case False
    then have kb: "k < 32768" "slot k \<notin> slot ` S" using k(3,5) by simp_all
    obtain page' where t: "test_and_set_bit k (id_page m) = Inr (False, page')" "length page' = 4096" "set_slots page' = insert (slot k) (slot ` S)"
      by (rule set_slots_test [OF kb(1) m(1)]) (use kb(2) m(2) in simp)
    let ?m = "m\<lparr>nr_free := nr_free m - 1, last_id := int k, id_page := page'\<rparr>"
    have "Allocate m = Inr (int k, ?m)" using k(1) t(1) free n(1) False by (simp add: Allocate_def BITS_PER_PAGE_def Let_def)
    moreover have "k \<notin> S" using kb(2) by blast
    then have "ids_ok ?m (insert k S)" using m t kb ids_capacity(1) [OF ok] by (simp add: ids_ok_def)
    ultimately show thesis using that(2) [of k ?m] k(2,4) kb by simp
  qed
qed

lemma Free_run:
  assumes ok: "ids_ok m S" and k: "k \<in> S"
  obtains m' where "Free m (int k) = Inr m'" "ids_ok m' (S - {k})"
proof -
  have m: "length (id_page m) = 4096" "set_slots (id_page m) = slot ` S" "nr_free m = 32768 - int (card S)" "S \<subseteq> {..<32768}" "inj_on slot S"
    using ok by (simp_all add: ids_ok_def)
  have kb: "k < 32768" using k m(4) by blast
  obtain page' where t: "clear_bit k (id_page m) = Inr page'" "length page' = 4096" "set_slots page' = set_slots (id_page m) - {slot k}"
    by (rule set_slots_clear [OF kb m(1)])
  have "int k mod 32768 = int k" using kb by simp
  then have "Free m (int k) = Inr (m\<lparr>nr_free := nr_free m + 1, id_page := page'\<rparr>)" using t(1) by (simp add: Free_def)
  moreover have "slot ` S - {slot k} = slot ` (S - {k})" using m(5) k by (auto simp: inj_on_def)
  moreover have "card (S - {k}) = card S - 1" "0 < card S" using k ids_capacity(1) [OF ok] by (auto simp: card_gt_0_iff)
  ultimately show thesis using that m t ok k by (auto simp: ids_ok_def inj_on_def)
qed

lemma IdMap_new_ok: "ids_ok IdMap_new {}"
  by (simp add: ids_ok_def IdMap_new_def ID_MAX_DEFAULT_def set_slots_def)

section \<open>What clients rely on\<close>

text \<open>
  An allocator of numbers: what is allocated is not in use, what is in use can be released, and the set of
  numbers in use is what the client thinks it is.
\<close>

locale id_allocator =
  fixes ok :: "'s \<Rightarrow> nat set \<Rightarrow> bool" and new :: 's and alloc :: "'s \<Rightarrow> (int \<times> 's) c_result" and release :: "'s \<Rightarrow> int \<Rightarrow> 's c_result"
  assumes new_law: "ok new {}"
    and alloc_law: "ok m S \<Longrightarrow> \<exists>i m'. alloc m = Inr (i, m') \<and> (i = -1 \<and> m' = m \<or> 0 \<le> i \<and> nat i \<notin> S \<and> ok m' (insert (nat i) S))"
    and release_law: "ok m S \<Longrightarrow> k \<in> S \<Longrightarrow> \<exists>m'. release m (int k) = Inr m' \<and> ok m' (S - {k})"
begin

lemma allocated:
  assumes "ok m S" and "alloc m = Inr (i, m')"
  shows "if i < 0 then m' = m \<and> i = -1 else nat i \<notin> S \<and> ok m' (insert (nat i) S)"
  using alloc_law [OF assms(1)] assms(2) by auto

lemma released:
  assumes "ok m S" and "k \<in> S" and "release m (int k) = Inr m'"
  shows "ok m' (S - {k})"
  using release_law [OF assms(1,2)] assms(3) by auto

lemma given_back:
  assumes "ok m S" and "alloc m = Inr (i, m1)" and "0 \<le> i"
  shows "\<exists>m2. release m1 i = Inr m2 \<and> ok m2 S"
proof -
  have i: "nat i \<notin> S" "ok m1 (insert (nat i) S)" using allocated [OF assms(1,2)] assms(3) by simp_all
  from release_law [OF i(2), of "nat i"] i(1) assms(3) show ?thesis by (simp add: insert_Diff_if)
qed

end

interpretation idm: id_allocator ids_ok IdMap_new Allocate Free
proof unfold_locales
  show "ids_ok IdMap_new {}" by (rule IdMap_new_ok)
next
  fix m S assume ok: "ids_ok m S"
  show "\<exists>i m'. Allocate m = Inr (i, m') \<and> (i = -1 \<and> m' = m \<or> 0 \<le> i \<and> nat i \<notin> S \<and> ids_ok m' (insert (nat i) S))"
  proof (rule Allocate_run [OF ok])
    fix k m' assume k: "Allocate m = Inr (int k, m')" "ids_ok m' (insert k S)" "slot k \<notin> slot ` S"
    then have "k \<notin> S" by blast
    with k show ?thesis by (intro exI [of _ "int k"] exI [of _ m']) simp
  qed blast
next
  fix m S k assume "ids_ok m S" "k \<in> S"
  then show "\<exists>m'. Free m (int k) = Inr m' \<and> ids_ok m' (S - {k})" by (rule Free_run) blast
qed

text \<open>Every order of allocations and releases in which only numbers in use are released.\<close>

inductive ids_reached :: "id_map \<Rightarrow> nat set \<Rightarrow> bool" where
  ids_new: "ids_reached IdMap_new {}"
| ids_allocate: "ids_reached m S \<Longrightarrow> Allocate m = Inr (i, m') \<Longrightarrow> ids_reached m' (if i < 0 then S else insert (nat i) S)"
| ids_free: "ids_reached m S \<Longrightarrow> k \<in> S \<Longrightarrow> Free m (int k) = Inr m' \<Longrightarrow> ids_reached m' (S - {k})"

lemma ids_reached_ok: "ids_reached m S \<Longrightarrow> ids_ok m S"
proof (induction rule: ids_reached.induct)
  case (ids_allocate m S i m')
  then show ?case using idm.allocated [OF ids_allocate.IH ids_allocate.hyps(2)] by (auto split: if_splits)
qed (blast intro: IdMap_new_ok idm.released)+

section \<open>Numbers in a row\<close>

text \<open>The number that the \<open>n\<close>-th allocation gives when none has been released.\<close>

definition nth_id :: "nat \<Rightarrow> nat" where
  "nth_id n = 512 * (n div 64) + n mod 64"

lemma slot_nth_id: "slot (nth_id n) = (n div 64, n mod 64)"
proof -
  have "n mod 64 < 512" by (rule less_trans [of _ 64]) simp_all
  then have "(512 * (n div 64) + n mod 64) div 512 = n div 64" by simp
  moreover have "512 * (n div 64) + n mod 64 = n mod 64 + 64 * (8 * (n div 64))" by simp
  then have "(512 * (n div 64) + n mod 64) mod 64 = n mod 64" by (simp only: mod_mult_self2 mod_mod_trivial)
  ultimately show ?thesis by (simp add: slot_def nth_id_def)
qed

lemma slots_in_row: "slot j \<in> slot ` nth_id ` {..<n} \<longleftrightarrow> 64 * (j div 512) + j mod 64 < n"
proof -
  have "slot j = (i div 64, i mod 64) \<longleftrightarrow> i = 64 * (j div 512) + j mod 64" for i
  proof
    assume "slot j = (i div 64, i mod 64)"
    then have "i div 64 = j div 512" "i mod 64 = j mod 64" by (simp_all add: slot_def)
    then show "i = 64 * (j div 512) + j mod 64" using mult_div_mod_eq [of 64 i] by simp
  next
    assume "i = 64 * (j div 512) + j mod 64"
    then show "slot j = (i div 64, i mod 64)" by (simp add: slot_def)
  qed
  then show ?thesis unfolding image_image slot_nth_id by (simp add: image_iff Bex_def)
qed

lemma nth_id_code: "64 * (nth_id n div 512) + nth_id n mod 64 = n"
  using slot_nth_id [of n] unfolding slot_def prod.inject by simp

lemma nth_id_bound: "n < 4096 \<Longrightarrow> nth_id n < 32320"
proof -
  assume "n < 4096"
  then have "n div 64 \<le> 63" "n mod 64 < 64" by simp_all
  then show ?thesis unfolding nth_id_def by linarith
qed

text \<open>Between two numbers of the row every bit is taken.\<close>

lemma nth_id_gap:
  assumes "0 < n" and "nth_id (n - 1) < j" and "j < nth_id n"
  shows "64 * (j div 512) + j mod 64 < n"
proof -
  define q r where "q = (n - 1) div 64" and "r = (n - 1) mod 64"
  have n: "n = 64 * q + r + 1" and r: "r < 64" using assms(1) mult_div_mod_eq [of 64 "n - 1"] by (simp_all add: q_def r_def)
  have prev: "nth_id (n - 1) = 512 * q + r" by (simp add: nth_id_def q_def r_def)
  show ?thesis
  proof (cases "r = 63")
    case True
    then have "nth_id n = 512 * (q + 1)" using n by (simp add: nth_id_def)
    then have "512 * q \<le> j" "j < 512 * (q + 1)" using assms(2,3) prev by simp_all
    then have "j div 512 = q" by (intro div_nat_eqI) simp_all
    moreover have "j mod 64 < 64" by simp
    ultimately show ?thesis using n True by linarith
  next
    case False
    then have "n div 64 = q" "n mod 64 = r + 1" using n r by simp_all
    then have "nth_id n = 512 * q + r + 1" by (simp add: nth_id_def)
    then show ?thesis using assms(2,3) prev by simp
  qed
qed

definition in_row :: "id_map \<Rightarrow> nat \<Rightarrow> bool" where
  "in_row m n \<longleftrightarrow> ids_ok m (nth_id ` {..<n}) \<and> last_id m = (if n = 0 then -1 else int (nth_id (n - 1)))"

lemma in_row_next:
  assumes row: "in_row m n" and n: "n < 4096"
  obtains m' where "Allocate m = Inr (int (nth_id n), m')" "in_row m' (Suc n)"
proof -
  have ok: "ids_ok m (nth_id ` {..<n})" using row by (simp add: in_row_def)
  have b: "nth_id n < 32768" using nth_id_bound [OF n] by simp
  have from0: "next_id_from m = (if n = 0 then 0 else Suc (nth_id (n - 1)))"
  proof (cases "n = 0")
    case False
    then have "nth_id (n - 1) < 32320" "last_id m = int (nth_id (n - 1))" using nth_id_bound [of "n - 1"] n row by (simp_all add: in_row_def)
    then show ?thesis using False by (simp add: next_id_from_def nat_add_distrib)
  qed (use row in \<open>simp add: in_row_def next_id_from_def\<close>)
  have mono: "next_id_from m \<le> nth_id n"
  proof (cases "n = 0")
    case False
    have "nth_id (n - 1) < nth_id n"
    proof (rule ccontr)
      assume "\<not> nth_id (n - 1) < nth_id n"
      then have le: "nth_id n \<le> nth_id (n - 1)" by simp
      have "n div 64 = (n - 1) div 64 \<and> n mod 64 = (n - 1) mod 64 + 1 \<or> n div 64 = (n - 1) div 64 + 1 \<and> n mod 64 = 0"
        using False by (cases n) (auto simp: div_Suc mod_Suc)
      then show False using le mod_less_divisor [of 64 "n - 1"] unfolding nth_id_def by linarith
    qed
    then show ?thesis using from0 by simp
  qed (simp add: from0)
  have gap: "slot j \<in> slot ` nth_id ` {..<n}" if "next_id_from m \<le> j" "j < nth_id n" for j
    unfolding slots_in_row using that from0 nth_id_gap [of n j] by (cases "n = 0") (simp_all add: nth_id_def)
  have "free": "slot (nth_id n) \<notin> slot ` nth_id ` {..<n}" unfolding slots_in_row nth_id_code by simp
  show thesis
  proof (rule Allocate_run [OF ok])
    assume "\<And>j. next_id_from m \<le> j \<Longrightarrow> j < 32768 \<Longrightarrow> slot j \<in> slot ` nth_id ` {..<n}"
    then show thesis using "free" mono b by blast
  next
    fix k m' assume k: "Allocate m = Inr (int k, m')" "ids_ok m' (insert k (nth_id ` {..<n}))" "next_id_from m \<le> k" "k < 32768"
      "slot k \<notin> slot ` nth_id ` {..<n}" "last_id m' = int k" "\<And>j. next_id_from m \<le> j \<Longrightarrow> j < k \<Longrightarrow> slot j \<in> slot ` nth_id ` {..<n}"
    have "\<not> nth_id n < k" using k(7) [OF mono] "free" by blast
    moreover have "\<not> k < nth_id n" using gap [OF k(3)] k(5) by blast
    ultimately have "k = nth_id n" by simp
    with k show thesis using that by (simp add: in_row_def lessThan_Suc)
  qed
qed

section \<open>Properties\<close>

text \<open>
  C38. The allocator never gives out a number that is in use, and never leaves its page, whatever the order of
  allocations and releases. But it runs out long before the 32768 numbers it is made for: since eight numbers
  share a bit, at most 4096 can be in use, and when that many are, \<open>Allocate\<close> fails although its counter
  says that 28672 are free.
\<close>

theorem id_map_unique:
  assumes "ids_reached m S"
  shows "\<exists>i m'. Allocate m = Inr (i, m') \<and> (i = -1 \<and> m' = m \<or> 0 \<le> i \<and> i < 32768 \<and> nat i \<notin> S) \<and>
    (\<forall>k \<in> S. \<exists>m'. Free m (int k) = Inr m') \<and> finite S \<and> card S \<le> 4096 \<and> nr_free m = 32768 - int (card S) \<and>
    (card S = 4096 \<longrightarrow> Allocate m = Inr (-1, m) \<and> nr_free m = 28672)"
proof -
  have ok: "ids_ok m S" by (rule ids_reached_ok [OF assms])
  note cap = ids_capacity [OF ok]
  have free: "nr_free m = 32768 - int (card S)" using ok by (simp add: ids_ok_def)
  have F: "\<exists>m'. Free m (int k) = Inr m'" if "k \<in> S" for k by (rule Free_run [OF ok that]) blast
  show ?thesis
  proof (rule Allocate_run [OF ok])
    assume "Allocate m = Inr (-1, m)"
    then show ?thesis using cap free F by auto
  next
    fix k m' assume k: "Allocate m = Inr (int k, m')" "ids_ok m' (insert k S)" "k < 32768" "slot k \<notin> slot ` S"
    then have "k \<notin> S" by blast
    moreover from this have "card S < 4096" using ids_capacity(2) [OF k(2)] cap(1) by simp
    ultimately show ?thesis using k(1,3) cap free F by (intro exI [of _ "int k"] exI [of _ m']) simp
  qed
qed

lemma in_row_new: "in_row IdMap_new 0"
  using IdMap_new_ok by (simp add: in_row_def IdMap_new_def)

lemma in_row_reached: "n \<le> 4096 \<Longrightarrow> \<exists>m. in_row m n \<and> ids_reached m (nth_id ` {..<n})"
proof (induction n)
  case 0
  then show ?case using in_row_new ids_new by auto
next
  case (Suc n)
  then obtain m where m: "in_row m n" "ids_reached m (nth_id ` {..<n})" by auto
  obtain m' where "Allocate m = Inr (int (nth_id n), m')" "in_row m' (Suc n)" by (rule in_row_next [OF m(1)]) (use Suc.prems in auto)
  with ids_allocate [OF m(2) this(1)] show ?case by (auto simp: lessThan_Suc)
qed

theorem id_map_unique_witness:
  "\<exists>m S. ids_reached m S \<and> card S = 4096 \<and> Allocate m = Inr (-1, m) \<and> nr_free m = 28672"
proof -
  obtain m where m: "in_row m 4096" "ids_reached m (nth_id ` {..<4096})" using in_row_reached [of 4096] by auto
  have "inj nth_id" using nth_id_code by (metis injI)
  then have "card (nth_id ` {..<4096}) = 4096" by (simp add: card_image inj_on_subset)
  with id_map_unique [OF m(2)] m(2) show ?thesis by blast
qed

end
