(* ===== verification/Old_Scheduler.thy ===== *)
theory Old_Scheduler
  imports Id_Map Hooks
begin

unbundle bit_operations_syntax

text \<open>
  The scheduler of the older C++ library (\<^verbatim>\<open>src/oldsrc/coroutine.cc\<close>, \<^verbatim>\<open>coroutine.h\<close> and
  \<^verbatim>\<open>hooks.cc\<close>). Coroutines and sockets are objects with addresses. A function that calls
  \<open>swapcontext\<close> is split there: the part up to the switch, and the part that runs when the coroutine is
  resumed. The kernel and the C library are the parameters of the other theories.
\<close>

section \<open>State\<close>

definition kCoroNum :: nat where "kCoroNum = 256"

definition kStatusDead :: int where "kStatusDead = 0"
definition kStatusReady :: int where "kStatusReady = 1"
definition kStatusRunning :: int where "kStatusRunning = 2"
definition kStatusSuspend :: int where "kStatusSuspend = 3"

lemmas status_defs = kStatusDead_def kStatusReady_def kStatusRunning_def kStatusSuspend_def

record Coroutine =
  cr_arg :: vptr
  cr_fun :: coroutine_fun_t
  cr_id :: int
  cr_status :: int

record Socket =
  sk_fd :: int
  sk_coro :: "nat option"

text \<open>
  The last five fields are the objects that \<open>new\<close> has made, the next address, and, of the C library,
  \<open>errno\<close> and the world.
\<close>

record 'k scheduler =
  epfd :: int
  running_id :: int
  sched_num :: u64
  active_list :: "nat option list"
  coros :: "nat option list"
  socks :: "nat option list"
  ids :: id_map
  objs :: "nat \<rightharpoonup> Coroutine"
  sockets :: "nat \<rightharpoonup> Socket"
  next_addr :: nat
  s_errno :: int
  s_world :: 'k

section \<open>Coroutines\<close>

definition Scheduler_new :: "'k kernel \<Rightarrow> 'k \<Rightarrow> 'k scheduler" where
  "Scheduler_new K w =
     (let (fd, w) = k_epoll_create K 1024 w in
      \<lparr>epfd = fd, running_id = -1, sched_num = 0, active_list = [], coros = replicate kCoroNum None, socks = replicate kCoroNum None,
       ids = IdMap_new, objs = Map.empty, sockets = Map.empty, next_addr = 1, s_errno = 0, s_world = w\<rparr>)"

text \<open>The destructor: the coroutines and sockets that are still in the vectors.\<close>

definition Scheduler_delete :: "'k scheduler \<Rightarrow> 'k scheduler c_result" where
  "Scheduler_delete s =
     foldR (\<lambda>s i.
       bindR (array_get (coros s) (int i)) (\<lambda>c.
       bindR (case c of None \<Rightarrow> Inr s | Some a \<Rightarrow> bindR (deref (objs s) (Some a)) (\<lambda>_. Inr (s\<lparr>objs := (objs s)(a := None)\<rparr>))) (\<lambda>s.
       bindR (array_get (socks s) (int i)) (\<lambda>k.
       case k of None \<Rightarrow> Inr s | Some a \<Rightarrow> bindR (deref (sockets s) (Some a)) (\<lambda>_. Inr (s\<lparr>sockets := (sockets s)(a := None)\<rparr>))))))
     s [0..<length (coros s)]"

definition Spawn :: "'k scheduler \<Rightarrow> vptr \<Rightarrow> coroutine_fun_t \<Rightarrow> (int \<times> 'k scheduler) c_result" where
  "Spawn s arg f =
     bindR (Allocate (ids s)) (\<lambda>(i, m).
     let s = s\<lparr>ids := m\<rparr> in
     if i < 0 then Inr (i, s)
     else
       let coro = next_addr s;
           s = s\<lparr>next_addr := coro + 1,
                 objs := (objs s)(coro \<mapsto> \<lparr>cr_arg = arg, cr_fun = f, cr_id = i, cr_status = kStatusReady\<rparr>)\<rparr> in
       bindR (array_set (coros s) i (Some coro)) (\<lambda>cs.
       Inr (i, s\<lparr>coros := cs, active_list := active_list s @ [Some coro]\<rparr>)))"

definition set_status :: "'k scheduler \<Rightarrow> nat option \<Rightarrow> int \<Rightarrow> 'k scheduler c_result" where
  "set_status s coro st =
     bindR (deref (objs s) coro) (\<lambda>c. Inr (s\<lparr>objs := (objs s)(the coro \<mapsto> c\<lparr>cr_status := st\<rparr>)\<rparr>))"

definition Yield :: "'k scheduler \<Rightarrow> 'k scheduler c_result" where
  "Yield s =
     bindR (array_get (coros s) (running_id s)) (\<lambda>coro.
     bindR (set_status s coro kStatusSuspend) (\<lambda>s. Inr (s\<lparr>running_id := -1\<rparr>)))"

definition Status :: "'k scheduler \<Rightarrow> int \<Rightarrow> int c_result" where
  "Status s i =
     bindR (array_get (coros s) i) (\<lambda>coro.
     if coro = None then Inr kStatusDead else bindR (deref (objs s) coro) (\<lambda>c. Inr (cr_status c)))"

text \<open>\<open>mainfunc\<close>: what it calls, with the local variables it keeps, and what it does when the call returns.\<close>

definition mainfunc_call :: "'k scheduler \<Rightarrow> (coroutine_fun_t \<times> vptr \<times> int \<times> nat option) c_result" where
  "mainfunc_call s =
     (let i = running_id s in
      bindR (array_get (coros s) i) (\<lambda>coro.
      bindR (deref (objs s) coro) (\<lambda>c. Inr (cr_fun c, cr_arg c, i, coro))))"

definition mainfunc_end :: "'k scheduler \<Rightarrow> int \<Rightarrow> nat option \<Rightarrow> 'k scheduler c_result" where
  "mainfunc_end s i coro =
     bindR (deref (objs s) coro) (\<lambda>c.
     bindR (Free (ids s) (cr_id c)) (\<lambda>m.
     let s = s\<lparr>ids := m, objs := (objs s)(the coro := None)\<rparr> in
     bindR (array_set (coros s) i None) (\<lambda>cs.
     Inr (s\<lparr>coros := cs, sched_num := sched_num s - 1, running_id := -1\<rparr>))))"

text \<open>\<open>Resume\<close> up to the switch: whether there is one, and to a coroutine that starts or one that goes on.\<close>

datatype resumed = NoSwitch | Starts | GoesOn

definition Resume :: "'k scheduler \<Rightarrow> int \<Rightarrow> (resumed \<times> 'k scheduler) c_result" where
  "Resume s i =
     bindR (array_get (coros s) i) (\<lambda>coro.
     if coro = None then Inr (NoSwitch, s)
     else
       bindR (deref (objs s) coro) (\<lambda>c.
       if cr_status c = kStatusReady then
         bindR (set_status (s\<lparr>running_id := i\<rparr>) coro kStatusRunning) (\<lambda>s. Inr (Starts, s))
       else if cr_status c = kStatusSuspend then
         bindR (set_status (s\<lparr>running_id := i\<rparr>) coro kStatusRunning) (\<lambda>s. Inr (GoesOn, s))
       else Inr (NoSwitch, s)))"

section \<open>Sockets\<close>

definition EINTR :: int where "EINTR = 4"
definition MSG_NOSIGNAL :: int where "MSG_NOSIGNAL = 16384"

definition own_socket :: "'k scheduler \<Rightarrow> int \<Rightarrow> nat option \<Rightarrow> (nat \<times> 'k scheduler) c_result" where
  "own_socket s fd coro =
     bindR (array_get (socks s) fd) (\<lambda>sock.
     case sock of
       Some a \<Rightarrow> Inr (a, s)
     | None \<Rightarrow>
         let a = next_addr s in
         bindR (array_set (socks s) fd (Some a)) (\<lambda>sk.
         Inr (a, s\<lparr>next_addr := a + 1, socks := sk, sockets := (sockets s)(a \<mapsto> \<lparr>sk_fd = fd, sk_coro = coro\<rparr>)\<rparr>)))"

text \<open>
  \<open>Accept\<close>, \<open>Recv\<close> and \<open>Send\<close> up to the switch, which have the same text but for the event: the
  running coroutine, or none when \<open>epoll_ctl\<close> fails and \<open>-1\<close> is returned.
\<close>

definition wait_on :: "'k kernel \<Rightarrow> 'k scheduler \<Rightarrow> int \<Rightarrow> u32 \<Rightarrow> (nat option \<times> 'k scheduler) c_result" where
  "wait_on K s fd events =
     bindR (array_get (coros s) (running_id s)) (\<lambda>coro.
     bindR (own_socket s fd coro) (\<lambda>(sock, s).
     let ((ret, err), w) = k_epoll_ctl K (epfd s) EPOLL_CTL_ADD fd (Some \<lparr>ee_events = events, ee_ptr = Some sock\<rparr>) (s_world s);
         s = s\<lparr>s_world := w, s_errno := if ret \<noteq> 0 then err else s_errno s\<rparr> in
     if ret \<noteq> 0 then Inr (None, s)
     else bindR (set_status s coro kStatusSuspend) (\<lambda>s. Inr (coro, s))))"

definition Accept_enter :: "'k kernel \<Rightarrow> 'k scheduler \<Rightarrow> int \<Rightarrow> (nat option \<times> 'k scheduler) c_result" where
  "Accept_enter K s fd = wait_on K s fd EPOLLIN"

definition Recv_enter :: "'k kernel \<Rightarrow> 'k scheduler \<Rightarrow> int \<Rightarrow> (nat option \<times> 'k scheduler) c_result" where
  "Recv_enter K s fd = wait_on K s fd EPOLLIN"

definition Send_enter :: "'k kernel \<Rightarrow> 'k scheduler \<Rightarrow> int \<Rightarrow> (nat option \<times> 'k scheduler) c_result" where
  "Send_enter K s fd = wait_on K s fd EPOLLOUT"

definition epoll_forget :: "'k kernel \<Rightarrow> 'k scheduler \<Rightarrow> int \<Rightarrow> 'k scheduler" where
  "epoll_forget K s fd =
     (let ((ret, err), w) = k_epoll_ctl K (epfd s) EPOLL_CTL_DEL fd None (s_world s)
      in s\<lparr>s_world := w, s_errno := if ret \<noteq> 0 then err else s_errno s\<rparr>)"

text \<open>What a resumed call does: it returns a value or, at \<open>goto swap\<close>, gives up the processor again.\<close>

datatype io_step = IoReturns int | IoSwaps

partial_function (option) accept_try :: "'k libc \<Rightarrow> int \<Rightarrow> 'k scheduler \<Rightarrow> (io_step \<times> 'k scheduler) option" where
  "accept_try L fd s =
     (let ((r, err, _), w) = l_accept L fd (s_world s) in
      if r < 0 then
        (if err = EAGAIN then Some (IoSwaps, s\<lparr>s_world := w, s_errno := err\<rparr>)
         else if err \<noteq> EINTR then Some (IoReturns (-1), s\<lparr>s_world := w, s_errno := err\<rparr>)
         else accept_try L fd (s\<lparr>s_world := w, s_errno := err\<rparr>))
      else
        let ((fl, _, _), w) = l_fcntl L fd F_GETFL NoArg w;
            (_, w) = l_fcntl L r F_SETFL (IntArg (fl OR O_NONBLOCK)) w
        in Some (IoReturns r, s\<lparr>s_world := w\<rparr>))"

partial_function (option) recv_more ::
  "'k libc \<Rightarrow> int \<Rightarrow> int \<Rightarrow> int \<Rightarrow> bytes \<Rightarrow> 'k scheduler \<Rightarrow> (io_step \<times> bytes \<times> 'k scheduler) option" where
  "recv_more L fd len fl buf s =
     (let ret = int (length buf) in
      if ret < len then
        let ((n, err, data), w) = l_recv L fd (nat (len - ret)) fl (s_world s) in
        if n = -1 then
          (if err = EAGAIN then Some (IoSwaps, buf, s\<lparr>s_world := w, s_errno := err\<rparr>)
           else if err \<noteq> EINTR then Some (IoReturns (-1), buf, s\<lparr>s_world := w, s_errno := err\<rparr>)
           else recv_more L fd len fl buf (s\<lparr>s_world := w, s_errno := err\<rparr>))
        else if n = 0 then Some (IoReturns (-1), buf, s\<lparr>s_world := w\<rparr>)
        else if n < len - (ret + n) then Some (IoReturns (ret + n), buf @ data, s\<lparr>s_world := w\<rparr>)
        else recv_more L fd len fl (buf @ data) (s\<lparr>s_world := w\<rparr>)
      else Some (IoReturns ret, buf, s))"

partial_function (option) send_more ::
  "'k libc \<Rightarrow> int \<Rightarrow> bytes \<Rightarrow> int \<Rightarrow> nat \<Rightarrow> 'k scheduler \<Rightarrow> (io_step \<times> nat \<times> 'k scheduler) option" where
  "send_more L fd buf fl ret s =
     (if ret < length buf then
        let ((n, err, _), w) = l_send L fd (drop ret buf) (fl OR MSG_NOSIGNAL) (s_world s) in
        if n = -1 then
          (if err = EAGAIN then Some (IoSwaps, ret, s\<lparr>s_world := w, s_errno := err\<rparr>)
           else if err \<noteq> EINTR then Some (IoReturns (-1), ret, s\<lparr>s_world := w, s_errno := err\<rparr>)
           else send_more L fd buf fl ret (s\<lparr>s_world := w, s_errno := err\<rparr>))
        else if n = 0 then Some (IoReturns (-1), ret, s\<lparr>s_world := w\<rparr>)
        else if ret + nat n = length buf then Some (IoReturns (int (ret + nat n)), ret + nat n, s\<lparr>s_world := w\<rparr>)
        else send_more L fd buf fl (ret + nat n) (s\<lparr>s_world := w\<rparr>)
      else Some (IoReturns (int ret), ret, s))"

definition Close :: "'k libc \<Rightarrow> 'k scheduler \<Rightarrow> int \<Rightarrow> (int \<times> 'k scheduler) c_result" where
  "Close L s fd =
     bindR (array_get (socks s) fd) (\<lambda>sock.
     bindR (case sock of
              None \<Rightarrow> Inr s
            | Some a \<Rightarrow> bindR (deref (sockets s) (Some a)) (\<lambda>_.
                bindR (array_set (socks s) fd None) (\<lambda>sk. Inr (s\<lparr>socks := sk, sockets := (sockets s)(a := None)\<rparr>)))) (\<lambda>s.
     let ((r, err, _), w) = l_close L fd (s_world s) in
     Inr (r, s\<lparr>s_world := w, s_errno := if r < 0 then err else s_errno s\<rparr>)))"

text \<open>
  The calls when they are resumed: the coroutine is removed from epoll first, and it is not entered again
  when the call has to wait once more. \<open>coro\<close> is the local variable.
\<close>

definition after_io :: "nat option \<Rightarrow> io_step \<Rightarrow> 'k scheduler \<Rightarrow> (int option \<times> 'k scheduler) c_result" where
  "after_io coro st s =
     (case st of
        IoReturns r \<Rightarrow> Inr (Some r, s)
      | IoSwaps \<Rightarrow> bindR (set_status s coro kStatusSuspend) (\<lambda>s. Inr (None, s)))"

definition Accept_resumed ::
  "'k kernel \<Rightarrow> 'k libc \<Rightarrow> 'k scheduler \<Rightarrow> int \<Rightarrow> nat option \<Rightarrow> (int option \<times> 'k scheduler) c_result" where
  "Accept_resumed K L s fd coro =
     (case accept_try L fd (epoll_forget K s fd) of
        None \<Rightarrow> Inl Diverges
      | Some (st, s) \<Rightarrow> after_io coro st s)"

definition Recv_resumed ::
  "'k kernel \<Rightarrow> 'k libc \<Rightarrow> 'k scheduler \<Rightarrow> int \<Rightarrow> int \<Rightarrow> int \<Rightarrow> nat option \<Rightarrow> bytes \<Rightarrow> (int option \<times> bytes \<times> 'k scheduler) c_result" where
  "Recv_resumed K L s fd len fl coro buf =
     (case recv_more L fd len fl buf (epoll_forget K s fd) of
        None \<Rightarrow> Inl Diverges
      | Some (st, buf, s) \<Rightarrow> bindR (after_io coro st s) (\<lambda>(r, s). Inr (r, buf, s)))"

definition Send_resumed ::
  "'k kernel \<Rightarrow> 'k libc \<Rightarrow> 'k scheduler \<Rightarrow> int \<Rightarrow> bytes \<Rightarrow> int \<Rightarrow> nat option \<Rightarrow> nat \<Rightarrow> (int option \<times> nat \<times> 'k scheduler) c_result" where
  "Send_resumed K L s fd buf fl coro ret =
     (case send_more L fd buf fl ret (epoll_forget K s fd) of
        None \<Rightarrow> Inl Diverges
      | Some (st, ret, s) \<Rightarrow> bindR (after_io coro st s) (\<lambda>(r, s). Inr (r, ret, s)))"

section \<open>The loop\<close>

text \<open>\<open>EPOLLIN || EPOLLOUT\<close> is the logical or of C, whose value is 1.\<close>

definition check_event :: "'k scheduler \<Rightarrow> epoll_event \<Rightarrow> 'k scheduler c_result" where
  "check_event s ev =
     (if ee_events ev AND (if EPOLLIN \<noteq> 0 \<or> EPOLLOUT \<noteq> 0 then 1 else 0) \<noteq> 0
      then bindR (deref (sockets s) (ee_ptr ev)) (\<lambda>sock. Inr (s\<lparr>active_list := active_list s @ [sk_coro sock]\<rparr>))
      else Inr s)"

definition CheckNetwork :: "'k kernel \<Rightarrow> 'k scheduler \<Rightarrow> 'k scheduler c_result" where
  "CheckNetwork K s =
     (let (r, w) = k_epoll_wait K (epfd s) 1024 (-1) (s_world s);
          s = s\<lparr>s_world := w\<rparr> in
      case r of
        Inl err \<Rightarrow> Inr (s\<lparr>s_errno := err\<rparr>)
      | Inr events \<Rightarrow> if length events > 1024 then Inl OutOfBounds else foldR check_event s events)"

text \<open>
  The iteration over the active list, to which coroutines may append while it goes on. \<open>run\<close> is what
  the coroutine of the given number does, from its start or from where it was, until it is back in the
  loop.
\<close>

partial_function (option) resume_all ::
  "(resumed \<Rightarrow> int \<Rightarrow> 'k scheduler \<Rightarrow> 'k scheduler c_result) \<Rightarrow> nat \<Rightarrow> 'k scheduler \<Rightarrow> 'k scheduler c_result option" where
  "resume_all run i s =
     (if i < length (active_list s) then
        (case bindR (deref (objs s) (active_list s ! i)) (\<lambda>c. bindR (Resume s (cr_id c)) (\<lambda>(sw, s). Inr (sw, cr_id c, s))) of
           Inl e \<Rightarrow> Some (Inl e)
         | Inr (sw, k, s) \<Rightarrow>
             (case (if sw = NoSwitch then Inr s else run sw k s) of
                Inl e \<Rightarrow> Some (Inl e)
              | Inr s \<Rightarrow> resume_all run (Suc i) s))
      else Some (Inr s))"

definition Run_turn ::
  "'k kernel \<Rightarrow> (resumed \<Rightarrow> int \<Rightarrow> 'k scheduler \<Rightarrow> 'k scheduler c_result) \<Rightarrow> 'k scheduler \<Rightarrow> 'k scheduler c_result" where
  "Run_turn K run s =
     bindR (case resume_all run 0 s of None \<Rightarrow> Inl Diverges | Some r \<Rightarrow> r) (CheckNetwork K)"

section \<open>The hooks of the older library\<close>

text \<open>\<open>pthread_create\<close>: the thread that is stored, the value that is returned, and the state.\<close>

definition pthread_create :: "'k scheduler \<Rightarrow> vptr \<Rightarrow> coroutine_fun_t \<Rightarrow> (int \<times> int \<times> 'k scheduler) c_result" where
  "pthread_create s arg start_routine = bindR (Spawn s arg start_routine) (\<lambda>(thread, s). Inr (thread, 0, s))"

section \<open>Well-formed schedulers\<close>

text \<open>
  The numbers in use are those of the coroutines in the vector; each of these coroutines is alive, and
  every coroutine that is alive is in the vector at its number. Only the coroutine of \<open>running_\<close> runs.
\<close>

definition used_ids :: "'k scheduler \<Rightarrow> nat set" where
  "used_ids s = {i. i < length (coros s) \<and> coros s ! i \<noteq> None}"

definition sched_ok :: "'k scheduler \<Rightarrow> bool" where
  "sched_ok s \<longleftrightarrow> length (coros s) = kCoroNum \<and> ids_ok (ids s) (used_ids s) \<and>
     (\<forall>i a. i < kCoroNum \<longrightarrow> coros s ! i = Some a \<longrightarrow> (\<exists>c. objs s a = Some c \<and> cr_id c = int i)) \<and>
     (\<forall>a c. objs s a = Some c \<longrightarrow> a < next_addr s \<and> 0 \<le> cr_id c \<and> cr_id c < int kCoroNum \<and> coros s ! nat (cr_id c) = Some a) \<and>
     (\<forall>a c. objs s a = Some c \<longrightarrow> cr_status c = kStatusRunning \<longrightarrow> running_id s = cr_id c)"

text \<open>No coroutine runs: the loop does.\<close>

definition in_loop :: "'k scheduler \<Rightarrow> bool" where
  "in_loop s \<longleftrightarrow> (\<forall>a c. objs s a = Some c \<longrightarrow> cr_status c \<noteq> kStatusRunning)"

definition is_running :: "'k scheduler \<Rightarrow> nat \<Rightarrow> bool" where
  "is_running s a \<longleftrightarrow> (\<exists>c. objs s a = Some c \<and> cr_status c = kStatusRunning)"

text \<open>What loop and coroutines may do, each when it has the processor.\<close>

inductive sched_step :: "'k kernel \<Rightarrow> 'k libc \<Rightarrow> 'k scheduler \<Rightarrow> 'k scheduler \<Rightarrow> bool" for K L where
  spawn: "Spawn s arg f = Inr (i, s') \<Longrightarrow> sched_step K L s s'"
| resume: "in_loop s \<Longrightarrow> Resume s i = Inr (sw, s') \<Longrightarrow> sched_step K L s s'"
| network: "in_loop s \<Longrightarrow> CheckNetwork K s = Inr s' \<Longrightarrow> sched_step K L s s'"
| yields: "is_running s a \<Longrightarrow> Yield s = Inr s' \<Longrightarrow> sched_step K L s s'"
| waits: "is_running s a \<Longrightarrow> wait_on K s fd events = Inr (r, s') \<Longrightarrow> sched_step K L s s'"
| accepts: "is_running s a \<Longrightarrow> Accept_resumed K L s fd (Some a) = Inr (r, s') \<Longrightarrow> sched_step K L s s'"
| receives: "is_running s a \<Longrightarrow> Recv_resumed K L s fd len fl (Some a) buf = Inr (r, buf', s') \<Longrightarrow> sched_step K L s s'"
| sends: "is_running s a \<Longrightarrow> Send_resumed K L s fd bytes fl (Some a) ret = Inr (r, ret', s') \<Longrightarrow> sched_step K L s s'"
| closes: "is_running s a \<Longrightarrow> Close L s fd = Inr (r, s') \<Longrightarrow> sched_step K L s s'"
| ends: "is_running s a \<Longrightarrow> mainfunc_call s = Inr (f, arg, i, Some a) \<Longrightarrow> mainfunc_end s i (Some a) = Inr s' \<Longrightarrow> sched_step K L s s'"

lemma sched_okD:
  assumes "sched_ok s"
  shows "length (coros s) = kCoroNum" "ids_ok (ids s) (used_ids s)"
    "i < kCoroNum \<Longrightarrow> coros s ! i = Some a \<Longrightarrow> \<exists>c. objs s a = Some c \<and> cr_id c = int i"
    "objs s a = Some c \<Longrightarrow> a < next_addr s \<and> 0 \<le> cr_id c \<and> cr_id c < int kCoroNum \<and> coros s ! nat (cr_id c) = Some a"
    "objs s a = Some c \<Longrightarrow> cr_status c = kStatusRunning \<Longrightarrow> running_id s = cr_id c"
  using assms unfolding sched_ok_def by blast+

lemma sched_okI:
  assumes "length (coros s) = kCoroNum" and "ids_ok (ids s) (used_ids s)"
    and "\<And>i a. i < kCoroNum \<Longrightarrow> coros s ! i = Some a \<Longrightarrow> \<exists>c. objs s a = Some c \<and> cr_id c = int i"
    and "\<And>a c. objs s a = Some c \<Longrightarrow> a < next_addr s \<and> 0 \<le> cr_id c \<and> cr_id c < int kCoroNum \<and> coros s ! nat (cr_id c) = Some a"
    and "\<And>a c. objs s a = Some c \<Longrightarrow> cr_status c = kStatusRunning \<Longrightarrow> running_id s = cr_id c"
  shows "sched_ok s"
  using assms unfolding sched_ok_def by blast

lemma sched_ok_frame:
  assumes ok: "sched_ok s" and eq: "coros s' = coros s" "ids s' = ids s" "objs s' = objs s" "running_id s' = running_id s"
    and le: "next_addr s \<le> next_addr s'"
  shows "sched_ok s'"
proof (rule sched_okI)
  have "used_ids s' = used_ids s" by (simp add: used_ids_def eq(1))
  then show "length (coros s') = kCoroNum" "ids_ok (ids s') (used_ids s')" using sched_okD(1,2) [OF ok] eq by simp_all
  fix a c assume "objs s' a = Some c"
  then show "a < next_addr s' \<and> 0 \<le> cr_id c \<and> cr_id c < int kCoroNum \<and> coros s' ! nat (cr_id c) = Some a"
    using sched_okD(4) [OF ok, of a c] le unfolding eq by auto
qed (use sched_okD(3,5) [OF ok] eq in simp_all)

lemma sched_ok_status:
  assumes ok: "sched_ok s" and a: "objs s a = Some c" and s': "coros s' = coros s" "ids s' = ids s" "next_addr s' = next_addr s"
    "objs s' = (objs s)(a \<mapsto> c\<lparr>cr_status := st\<rparr>)"
    and run: "\<And>b d. objs s' b = Some d \<Longrightarrow> cr_status d = kStatusRunning \<Longrightarrow> running_id s' = cr_id d"
  shows "sched_ok s'"
proof (rule sched_okI)
  have "used_ids s' = used_ids s" by (simp add: used_ids_def s'(1))
  then show "length (coros s') = kCoroNum" "ids_ok (ids s') (used_ids s')" using sched_okD(1,2) [OF ok] s'(1,2) by simp_all
  show "\<exists>d. objs s' b = Some d \<and> cr_id d = int i" if ib: "i < kCoroNum" "coros s' ! i = Some b" for i b
  proof -
    obtain d where "objs s b = Some d" "cr_id d = int i" using sched_okD(3) [OF ok ib(1), of b] ib(2) s'(1) by auto
    then show ?thesis using a s'(4) by (cases "b = a") simp_all
  qed
  fix b d assume b: "objs s' b = Some d"
  then obtain d0 where "objs s b = Some d0" "cr_id d0 = cr_id d" using a s'(4) by (cases "b = a") auto
  then show "b < next_addr s' \<and> 0 \<le> cr_id d \<and> cr_id d < int kCoroNum \<and> coros s' ! nat (cr_id d) = Some b"
    using sched_okD(4) [OF ok] s'(1,3) by metis
qed (rule run)

lemma set_status_run:
  assumes "set_status s (Some a) st = Inr s'"
  obtains c where "objs s a = Some c" "s' = s\<lparr>objs := (objs s)(a \<mapsto> c\<lparr>cr_status := st\<rparr>)\<rparr>"
  using assms by (auto simp: set_status_def deref_def bindR_eq_Inr split: option.splits)

text \<open>A coroutine gives up the processor.\<close>

lemma only_running:
  assumes "sched_ok s" and "is_running s a"
  shows "array_get (coros s) (running_id s) = Inr (Some a)" "is_running s b \<Longrightarrow> b = a"
proof -
  have one: "running_id s = cr_id c" "0 \<le> cr_id c" "nat (cr_id c) < length (coros s)" "coros s ! nat (cr_id c) = Some b"
    if "objs s b = Some c" "cr_status c = kStatusRunning" for b c
  proof -
    show "running_id s = cr_id c" by (rule sched_okD(5) [OF assms(1) that])
    show "0 \<le> cr_id c" "coros s ! nat (cr_id c) = Some b" using sched_okD(4) [OF assms(1) that(1)] by simp_all
    have "cr_id c < int kCoroNum" "length (coros s) = kCoroNum" using sched_okD(4) [OF assms(1) that(1)] sched_okD(1) [OF assms(1)] by simp_all
    then show "nat (cr_id c) < length (coros s)" using \<open>0 \<le> cr_id c\<close> by simp
  qed
  obtain c where c: "objs s a = Some c" "cr_status c = kStatusRunning" using assms(2) by (auto simp: is_running_def)
  show "array_get (coros s) (running_id s) = Inr (Some a)" using one [OF c] by (simp add: array_get_def)
  show "b = a" if "is_running s b"
  proof -
    obtain d where "objs s b = Some d" "cr_status d = kStatusRunning" using \<open>is_running s b\<close> by (auto simp: is_running_def)
    from one [OF this] one [OF c] show ?thesis by simp
  qed
qed

lemma suspend_ok:
  assumes ok: "sched_ok s" and run: "set_status s (Some a) kStatusSuspend = Inr s'"
  shows "sched_ok s'" "is_running s a \<Longrightarrow> sched_ok (s'\<lparr>running_id := r\<rparr>)"
proof -
  obtain c where c: "objs s a = Some c" "s' = s\<lparr>objs := (objs s)(a \<mapsto> c\<lparr>cr_status := kStatusSuspend\<rparr>)\<rparr>" by (rule set_status_run [OF run])
  note old = sched_okD(5) [OF ok]
  show "sched_ok s'" by (rule sched_ok_status [OF ok c(1), where st = kStatusSuspend]) (use c(2) old in \<open>auto simp: status_defs split: if_splits\<close>)
  assume a: "is_running s a"
  show "sched_ok (s'\<lparr>running_id := r\<rparr>)"
  proof (rule sched_ok_status [OF ok c(1), where st = kStatusSuspend])
    fix b d assume b: "objs (s'\<lparr>running_id := r\<rparr>) b = Some d" "cr_status d = kStatusRunning"
    then have "b \<noteq> a" "objs s b = Some d" using c(2) by (auto simp: status_defs split: if_splits)
    then show "running_id (s'\<lparr>running_id := r\<rparr>) = cr_id d" using only_running(2) [OF ok a, of b] b(2) by (auto simp: is_running_def)
  qed (use c(2) in simp_all)
qed

lemma Yield_ok: "sched_ok s \<Longrightarrow> is_running s a \<Longrightarrow> Yield s = Inr s' \<Longrightarrow> sched_ok s'"
  by (auto simp: Yield_def only_running(1) bindR_eq_Inr dest: suspend_ok(2))

text \<open>The loop gives the processor to a coroutine.\<close>

lemma Resume_ok:
  assumes ok: "sched_ok s" and "loop": "in_loop s" and run: "Resume s i = Inr (sw, s')"
  shows "sched_ok s'"
proof -
  obtain coro where coro: "array_get (coros s) i = Inr coro" using run by (auto simp: Resume_def bindR_eq_Inr)
  show ?thesis
  proof (cases "s' = s")
    case False
    then obtain a where a: "coro = Some a" using run coro by (cases coro) (auto simp: Resume_def)
    with False run coro have "set_status (s\<lparr>running_id := i\<rparr>) (Some a) kStatusRunning = Inr s'"
      by (auto simp: Resume_def bindR_eq_Inr split: if_splits)
    then obtain c where c: "objs s a = Some c" "s' = s\<lparr>running_id := i, objs := (objs s)(a \<mapsto> c\<lparr>cr_status := kStatusRunning\<rparr>)\<rparr>"
      by (rule set_status_run) simp
    have i: "0 \<le> i" "nat i < kCoroNum" "coros s ! nat i = Some a" using coro a sched_okD(1) [OF ok] by (auto simp: array_get_def split: if_splits)
    then have "cr_id c = i" using sched_okD(3) [OF ok i(2,3)] c(1) by simp
    show ?thesis
    proof (rule sched_ok_status [OF ok c(1), where st = kStatusRunning])
      fix b d assume "objs s' b = Some d" "cr_status d = kStatusRunning"
      then show "running_id s' = cr_id d" using "loop" c(2) \<open>cr_id c = i\<close> by (auto simp: in_loop_def split: if_splits)
    qed (use c(2) in simp_all)
  qed (use ok in simp)
qed

lemma Spawn_ok:
  assumes ok: "sched_ok s" and run: "Spawn s arg f = Inr (i, s')"
  shows "sched_ok s'"
proof (cases "i < 0")
  case True
  obtain i' m where m: "Allocate (ids s) = Inr (i', m)" using run by (auto simp: Spawn_def bindR_eq_Inr)
  with True run have "i' < 0" by (auto simp: Spawn_def Let_def bindR_eq_Inr split: if_splits)
  then have "m = ids s" using idm.allocated [OF sched_okD(2) [OF ok] m] by simp
  then show ?thesis using run m \<open>i' < 0\<close> ok by (auto simp: Spawn_def Let_def)
next
  case False
  obtain i' m' where m: "Allocate (ids s) = Inr (i', m')" using run by (auto simp: Spawn_def bindR_eq_Inr)
  with False run have "i' = i" by (auto simp: Spawn_def Let_def bindR_eq_Inr split: if_splits)
  then obtain k where k: "Allocate (ids s) = Inr (int k, m')" "ids_ok m' (insert k (used_ids s))" "k \<notin> used_ids s"
    using idm.allocated [OF sched_okD(2) [OF ok] m] m False by (metis int_nat_eq not_le)
  let ?a = "next_addr s" and ?c = "\<lparr>cr_arg = arg, cr_fun = f, cr_id = int k, cr_status = kStatusReady\<rparr>"
  from run k(1) have kb: "k < length (coros s)"
    and s': "s' = s\<lparr>ids := m', next_addr := ?a + 1, objs := (objs s)(?a \<mapsto> ?c), coros := (coros s)[k := Some ?a],
      active_list := active_list s @ [Some ?a]\<rparr>" by (auto simp: Spawn_def Let_def array_set_def split: if_splits)
  have new: "objs s ?a = None" using sched_okD(4) [OF ok, of ?a] by (cases "objs s ?a") auto
  note len = sched_okD(1) [OF ok]
  from k(3) have free: "coros s ! k = None" using kb by (simp add: used_ids_def)
  show ?thesis
  proof (rule sched_okI)
    have "used_ids s' = insert k (used_ids s)" using kb s' by (auto simp: used_ids_def nth_list_update)
    then show "length (coros s') = kCoroNum" "ids_ok (ids s') (used_ids s')" using k(2) s' len by simp_all
    show "\<exists>c. objs s' b = Some c \<and> cr_id c = int i" if ib: "i < kCoroNum" "coros s' ! i = Some b" for i b
    proof (cases "i = k")
      case True
      then show ?thesis using ib(2) s' kb by simp
    next
      case False
      then obtain c where "objs s b = Some c" "cr_id c = int i" using sched_okD(3) [OF ok ib(1), of b] ib(2) s' by auto
      then show ?thesis using new s' by (cases "b = ?a") simp_all
    qed
    fix b c assume b: "objs s' b = Some c"
    show "b < next_addr s' \<and> 0 \<le> cr_id c \<and> cr_id c < int kCoroNum \<and> coros s' ! nat (cr_id c) = Some b"
    proof (cases "b = ?a")
      case False
      then have c: "objs s b = Some c" using b s' by simp
      then have "nat (cr_id c) \<noteq> k" using sched_okD(4) [OF ok c] free by auto
      then show ?thesis using sched_okD(4) [OF ok c] s' by auto
    qed (use b s' kb len in auto)
    assume "cr_status c = kStatusRunning"
    then show "running_id s' = cr_id c" using sched_okD(5) [OF ok, of b c] b s' by (cases "b = ?a") (auto simp: status_defs)
  qed
qed

text \<open>A coroutine ends.\<close>

lemma mainfunc_end_ok:
  assumes ok: "sched_ok s" and a: "is_running s a" and run: "mainfunc_end s (running_id s) (Some a) = Inr s'"
  shows "sched_ok s'"
proof -
  obtain c where c: "objs s a = Some c" "cr_status c = kStatusRunning" using a by (auto simp: is_running_def)
  let ?i = "nat (cr_id c)"
  have i: "cr_id c = int ?i" "?i < kCoroNum" "coros s ! ?i = Some a" "running_id s = int ?i"
    using sched_okD(4) [OF ok c(1)] sched_okD(5) [OF ok c] by auto
  note len = sched_okD(1) [OF ok]
  have "?i \<in> used_ids s" using i(2,3) len by (simp add: used_ids_def)
  then obtain m where m: "Free (ids s) (int ?i) = Inr m" "ids_ok m (used_ids s - {?i})" using idm.release_law [OF sched_okD(2) [OF ok]] by blast
  have s': "s' = s\<lparr>ids := m, objs := (objs s)(a := None), coros := (coros s)[?i := None], sched_num := sched_num s - 1, running_id := -1\<rparr>"
    using run c(1) m(1) i len unfolding mainfunc_end_def by (simp add: Let_def)
  show ?thesis
  proof (rule sched_okI)
    have "(coros s)[?i := None] ! j = (if j = ?i then None else coros s ! j)" for j using i(2) len by (simp add: nth_list_update)
    then have "used_ids s' = used_ids s - {?i}" using s' by (auto simp: used_ids_def split: if_splits)
    then show "length (coros s') = kCoroNum" "ids_ok (ids s') (used_ids s')" using m(2) s' len by simp_all
    show "\<exists>d. objs s' b = Some d \<and> cr_id d = int j" if jb: "j < kCoroNum" "coros s' ! j = Some b" for j b
    proof -
      have j: "j \<noteq> ?i" "coros s ! j = Some b" using jb s' i(2) len by (auto simp: nth_list_update split: if_splits)
      then obtain d where d: "objs s b = Some d" "cr_id d = int j" using sched_okD(3) [OF ok jb(1)] by blast
      then have "b \<noteq> a" using c(1) i(1) j(1) by auto
      then show ?thesis using d s' by simp
    qed
    fix b d assume "objs s' b = Some d"
    then have d: "b \<noteq> a" "objs s b = Some d" using s' by (auto split: if_splits)
    then have "nat (cr_id d) \<noteq> ?i" using sched_okD(4) [OF ok d(2)] i(3) by auto
    then show "b < next_addr s' \<and> 0 \<le> cr_id d \<and> cr_id d < int kCoroNum \<and> coros s' ! nat (cr_id d) = Some b"
      using sched_okD(4) [OF ok d(2)] s' by auto
    assume "cr_status d = kStatusRunning"
    then show "running_id s' = cr_id d" using only_running(2) [OF ok a, of b] d by (auto simp: is_running_def)
  qed
qed

text \<open>The other operations leave the coroutines alone, but for the status of the one that waits.\<close>

definition co_frame :: "'k scheduler \<Rightarrow> 'k scheduler \<Rightarrow> bool" where
  "co_frame s s' \<longleftrightarrow> coros s' = coros s \<and> ids s' = ids s \<and> objs s' = objs s \<and> running_id s' = running_id s \<and> next_addr s \<le> next_addr s'"

lemma co_frame_ok: "sched_ok s \<Longrightarrow> co_frame s s' \<Longrightarrow> sched_ok s'"
  unfolding co_frame_def by (elim conjE) (rule sched_ok_frame)

lemma co_frame_refl [simp]: "co_frame s s" "co_frame s (s\<lparr>s_world := w\<rparr>)" "co_frame s (s\<lparr>s_world := w, s_errno := e\<rparr>)"
  by (simp_all add: co_frame_def)

lemma co_frame_trans: "co_frame s s1 \<Longrightarrow> co_frame s1 s2 \<Longrightarrow> co_frame s s2"
  by (simp add: co_frame_def)

lemma co_frame_world: "co_frame (s\<lparr>s_world := w\<rparr>) s' \<Longrightarrow> co_frame s s'" "co_frame (s\<lparr>s_world := w, s_errno := e\<rparr>) s' \<Longrightarrow> co_frame s s'"
  by (simp_all add: co_frame_def)

lemma epoll_forget_frame: "co_frame s (epoll_forget K s fd)"
  by (simp add: epoll_forget_def split_beta Let_def)

lemma own_socket_frame: "own_socket s fd coro = Inr (a, s') \<Longrightarrow> co_frame s s'"
  by (auto simp: own_socket_def bindR_eq_Inr Let_def co_frame_def split: option.splits)

lemma wait_on_ok:
  assumes ok: "sched_ok s" and a: "is_running s a" and run: "wait_on K s fd events = Inr (r, s')"
  shows "sched_ok s'"
proof -
  from run only_running(1) [OF ok a] obtain sock s1 where sock: "own_socket s fd (Some a) = Inr (sock, s1)" by (auto simp: wait_on_def bindR_eq_Inr)
  let ?r = "k_epoll_ctl K (epfd s1) EPOLL_CTL_ADD fd (Some \<lparr>ee_events = events, ee_ptr = Some sock\<rparr>) (s_world s1)"
  let ?s = "s1\<lparr>s_world := snd ?r, s_errno := if fst (fst ?r) \<noteq> 0 then snd (fst ?r) else s_errno s1\<rparr>"
  have "sched_ok ?s" using co_frame_ok [OF ok co_frame_trans [OF own_socket_frame [OF sock] co_frame_refl(3)]] by simp
  moreover have "s' = ?s \<or> set_status ?s (Some a) kStatusSuspend = Inr s'"
    using run only_running(1) [OF ok a] sock by (auto simp: wait_on_def bindR_eq_Inr Let_def split_beta split: if_splits)
  ultimately show ?thesis using suspend_ok(1) by blast
qed

lemma after_io_ok: "sched_ok s \<Longrightarrow> after_io (Some a) st s = Inr (r, s') \<Longrightarrow> sched_ok s'"
  by (auto simp: after_io_def bindR_eq_Inr split: io_step.splits dest: suspend_ok(1))

lemma accept_try_frame: "accept_try L fd s = Some (st, s') \<Longrightarrow> co_frame s s'"
proof (induction L fd s "(st, s')" rule: accept_try.raw_induct [rotated, consumes 1, case_names step])
  case (step f L fd s)
  show ?case using step.hyps(2)
    by (auto simp: Let_def split_beta split: if_splits dest!: step.hyps(1) co_frame_world)
qed

lemma recv_more_frame: "recv_more L fd len fl buf s = Some (st, buf', s') \<Longrightarrow> co_frame s s'"
proof (induction L fd len fl buf s "(st, buf', s')" rule: recv_more.raw_induct [rotated, consumes 1, case_names step])
  case (step f L fd len fl buf s)
  show ?case using step.hyps(2)
    by (auto simp: Let_def split_beta split: if_splits dest!: step.hyps(1) co_frame_world)
qed

lemma if_eqE: "(if c then a else b) = y \<Longrightarrow> (c \<Longrightarrow> a = y \<Longrightarrow> R) \<Longrightarrow> (\<not> c \<Longrightarrow> b = y \<Longrightarrow> R) \<Longrightarrow> R"
  by (cases c) simp_all

lemma send_more_frame: "send_more L fd buf fl ret s = Some (st, ret', s') \<Longrightarrow> co_frame s s'"
proof (induction L fd buf fl ret s "(st, ret', s')" rule: send_more.raw_induct [rotated, consumes 1, case_names step])
  case (step f L fd buf fl ret s)
  have ih: "f L fd buf fl n (s\<lparr>s_world := w\<rparr>) = Some (st, ret', s') \<Longrightarrow> co_frame s s'"
    "f L fd buf fl n (s\<lparr>s_world := w, s_errno := e\<rparr>) = Some (st, ret', s') \<Longrightarrow> co_frame s s'" for n w e
    by (drule step.hyps(1), erule co_frame_world)+
  have "end": "Some (x, y, z) = Some (st, ret', s') \<Longrightarrow> co_frame s z \<Longrightarrow> co_frame s s'" for x y z by simp
  show ?case using step.hyps(2) unfolding Let_def split_beta
    by (elim if_eqE) (erule ih | (erule "end", rule co_frame_refl))+
qed

lemma resumed_calls_ok:
  assumes ok: "sched_ok s"
  shows "Accept_resumed K L s fd (Some a) = Inr (r, s') \<Longrightarrow> sched_ok s'"
    and "Recv_resumed K L s fd len fl (Some a) buf = Inr (r, buf', s') \<Longrightarrow> sched_ok s'"
    and "Send_resumed K L s fd bs fl (Some a) ret = Inr (r, ret', s') \<Longrightarrow> sched_ok s'"
proof -
  have keep: "sched_ok s1" if "co_frame (epoll_forget K s fd) s1" for s1
    by (rule co_frame_ok [OF ok co_frame_trans [OF epoll_forget_frame that]])
  show "sched_ok s'" if run: "Accept_resumed K L s fd (Some a) = Inr (r, s')"
  proof -
    obtain st s1 where "accept_try L fd (epoll_forget K s fd) = Some (st, s1)" "after_io (Some a) st s1 = Inr (r, s')"
      using run by (auto simp: Accept_resumed_def split: option.splits)
    then show ?thesis by (blast intro: after_io_ok [OF keep [OF accept_try_frame]])
  qed
  show "sched_ok s'" if run: "Recv_resumed K L s fd len fl (Some a) buf = Inr (r, buf', s')"
  proof -
    obtain st b s1 where "recv_more L fd len fl buf (epoll_forget K s fd) = Some (st, b, s1)" "after_io (Some a) st s1 = Inr (r, s')"
      using run by (auto simp: Recv_resumed_def bindR_eq_Inr split: option.splits)
    then show ?thesis by (blast intro: after_io_ok [OF keep [OF recv_more_frame]])
  qed
  show "sched_ok s'" if run: "Send_resumed K L s fd bs fl (Some a) ret = Inr (r, ret', s')"
  proof -
    obtain st n s1 where "send_more L fd bs fl ret (epoll_forget K s fd) = Some (st, n, s1)" "after_io (Some a) st s1 = Inr (r, s')"
      using run by (auto simp: Send_resumed_def bindR_eq_Inr split: option.splits)
    then show ?thesis by (blast intro: after_io_ok [OF keep [OF send_more_frame]])
  qed
qed

lemma Close_frame: "Close L s fd = Inr (r, s') \<Longrightarrow> co_frame s s'"
  by (auto simp: Close_def bindR_eq_Inr Let_def split_beta co_frame_def split: option.splits)

lemma check_event_frame: "check_event s ev = Inr s' \<Longrightarrow> co_frame s s'"
  by (auto simp: check_event_def bindR_eq_Inr co_frame_def split: if_splits)

lemma check_events_frame: "foldR check_event s evs = Inr s' \<Longrightarrow> co_frame s s'"
  by (induction evs arbitrary: s) (auto simp: bindR_eq_Inr intro: co_frame_trans [OF check_event_frame])

lemma CheckNetwork_frame: "CheckNetwork K s = Inr s' \<Longrightarrow> co_frame s s'"
  by (auto simp: CheckNetwork_def Let_def split_beta split: sum.splits if_splits intro: co_frame_trans [OF co_frame_refl(2) check_events_frame])

lemma sched_step_ok:
  assumes "sched_step K L s s'" and ok: "sched_ok s"
  shows "sched_ok s'"
  using assms(1)
proof cases
  case (ends a f arg i)
  then have "i = running_id s" by (auto simp: mainfunc_call_def bindR_eq_Inr Let_def)
  then show ?thesis using mainfunc_end_ok [OF ok ends(1)] ends(3) by simp
next
  case (spawn arg f i)
  then show ?thesis by (rule Spawn_ok [OF ok])
next
  case (resume i sw)
  then show ?thesis by (rule Resume_ok [OF ok])
next
  case network
  show ?thesis by (rule co_frame_ok [OF ok CheckNetwork_frame [OF network(2)]])
next
  case (yields a)
  then show ?thesis by (rule Yield_ok [OF ok])
next
  case (waits a fd events r)
  then show ?thesis by (rule wait_on_ok [OF ok])
next
  case (accepts a fd r)
  show ?thesis by (rule resumed_calls_ok(1) [OF ok accepts(2)])
next
  case (receives a fd len fl buf r buf')
  show ?thesis by (rule resumed_calls_ok(2) [OF ok receives(2)])
next
  case (sends a fd bytes fl ret r ret')
  show ?thesis by (rule resumed_calls_ok(3) [OF ok sends(2)])
next
  case (closes a fd r)
  show ?thesis by (rule co_frame_ok [OF ok Close_frame [OF closes(2)]])
qed

lemma Scheduler_new_ok: "sched_ok (Scheduler_new K w)"
proof -
  have "used_ids (Scheduler_new K w) = {}" by (auto simp: used_ids_def Scheduler_new_def split_beta Let_def)
  then show ?thesis using IdMap_new_ok by (intro sched_okI) (simp_all add: Scheduler_new_def split_beta Let_def)
qed

section \<open>Properties\<close>

text \<open>
  C39. The older scheduler keeps its coroutines apart, whatever loop and coroutines do, in whatever order: from
  the state of the constructor on, every number in use belongs to exactly one coroutine, which is alive and
  is found in the vector at its number; no more coroutine has the status of running than the one whose
  number is \<open>running_\<close>; and no allocated number is lost or given out twice.
\<close>

theorem scheduler_invariant:
  assumes "(sched_step K L)\<^sup>*\<^sup>* (Scheduler_new K w) s"
  shows "ids_ok (ids s) (used_ids s) \<and> (\<forall>a c. objs s a = Some c \<longrightarrow> nat (cr_id c) \<in> used_ids s \<and> coros s ! nat (cr_id c) = Some a) \<and>
    (\<forall>i \<in> used_ids s. \<exists>a c. coros s ! i = Some a \<and> objs s a = Some c \<and> cr_id c = int i) \<and>
    (\<forall>a b. is_running s a \<longrightarrow> is_running s b \<longrightarrow> a = b \<and> array_get (coros s) (running_id s) = Inr (Some a))"
proof -
  have ok: "sched_ok s" using assms by (induction rule: rtranclp_induct) (auto intro: Scheduler_new_ok sched_step_ok)
  have "nat (cr_id c) \<in> used_ids s \<and> coros s ! nat (cr_id c) = Some a" if "objs s a = Some c" for a c
    using sched_okD(4) [OF ok that] sched_okD(1) [OF ok] by (auto simp: used_ids_def)
  moreover have "\<exists>a c. coros s ! i = Some a \<and> objs s a = Some c \<and> cr_id c = int i" if "i \<in> used_ids s" for i
    using that sched_okD(1) [OF ok] sched_okD(3) [OF ok, of i] by (auto simp: used_ids_def)
  moreover have "a = b \<and> array_get (coros s) (running_id s) = Inr (Some a)" if "is_running s a" "is_running s b" for a b
    using only_running(1) [OF ok that(1)] only_running(2) [OF ok that(2,1)] by simp
  ultimately show ?thesis using sched_okD(2) [OF ok] by blast
qed

text \<open>One coroutine is spawned and runs.\<close>

lemma first_spawn: "\<exists>s. Spawn (Scheduler_new K w) arg f = Inr (0, s) \<and> Resume s 0 = Inr (Starts, s\<lparr>running_id := 0,
    objs := (objs s)(1 \<mapsto> \<lparr>cr_arg = arg, cr_fun = f, cr_id = 0, cr_status = kStatusRunning\<rparr>)\<rparr>) \<and> in_loop s"
proof -
  obtain m' where m: "Allocate IdMap_new = Inr (0, m')" by (rule in_row_next [OF in_row_new]) (simp_all add: nth_id_def)
  define s where "s = (Scheduler_new K w)\<lparr>ids := m', next_addr := 2, objs := [1 \<mapsto> \<lparr>cr_arg = arg, cr_fun = f, cr_id = 0, cr_status = kStatusReady\<rparr>],
    coros := (replicate kCoroNum None)[0 := Some 1], active_list := [Some 1]\<rparr>"
  have "ids (Scheduler_new K w) = IdMap_new" "next_addr (Scheduler_new K w) = 1" "objs (Scheduler_new K w) = Map.empty"
    "coros (Scheduler_new K w) = replicate kCoroNum None" "active_list (Scheduler_new K w) = []"
    by (simp_all add: Scheduler_new_def split_beta Let_def)
  with m have "Spawn (Scheduler_new K w) arg f = Inr (0, s)" unfolding s_def Spawn_def by (simp add: Let_def kCoroNum_def)
  moreover have "Resume s 0 = Inr (Starts, s\<lparr>running_id := 0,
    objs := (objs s)(1 \<mapsto> \<lparr>cr_arg = arg, cr_fun = f, cr_id = 0, cr_status = kStatusRunning\<rparr>)\<rparr>)"
    by (simp add: Resume_def s_def kCoroNum_def set_status_def)
  moreover have "in_loop s" by (simp add: in_loop_def s_def status_defs)
  ultimately show ?thesis by blast
qed

theorem scheduler_invariant_witness:
  "\<exists>s :: unit scheduler. is_running s 1 \<and> array_get (coros s) (running_id s) = Inr (Some 1) \<and> ids_ok (ids s) (used_ids s) \<and> running_id s = 0"
proof -
  obtain s where s: "Spawn (Scheduler_new demo_kernel ()) NullPtr (UserFun 0) = Inr (0, s)"
    "Resume s 0 = Inr (Starts, s\<lparr>running_id := 0, objs := (objs s)(1 \<mapsto> \<lparr>cr_arg = NullPtr, cr_fun = UserFun 0, cr_id = 0, cr_status = kStatusRunning\<rparr>)\<rparr>)"
    "in_loop s" using first_spawn [of demo_kernel "()" NullPtr "UserFun 0"] by blast
  let ?s = "s\<lparr>running_id := 0, objs := (objs s)(1 \<mapsto> \<lparr>cr_arg = NullPtr, cr_fun = UserFun 0, cr_id = 0, cr_status = kStatusRunning\<rparr>)\<rparr>"
  have "(sched_step demo_kernel L)\<^sup>*\<^sup>* (Scheduler_new demo_kernel ()) ?s" for L
  proof -
    have "sched_step demo_kernel L (Scheduler_new demo_kernel ()) s" "sched_step demo_kernel L s ?s"
      by (rule sched_step.spawn [OF s(1)], rule sched_step.resume [OF s(3,2)])
    then show ?thesis by simp
  qed
  note inv = scheduler_invariant [OF this]
  have "is_running ?s 1" "running_id ?s = 0" by (simp_all add: is_running_def)
  with inv show ?thesis by blast
qed

definition spawn_all :: "'k scheduler \<Rightarrow> (vptr \<times> coroutine_fun_t) list \<Rightarrow> 'k scheduler c_result" where
  "spawn_all s xs = foldR (\<lambda>s (arg, f). bindR (Spawn s arg f) (\<lambda>(_, s). Inr s)) s xs"

lemma spawn_row:
  assumes "in_row (ids s) n" and "length (coros s) = kCoroNum" and "used_ids s = {..<n}"
  shows "n < 64 \<Longrightarrow> \<exists>s'. Spawn s arg f = Inr (int n, s') \<and> in_row (ids s') (Suc n) \<and> length (coros s') = kCoroNum \<and> used_ids s' = {..<Suc n}"
    and "n = 64 \<Longrightarrow> Spawn s arg f = Inl OutOfBounds"
proof -
  show "Spawn s arg f = Inl OutOfBounds" if "n = 64"
  proof -
    have "n < 4096" "nth_id n = 512" using that by (simp_all add: nth_id_def)
    then obtain m' where "Allocate (ids s) = Inr (512, m')" using in_row_next [OF assms(1)] by (metis of_nat_numeral)
    then show ?thesis using assms(2) by (simp add: Spawn_def Let_def array_set_def kCoroNum_def)
  qed
  assume n: "n < 64"
  have "n < 4096" "nth_id n = n" using n by (simp_all add: nth_id_def)
  then obtain m' where m: "Allocate (ids s) = Inr (int n, m')" "in_row m' (Suc n)" using in_row_next [OF assms(1)] by metis
  then obtain s' where s': "Spawn s arg f = Inr (int n, s')" "ids s' = m'" "coros s' = (coros s)[n := Some (next_addr s)]"
    using assms(2) n by (simp add: Spawn_def Let_def kCoroNum_def)
  moreover have "used_ids s' = {..<Suc n}"
  proof -
    have "i \<in> used_ids s' \<longleftrightarrow> i = n \<or> i \<in> used_ids s" for i using s'(3) n assms(2) by (auto simp: used_ids_def nth_list_update kCoroNum_def)
    then show ?thesis using assms(3) by auto
  qed
  ultimately show "\<exists>s'. Spawn s arg f = Inr (int n, s') \<and> in_row (ids s') (Suc n) \<and> length (coros s') = kCoroNum \<and> used_ids s' = {..<Suc n}"
    using m(2) assms(2) by auto
qed

text \<open>
  C40. The older scheduler has room for 256 coroutines, but already the 65th that is alive at the same time is
  stored beyond the end of the vector: the first 64 get the numbers 0 to 63, and the next number of the
  bitmap is 512.
\<close>

theorem spawn_overflows:
  "if length xs \<le> 64 then \<exists>s. spawn_all (Scheduler_new K w) xs = Inr s \<and> used_ids s = {..<length xs}
   else spawn_all (Scheduler_new K w) xs = Inl OutOfBounds"
proof -
  have row: "\<exists>s. spawn_all (Scheduler_new K w) ys = Inr s \<and> in_row (ids s) (length ys) \<and> length (coros s) = kCoroNum \<and> used_ids s = {..<length ys}"
    if "length ys \<le> 64" for ys using that
  proof (induction ys rule: rev_induct)
    case Nil
    then show ?case using in_row_new by (auto simp: spawn_all_def Scheduler_new_def split_beta Let_def used_ids_def kCoroNum_def)
  next
    case (snoc y ys)
    then obtain s where s: "spawn_all (Scheduler_new K w) ys = Inr s" "in_row (ids s) (length ys)" "length (coros s) = kCoroNum" "used_ids s = {..<length ys}" by auto
    from spawn_row(1) [OF s(2-4), of "fst y" "snd y"] snoc.prems s(1) show ?case by (auto simp: spawn_all_def foldR_append split_beta)
  qed
  show ?thesis
  proof (cases "length xs \<le> 64")
    case True
    then show ?thesis using row by auto
  next
    case False
    then obtain ys y zs where xs: "xs = ys @ y # zs" "length ys = 64" using id_take_nth_drop [of 64 xs] by (metis length_take min.absorb2 not_le order_less_imp_le)
    obtain s where s: "spawn_all (Scheduler_new K w) ys = Inr s" "in_row (ids s) 64" "length (coros s) = kCoroNum" "used_ids s = {..<64}" using row [of ys] xs(2) by auto
    then have "Spawn s (fst y) (snd y) = Inl OutOfBounds" using spawn_row(2) [OF s(2-4)] by simp
    then show ?thesis using False s(1) by (simp add: xs spawn_all_def foldR_append split_beta)
  qed
qed

text \<open>
  A coroutine that has ended stays in the active list, so the loop reads it after it was deleted: no later
  round of the loop ends. \<open>run\<close> may append to the list but neither remove from it nor bring the object
  back.
\<close>

definition only_appends :: "(resumed \<Rightarrow> int \<Rightarrow> 'k scheduler \<Rightarrow> 'k scheduler c_result) \<Rightarrow> nat \<Rightarrow> bool" where
  "only_appends run a \<longleftrightarrow> (\<forall>sw k s s'. run sw k s = Inr s' \<longrightarrow>
     (\<exists>ys. active_list s' = active_list s @ ys) \<and> (objs s a = None \<longrightarrow> objs s' a = None))"

lemma Resume_keeps:
  assumes "Resume s k = Inr (sw, s')"
  shows "active_list s' = active_list s" "objs s a = None \<Longrightarrow> objs s' a = None"
  using assms by (auto simp: Resume_def set_status_def bindR_eq_Inr deref_def split: if_splits option.splits)

lemma dead_in_active:
  assumes "resume_all run i s = Some r" and "only_appends run a" and "i \<le> j" and "j < length (active_list s)"
    and "active_list s ! j = Some a" and "objs s a = None"
  shows "\<exists>e. r = Inl e"
  using assms
proof (induction run i s r rule: resume_all.raw_induct [rotated, consumes 1, case_names step])
  case (step f run i s r)
  have i: "i < length (active_list s)" using step.prems by simp
  show ?case
  proof (cases "bindR (deref (objs s) (active_list s ! i)) (\<lambda>c. bindR (Resume s (cr_id c)) (\<lambda>(sw, s). Inr (sw, cr_id c, s)))")
    case (Inl e)
    then show ?thesis using step.hyps i by auto
  next
    case (Inr x)
    then obtain sw k s1 where x: "x = (sw, k, s1)" by (cases x)
    with Inr have "i \<noteq> j" using step.prems(4,5) by auto
    with step.prems(2) have j: "Suc i \<le> j" by simp
    from Inr x have s1: "Resume s k = Inr (sw, s1)" by (auto simp: bindR_eq_Inr)
    show ?thesis
    proof (cases "if sw = NoSwitch then Inr s1 else run sw k s1")
      case (Inl e)
      then show ?thesis using step.hyps i Inr x by (intro exI [of _ e]) simp
    next
      case s2: (Inr s2)
      then have "f run (Suc i) s2 = Some r" using step.hyps i Inr x by simp
      moreover have "(\<exists>ys. active_list s2 = active_list s1 @ ys) \<and> (objs s1 a = None \<longrightarrow> objs s2 a = None)"
        using s2 step.prems(1) unfolding only_appends_def by (cases "sw = NoSwitch") auto
      then have "j < length (active_list s2)" "active_list s2 ! j = Some a" "objs s2 a = None"
        using Resume_keeps [OF s1] step.prems(3-5) by (auto simp: nth_append)
      ultimately show ?thesis using step.IH step.prems(1) j by blast
    qed
  qed
qed

lemma ended_coroutine_faults:
  assumes "mainfunc_end s i (Some a) = Inr s'" and "Some a \<in> set (active_list s)" and "only_appends run a"
  shows "Run_turn K run s' \<noteq> Inr s''"
proof -
  have s': "active_list s' = active_list s" "objs s' a = None" using assms(1) by (auto simp: mainfunc_end_def bindR_eq_Inr Let_def)
  obtain j where "j < length (active_list s')" "active_list s' ! j = Some a" using assms(2) s'(1) by (auto simp: in_set_conv_nth)
  then show ?thesis using dead_in_active [OF _ assms(3), of 0 s' _ j] s'(2) unfolding Run_turn_def by (fastforce split: option.splits simp: bindR_eq_Inr)
qed

end
