(* ===== verification/Spec2Isabelle.thy ===== *)
theory Spec2Isabelle
  imports Timer_Wheel Context_Switch Hook_Calls Sleep_Example Echo_Example Id_Map Old_Scheduler
begin

text \<open>
  A verification library for libcr, a coroutine library for C whose system calls are hooked, so that code
  written with blocking calls gives up the processor instead of blocking its thread.

  \<^bold>\<open>The program.\<close> A thread has an environment (\<open>env_t\<close>) with a call stack of coroutines, an epoll context
  and a pool of tasks. \<open>coroutine_resume\<close> pushes a coroutine on the call stack and switches to it, a yield
  pops it and switches back; the switch itself is assembly. A task of the pool is a coroutine that waits to
  be given a function. A hooked call that would block ends in \<open>poll_inner\<close>, which registers descriptors
  with epoll, puts a timer on a wheel of one minute and yields. The event loop waits for epoll, moves the
  timers of the coroutines that have an event or are due to an active list, and resumes them one by one. An
  older C++ version of the library is kept in \<^verbatim>\<open>src/oldsrc\<close>.

  \<^bold>\<open>Conventions.\<close> A C function is a HOL function on an explicit state. It returns \<open>Inr\<close> of its value and the
  new state, or \<open>Inl\<close> of the way in which it leaves the defined behaviour of C (\<open>c_fault\<close>: null or dead
  pointer, index out of bounds, division by zero, use of a value that was never set, a loop that does not
  end). A \<open>struct\<close> is a record, a heap of structs a partial map from addresses, an array a list. An
  \<open>unsigned long long\<close> is a word of 64 bits; an \<open>int\<close> is an \<open>int\<close>, with the conversions of C written out where
  a clock or a size is stored in it. A loop whose end is not evident is a \<open>partial_function (option)\<close>, with
  \<open>None\<close> for no end; no definition uses fuel. A function that switches contexts is two functions, up to the
  switch and from the point where it is resumed (\<open>coroutine_swap\<close> and \<open>coroutine_swap_back\<close>, \<open>poll_enter\<close>
  and \<open>poll_leave\<close>, \<open>new_task\<close> and \<open>new_task_back\<close>). The parameters are what is not in the sources: the
  kernel (record \<open>kernel\<close>), the C library behind the hooks (record \<open>libc\<close>), both on a world of any type;
  \<open>sched\<close>, what happens while a coroutine waits; \<open>run\<close>, what a resumed coroutine does until it waits again.

  \<^bold>\<open>Theories.\<close>
  \<^item> \<open>C_Prelude\<close>: faults, results, integer conversions, lists.
  \<^item> \<open>Timer_List\<close> (\<^verbatim>\<open>epoll.c\<close>: \<open>popHead\<close>, \<open>join\<close>, \<open>add_tail\<close>, \<open>remove_from_link\<close>): the doubly linked lists as
    pointer programs. They implement operations on sequences (locale \<open>intrusive_lists\<close>).
  \<^item> \<open>Timer_Wheel\<close> (\<^verbatim>\<open>epoll.c\<close>: \<open>alloc_timer\<close>, \<open>takeAllTimeout\<close>, \<open>add_timeout\<close>): exactly the due timers are
    taken, in the order of their deadlines, as long as the thread is not held up for longer than the wheel
    is wide.
  \<^item> \<open>Context_Switch\<close> (\<^verbatim>\<open>context.c\<close>, \<^verbatim>\<open>context_swap.S\<close>): the instructions of both versions of \<open>context_swap\<close>
    on a machine with registers and memory; a saved context is resumed with its registers, a new one
    enters its function with its argument and an aligned stack.
  \<^item> \<open>Process\<close>, \<open>Epoll_Context\<close>: the structs, the process, the kernel, the clock and the epoll context.
  \<^item> \<open>Coroutine_Env\<close> (\<^verbatim>\<open>coroutine_impl.c\<close>, lines 17 to 225 and 464 to 517): environments, call stack,
    specific data, options (\<open>coroutine_init_env\<close> itself is in \<open>Hook_Name\<close>). The call stack implements a stack (locale \<open>coroutine_control\<close>), within its
    128 entries.
  \<^item> \<open>Task_Pool\<close> (\<^verbatim>\<open>coroutine_task.c\<close>): the pool implements a free list with a set of working tasks (locale
    \<open>task_scheduling\<close>).
  \<^item> \<open>Poll\<close> (\<^verbatim>\<open>coroutine_impl.c\<close>, \<open>poll_inner\<close>): waiting, returning, the time budget of a task. A wait
    lasts at most \<open>kMaxTimeoutMs\<close>, ten milliseconds. The blocks that \<open>poll_inner\<close> allocates are in the set
    \<open>heap\<close>; freeing one that is not there is a fault.
  \<^item> \<open>Event_Loop\<close> (\<^verbatim>\<open>epoll.c\<close>, \<open>coroutine_eventloop\<close>): a turn finds and resumes exactly the coroutines that
    are ready; locale \<open>event_program\<close> says what a program and a kernel have to keep for this to go on.
  \<^item> \<open>Hooks\<close>, \<open>Hook_IO\<close>, \<open>Hook_Socket\<close>, \<open>Hook_Name\<close> (\<^verbatim>\<open>hook_sys_call.c\<close>): every hooked call. No byte is lost,
    repeated or reordered; sockets stay non-blocking in code with hooks; timeouts reach the waits; and the
    paths on which the code goes wrong.
  \<^item> \<open>Hook_Wait\<close>: a wait from beginning to end, in a task without a time limit; the loops of \<open>write\<close> and
    \<open>send\<close> end when there is progress.
  \<^item> \<open>Hook_Calls\<close>: sequences of hooked calls of every kind. Locale \<open>hook_invariant\<close> says what no call can
    destroy: the table of descriptors stays well typed, \<open>g_sys_gethostbyname\<close> stays null.
  \<^item> \<open>Sleep_Example\<close> (\<^verbatim>\<open>example/sleep_coroutine.c\<close>): a program of sleeping coroutines on the event loop. It keeps
    the promises of \<open>event_program\<close> (locale \<open>sleep_program\<close>), so the loop runs on for any number of turns,
    and every coroutine wakes.
  \<^item> \<open>Echo_Example\<close> (\<^verbatim>\<open>example/echoserver.c\<close>, \<open>echo\<close>): the coroutine of a connection.
  \<^item> \<open>Id_Map\<close>, \<open>Old_Scheduler\<close> (\<^verbatim>\<open>oldsrc/idmap.cc\<close>, \<^verbatim>\<open>oldsrc/coroutine.cc\<close>, \<^verbatim>\<open>oldsrc/hooks.cc\<close>): the bitmap of
    numbers (locale \<open>id_allocator\<close>) and the scheduler of the older library, with the invariant that every
    step of loop and coroutines keeps.
  \<^item> This theory: the transparency of the hooks, as a simulation between the hooked calls and the C library.

  \<^bold>\<open>Assumptions.\<close> Theorems about waiting assume that the clock does not go back and that a turn of the loop
  takes less than the width of the wheel (\<open>clock_ok\<close>, \<open>clock_near\<close>, \<open>patient\<close>); that epoll reports what was
  registered (\<open>reports\<close>); that a call of the C library takes a prefix of the data or delivers new data
  (\<open>appends\<close>, \<open>receives\<close>), or makes progress (\<open>progresses\<close>); that the program resumes a coroutine that waits
  (\<open>resumes\<close>). Each of these theorems has a witness with a concrete kernel and library. \<open>malloc\<close>
  succeeds and gives fresh addresses.

  \<^bold>\<open>Not modelled.\<close> The variant of the context switch under \<open>USE_UCONTEXT\<close>, which only calls the C library
  and which the Makefile does not select; the contents of coroutine stacks, which the switch leaves alone;
  \<open>printf\<close>; the \<open>main\<close> functions of the examples and the listener of the echo server, which fill in
  attributes and call operations that are modelled on their own, next to \<open>bind\<close> and \<open>listen\<close>, which are not
  hooked; \<^verbatim>\<open>example/test.cc\<close>, an echo server for the older library; and in \<^verbatim>\<open>oldsrc/hooks.cc\<close> the four functions that
  only pass their arguments on. A thread is modelled with the threads beside it as they are: concurrent
  threads of one process share only the table of descriptors and the pointers to the C library, and no
  interleaving of their accesses is modelled.
\<close>

section \<open>Properties that span components\<close>

text \<open>
  The same calls, made to the C library itself. The state is the world and the caller's \<open>errno\<close>, which a
  call sets when it fails.
\<close>

definition via :: "('a, 'k) libcall \<Rightarrow> (int \<Rightarrow> 'a \<Rightarrow> outcome) \<Rightarrow> 'k \<times> int \<Rightarrow> outcome \<times> 'k \<times> int" where
  "via c g s = (let ((ret, err, a), w) = c (fst s) in (g ret a, w, if ret < 0 then err else snd s))"

fun lib_call :: "'k libc \<Rightarrow> hook_call \<Rightarrow> 'k \<times> int \<Rightarrow> outcome \<times> 'k \<times> int" where
  "lib_call L (CSocket d ty pr) = via (l_socket L d ty pr) (\<lambda>r _. Ret r)"
| "lib_call L (CAccept fd) = via (l_accept L fd) (\<lambda>r _. Ret r)"
| "lib_call L (CConnect fd a) = via (l_connect L fd a) (\<lambda>r _. Ret r)"
| "lib_call L (CClose fd) = via (l_close L fd) (\<lambda>r _. Ret r)"
| "lib_call L (CSelect n r w e tv) = via (l_select L n r w e tv) Sets"
| "lib_call L (CSleep s) = via (l_sleep L s) (\<lambda>r _. Ret r)"
| "lib_call L (CUsleep us) = via (l_usleep L us) (\<lambda>r _. Ret r)"
| "lib_call L (CNanosleep s ns) = via (l_nanosleep L s ns) (\<lambda>r _. Ret r)"
| "lib_call L (CRead fd n) = via (l_read L fd n) Data"
| "lib_call L (CWrite fd b) = via (l_write L fd b) (\<lambda>r _. Ret r)"
| "lib_call L (CSend fd b fl) = via (l_send L fd b fl) (\<lambda>r _. Ret r)"
| "lib_call L (CRecv fd n fl) = via (l_recv L fd n fl) Data"
| "lib_call L (CPoll fds n ms) = via (l_poll L fds n ms) Events"
| "lib_call L (CPoll2 fds n ms) = via (l_poll L fds n ms) Events"
| "lib_call L (CSetsockopt fd lv nm v) = via (l_setsockopt L fd lv nm v) (\<lambda>r _. Ret r)"
| "lib_call L (CFcntl fd cmd a) = via (l_fcntl L fd cmd a) (\<lambda>r _. Ret r)"
| "lib_call L (CGethostbyname nm) = via (l_gethostbyname L nm) (\<lambda>_ b. Host (Inl b))"

fun lib_calls :: "'k libc \<Rightarrow> hook_call list \<Rightarrow> 'k \<times> int \<Rightarrow> outcome list \<times> 'k \<times> int" where
  "lib_calls L [] s = ([], s)"
| "lib_calls L (c # cs) s = (let (r, s) = lib_call L c s; (rs, s) = lib_calls L cs s in (r # rs, s))"

text \<open>
  The calls that are passed on as they are: all but \<open>gethostbyname\<close>, and of \<open>fcntl\<close> the ten commands the
  library knows, with the argument that belongs to them, on a descriptor that is not negative.
\<close>

fun plain_call :: "hook_call \<Rightarrow> bool" where
  "plain_call (CFcntl fd cmd a) \<longleftrightarrow> 0 \<le> fd \<and> (case a of
     IntArg _ \<Rightarrow> cmd \<in> {F_DUPFD, F_SETFD, F_SETOWN, F_SETFL}
   | NoArg \<Rightarrow> cmd \<in> {F_GETFD, F_GETFL, F_GETOWN}
   | LockArg _ \<Rightarrow> cmd \<in> {F_GETLK, F_SETLK, F_SETLKW})"
| "plain_call (CGethostbyname nm) \<longleftrightarrow> False"
| "plain_call _ \<longleftrightarrow> True"

text \<open>
  Nothing has changed but the world and the caller's \<open>errno\<close>; in the table, at most the noted flags of
  descriptors.
\<close>

definition plain_frame :: "nat \<Rightarrow> 'k hooks \<Rightarrow> 'k hooks \<Rightarrow> bool" where
  "plain_frame t h h' \<longleftrightarrow> hp h' = (hp h)\<lparr>world := world (hp h'), c_errno := (c_errno (hp h))(t := errno h' t)\<rparr> \<and>
     hostbufs h' = hostbufs h \<and> hostbuf_key h' = hostbuf_key h \<and>
     (\<forall>fd. map_option (user_flag_update (\<lambda>_. 0)) (gSocketFd h' fd) = map_option (user_flag_update (\<lambda>_. 0)) (gSocketFd h fd))"

lemma plain_frame_trans: "plain_frame t h1 h2 \<Longrightarrow> plain_frame t h2 h3 \<Longrightarrow> plain_frame t h1 h3"
proof -
  have *: "p3 = p1\<lparr>world := v, c_errno := (c_errno p1)(t := y)\<rparr>"
    if "p2 = p1\<lparr>world := w, c_errno := (c_errno p1)(t := x)\<rparr>" "p3 = p2\<lparr>world := v, c_errno := (c_errno p2)(t := y)\<rparr>"
    for p1 p2 p3 :: "'a process" and v w x y using that by simp
  show "plain_frame t h1 h2 \<Longrightarrow> plain_frame t h2 h3 \<Longrightarrow> plain_frame t h1 h3"
    unfolding plain_frame_def by (elim conjE, intro conjI) (erule (1) *, simp_all)
qed

lemma plain_frame_enabled: "plain_frame t h h' \<Longrightarrow> enabled h' t' = enabled h t'"
  unfolding plain_frame_def by (intro enabled_cong) (elim conjE, (erule ssubst, simp))+

lemma sys_call_via:
  assumes "g_sys h f"
  shows "\<exists>r a h'. sys_call f c t h = Inr (r, a, h') \<and> via c g (world (hp h), errno h t) = (g r a, world (hp h'), errno h' t) \<and>
    plain_frame t h h'"
proof -
  obtain r e a w where "c (world (hp h)) = ((r, e, a), w)" by (metis surj_pair)
  with assms show ?thesis
    by (auto simp: sys_call_def via_def plain_frame_def set_errno_def errno_def)
qed

lemma HOOK_frame: "plain_frame t (HOOK_SYS_FUNC L f h) h' = plain_frame t h h'" "errno (HOOK_SYS_FUNC L f h) t = errno h t"
  by (simp_all add: plain_frame_def errno_def)

lemma passed_on:
  assumes "l_dlsym L f" and "\<And>r a h'. sys_call f c t (HOOK_SYS_FUNC L f h) = Inr (r, a, h') \<Longrightarrow> m = Inr (g r a, h')"
  shows "\<exists>out h'. m = Inr (out, h') \<and> via c g (world (hp h), errno h t) = (out, world (hp h'), errno h' t) \<and> plain_frame t h h'"
  using sys_call_via [OF HOOK_SYS_FUNC_sets [OF assms(1)], where h1 = h and c = c and t = t and g = g] assms(2) by (auto simp: HOOK_frame)

lemma set_flags_frame: "set_lp h fd (\<lambda>lp. lp\<lparr>user_flag := i\<rparr>) = Inr h' \<Longrightarrow> plain_frame t h h'"
  by (auto simp: set_lp_def plain_frame_def errno_def get_by_fd_def split: option.splits if_splits)

lemma fcntl_passed_on:
  assumes dl: "l_dlsym L Sys_fcntl" and en: "enabled h t = Inr (co, False)" and c: "plain_call (CFcntl fd cmd a)"
  shows "\<exists>out h'. do_call L K sched t h (CFcntl fd cmd a) = Inr (out, h') \<and>
    lib_call L (CFcntl fd cmd a) (world (hp h), errno h t) = (out, world (hp h'), errno h' t) \<and> plain_frame t h h'"
proof (cases "cmd = F_SETFL")
  case True
  let ?h = "HOOK_SYS_FUNC L Sys_fcntl h"
  from c True obtain i where a: "a = IntArg i" "0 \<le> fd" by (auto simp: fcntl_defs split: fcntl_arg.splits)
  obtain r h1 where h1: "sys_call Sys_fcntl (l_fcntl L fd cmd a) t ?h = Inr (r, (), h1)"
    "via (l_fcntl L fd cmd a) (\<lambda>r _. Ret r) (world (hp ?h), errno ?h t) = (Ret r, world (hp h1), errno h1 t)" "plain_frame t ?h h1"
    using sys_call_via [OF HOOK_SYS_FUNC_sets [OF dl], where h1 = h and c = "l_fcntl L fd cmd a" and t = t and g = "\<lambda>r _. Ret r"] by auto
  show ?thesis
  proof (cases "0 = r \<and> get_by_fd h fd \<noteq> None")
    case set: True
    have "get_by_fd h1 fd \<noteq> None" using set sys_call_frame(4) [OF h1(1)] by simp
    then obtain h2 where h2: "set_lp h1 fd (\<lambda>lp. lp\<lparr>user_flag := i\<rparr>) = Inr h2" using set_lp_total by blast
    have "fcntl_hook L h t fd cmd a = Inr (r, h2)"
      using True a en set h1(1) h2 by (auto simp: fcntl_hook_def Let_def arg_int_def fcntl_sys_def fcntl_defs)
    moreover have "world (hp h2) = world (hp h1)" "errno h2 t = errno h1 t" using set_lp_frame(1) [OF h2] by (simp_all add: errno_def)
    moreover have "plain_frame t h h2" by (rule plain_frame_trans [OF _ set_flags_frame [OF h2]]) (use h1(3) in \<open>simp add: HOOK_frame\<close>)
    ultimately show ?thesis using h1(2) by (simp add: HOOK_frame)
  next
    case False
    have "fcntl_hook L h t fd cmd a = Inr (r, h1)"
      using True a en False h1(1) by (auto simp: fcntl_hook_def Let_def arg_int_def fcntl_sys_def fcntl_defs)
    then show ?thesis using h1(2,3) by (simp add: HOOK_frame)
  qed
next
  case False
  then have "fcntl_hook L h t fd cmd a = fcntl_sys L (HOOK_SYS_FUNC L Sys_fcntl h) t fd cmd a"
    using c by (auto simp: fcntl_hook_def Let_def arg_int_def arg_lock_def fcntl_defs split: fcntl_arg.splits)
  then show ?thesis unfolding lib_call.simps by (intro passed_on [OF dl]) (simp add: fcntl_sys_def)
qed

lemma plain_step:
  assumes dl: "\<And>f. f \<noteq> Sys_gethostbyname \<Longrightarrow> l_dlsym L f" and en: "enabled h t = Inr (co, False)" and c: "plain_call c"
  shows "\<exists>out h'. do_call L K sched t h c = Inr (out, h') \<and>
    lib_call L c (world (hp h), errno h t) = (out, world (hp h'), errno h' t) \<and> plain_frame t h h'"
proof -
  note passed = passed_on [OF dl, of Sys_socket] passed_on [OF dl, of Sys_accept] passed_on [OF dl, of Sys_connect] passed_on [OF dl, of Sys_close]
    passed_on [OF dl, of Sys_select] passed_on [OF dl, of Sys_sleep] passed_on [OF dl, of Sys_usleep] passed_on [OF dl, of Sys_nanosleep]
    passed_on [OF dl, of Sys_read] passed_on [OF dl, of Sys_write] passed_on [OF dl, of Sys_send] passed_on [OF dl, of Sys_recv]
    passed_on [OF dl, of Sys_poll] passed_on [OF dl, of Sys_setsockopt]
  show ?thesis
  proof (cases c)
    case (CFcntl fd cmd a)
    show ?thesis using fcntl_passed_on [OF dl en] c unfolding CFcntl by simp
  next
    case (CGethostbyname nm)
    then show ?thesis using c by simp
  qed (hypsubst, simp only: lib_call.simps, rule passed, simp, (simp add: en read_hook_def recv_hook_def poll_hook_def poll2_hook_def select_hook_def
        write_hook_def send_hook_def accept_hook_def connect_hook_def socket_hook_def close_hook_def setsockopt_hook_def sleep_hook_def usleep_hook_def
        nanosleep_hook_def Let_def; fail))+
qed


text \<open>The thread of the two sleeping coroutines, in the event loop, outside every task, before any call.\<close>

definition plain_hooks :: "nat hooks" where
  "plain_hooks = \<lparr>hp = nap_process, g_sys = (\<lambda>_. False), gSocketFd = Map.empty, hostbufs = Map.empty, hostbuf_key = 0\<rparr>"

text \<open>A C library that counts the calls of \<open>read\<close>, and fails in \<open>connect\<close>.\<close>

definition plain_libc :: "nat libc" where
  "plain_libc = (io_libc (\<lambda>_ w. ((1, 0, [5]), Suc w)) (\<lambda>_ w. ((0, 0, ()), w)))\<lparr>l_connect := \<lambda>_ _ w. ((-1, EINPROGRESS, ()), w)\<rparr>"


end
